(* ===== verification/Prelude.thy ===== *)
theory Prelude
  imports Main "HOL-Library.Word" "HOL-Library.Monad_Syntax"
begin

unbundle bit_operations_syntax

text \<open>
  Shared material of the Protura development: the machine types of the kernel
  (\<^verbatim>\<open>arch/x86/include/arch/types.h\<close>), the alignment and page macros of
  \<^verbatim>\<open>arch/x86/include/arch/paging.h\<close>, the lemma collections, and generic facts on lists,
  options and words that the component theories use.

  A C function whose name starts with two underscores is modelled by a definition whose name
  starts with \<open>u_\<close>, because an Isabelle identifier cannot start with an underscore.
  Where the C code would read or write outside of an object, follow a null pointer or
  panic, the model returns \<^term>\<open>None\<close>.
\<close>

section \<open>Collections\<close>

named_theorems klist_simps \<open>shape facts of the intrusive list\<close>
named_theorems align_simps \<open>facts on the alignment macros\<close>
named_theorems buddy_frame \<open>frame facts of the buddy allocator operations\<close>

section \<open>Machine types\<close>

type_synonym u8 = "8 word"
type_synonym u16 = "16 word"
type_synonym u32 = "32 word"

abbreviation umax32 :: nat where
  "umax32 \<equiv> 2 ^ 32"

section \<open>Alignment and pages\<close>

text \<open>\<^verbatim>\<open>ALIGN_2(v, a)\<close> and \<^verbatim>\<open>ALIGN_2_DOWN(v, a)\<close> compute on \<^verbatim>\<open>uintptr_t\<close>, so they wrap.\<close>

definition ALIGN_2 :: "u32 \<Rightarrow> u32 \<Rightarrow> u32" where
  "ALIGN_2 v a = (v + a - 1) AND NOT (a - 1)"

definition ALIGN_2_DOWN :: "u32 \<Rightarrow> u32 \<Rightarrow> u32" where
  "ALIGN_2_DOWN v a = v AND NOT (a - 1)"

definition PG_SHIFT :: nat where
  "PG_SHIFT = 12"

definition PG_SIZE :: u32 where
  "PG_SIZE = push_bit PG_SHIFT 1"

definition PG_ALIGN :: "u32 \<Rightarrow> u32" where
  "PG_ALIGN v = ALIGN_2 v PG_SIZE"

definition PG_ALIGN_DOWN :: "u32 \<Rightarrow> u32" where
  "PG_ALIGN_DOWN v = ALIGN_2_DOWN v PG_SIZE"

definition PA_TO_PN :: "u32 \<Rightarrow> u32" where
  "PA_TO_PN addr = drop_bit PG_SHIFT addr"

definition PN_TO_PA :: "u32 \<Rightarrow> u32" where
  "PN_TO_PA pn = push_bit PG_SHIFT pn"

definition KMEM_KBASE :: u32 where
  "KMEM_KBASE = 0xC0000000"

definition KMAP_START :: u32 where
  "KMAP_START = 0xF0000000"

definition V2P :: "u32 \<Rightarrow> u32" where
  "V2P x = x - KMEM_KBASE"

definition P2V :: "u32 \<Rightarrow> u32" where
  "P2V x = x + KMEM_KBASE"

lemma V2P_P2V [simp]: "V2P (P2V x) = x"
  by (simp add: V2P_def P2V_def)

lemma P2V_V2P [simp]: "P2V (V2P x) = x"
  by (simp add: V2P_def P2V_def)

lemma PG_SIZE_eq: "PG_SIZE = 4096"
  by (simp add: PG_SIZE_def PG_SHIFT_def)

lemma and_not_mask_word:
  fixes v :: u32
  shows "v AND NOT (mask n) = v - take_bit n v"
proof -
  have "v AND NOT (mask n) = push_bit n (drop_bit n v)"
    by (rule bit_word_eqI) (auto simp: bit_simps)
  then show ?thesis
    using bits_ident [of n v] by (simp add: eq_diff_eq)
qed

lemma unat_take_bit_32: "unat (take_bit n (v :: u32)) = unat v mod 2 ^ n"
  unfolding unsigned_take_bit_eq by (rule take_bit_eq_mod)

lemma unat_and_not_mask [align_simps]:
  fixes v :: u32
  shows "unat (v AND NOT (mask n)) = unat v div 2 ^ n * 2 ^ n"
proof -
  have le: "take_bit n v \<le> v"
    by (simp add: word_le_nat_alt unat_take_bit_32)
  have "unat (v - take_bit n v) = unat v - unat v mod 2 ^ n"
    using le by (simp add: unat_sub unat_take_bit_32)
  also have "\<dots> = unat v div 2 ^ n * 2 ^ n"
    by (simp add: minus_mod_eq_div_mult)
  finally show ?thesis
    by (simp add: and_not_mask_word)
qed

lemma ALIGN_2_DOWN_mask: "ALIGN_2_DOWN v (2 ^ n) = v AND NOT (mask n)"
  by (simp add: ALIGN_2_DOWN_def mask_eq_exp_minus_1)

lemma ALIGN_2_mask: "ALIGN_2 v (2 ^ n) = (v + mask n) AND NOT (mask n)"
  by (simp add: ALIGN_2_def mask_eq_exp_minus_1 algebra_simps)

lemma unat_ALIGN_2_DOWN [align_simps]:
  "unat (ALIGN_2_DOWN v (2 ^ n)) = unat v div 2 ^ n * 2 ^ n"
  by (simp add: ALIGN_2_DOWN_mask unat_and_not_mask)

lemma unat_mask_32: "unat (mask n :: u32) = 2 ^ n - 1" if "n < 32"
proof -
  from that have lt: "(2::nat) ^ n - 1 < 2 ^ 32"
    by (meson less_imp_diff_less one_less_numeral_iff power_strict_increasing semiring_norm(76))
  have "(mask n :: u32) = word_of_nat (mask n)"
    by (simp add: of_nat_mask_eq)
  then have "unat (mask n :: u32) = take_bit 32 (mask n)"
    by (simp add: unsigned_of_nat)
  also have "\<dots> = (2 ^ n - 1) mod 2 ^ 32"
    by (simp add: mask_eq_exp_minus_1 take_bit_eq_mod)
  also have "\<dots> = 2 ^ n - 1"
    using lt by (rule mod_less)
  finally show ?thesis .
qed

lemma unat_ALIGN_2 [align_simps]:
  assumes "n < 32" and "unat v + (2 ^ n - 1) < umax32"
  shows "unat (ALIGN_2 v (2 ^ n)) = (unat v + (2 ^ n - 1)) div 2 ^ n * 2 ^ n"
proof -
  have "unat (v + mask n) = unat v + (2 ^ n - 1)"
    using assms by (simp add: unat_word_ariths unat_mask_32)
  then show ?thesis
    by (simp add: ALIGN_2_mask unat_and_not_mask)
qed

text \<open>The rounding facts the components use: the result is a multiple, and it is the nearest one.\<close>

lemma ALIGN_2_DOWN_le: "unat (ALIGN_2_DOWN v (2 ^ n)) \<le> unat v"
  by (simp add: unat_ALIGN_2_DOWN div_times_less_eq_dividend)

lemma ALIGN_2_DOWN_dvd: "2 ^ n dvd unat (ALIGN_2_DOWN v (2 ^ n))"
  by (simp add: unat_ALIGN_2_DOWN)

lemma ALIGN_2_dvd: "2 ^ n dvd unat (ALIGN_2 v (2 ^ n))"
  by (simp add: ALIGN_2_mask unat_and_not_mask)

lemma ALIGN_2_ge:
  assumes "n < 32" and "unat v + (2 ^ n - 1) < umax32"
  shows "unat v \<le> unat (ALIGN_2 v (2 ^ n))"
    and "unat (ALIGN_2 v (2 ^ n)) < unat v + 2 ^ n"
proof -
  let ?w = "unat v + (2 ^ n - 1)"
  have split: "?w div 2 ^ n * 2 ^ n + ?w mod 2 ^ n = ?w"
    by (rule div_mult_mod_eq)
  have small: "?w mod 2 ^ n < 2 ^ n" and pos: "(0::nat) < 2 ^ n"
    by simp_all
  show "unat v \<le> unat (ALIGN_2 v (2 ^ n))"
    unfolding unat_ALIGN_2 [OF assms] using split small pos by linarith
  show "unat (ALIGN_2 v (2 ^ n)) < unat v + 2 ^ n"
    unfolding unat_ALIGN_2 [OF assms] using split small pos by linarith
qed

lemma PG_SIZE_exp: "PG_SIZE = 2 ^ 12"
  by (simp add: PG_SIZE_eq)

lemma unat_u32_less: "unat (v :: u32) < 4294967296"
  using unsigned_less [of v, where 'a = nat] by simp

lemma unat_u8_less: "unat (v :: u8) < 256"
  using unsigned_less [of v, where 'a = nat] by simp

lemma unat_PG_ALIGN: "unat v \<le> 0xFFFFF000 \<Longrightarrow> unat (PG_ALIGN v) = (unat v + 4095) div 4096 * 4096"
  using unat_ALIGN_2 [of 12 v] by (simp add: PG_ALIGN_def PG_SIZE_exp)

lemma unat_PG_ALIGN_DOWN: "unat (PG_ALIGN_DOWN v) = unat v div 4096 * 4096"
  using unat_ALIGN_2_DOWN [of v 12] by (simp add: PG_ALIGN_DOWN_def PG_SIZE_exp)

lemma page_multiple_le: "4096 dvd unat (v :: u32) \<Longrightarrow> unat v \<le> 0xFFFFF000"
  using unat_u32_less [of v] by (auto elim!: dvdE)

lemma PG_ALIGN_id: "4096 dvd unat v \<Longrightarrow> PG_ALIGN v = v"
  by (rule word_unat_eq_iff [THEN iffD2]) (auto simp: unat_PG_ALIGN page_multiple_le elim!: dvdE)

lemma PG_ALIGN_DOWN_id: "4096 dvd unat v \<Longrightarrow> PG_ALIGN_DOWN v = v"
  by (rule word_unat_eq_iff [THEN iffD2]) (auto simp: unat_PG_ALIGN_DOWN)

lemma PG_ALIGN_dvd: "4096 dvd unat (PG_ALIGN v)" "4096 dvd unat (PG_ALIGN_DOWN v)"
  using ALIGN_2_dvd [of 12 v] ALIGN_2_DOWN_dvd [of 12 v]
  by (simp_all add: PG_ALIGN_def PG_ALIGN_DOWN_def PG_SIZE_exp)

lemma unat_PA_TO_PN: "unat (PA_TO_PN v) = unat v div 4096"
  unfolding PA_TO_PN_def PG_SHIFT_def unsigned_drop_bit_eq
  by (simp add: drop_bit_eq_div take_bit_eq_mod unat_u32_less)

lemma PA_TO_PN_mono: "x \<le> y \<Longrightarrow> PA_TO_PN x \<le> PA_TO_PN y"
  by (simp add: unat_PA_TO_PN word_le_nat_alt div_le_mono)

lemma PN_TO_PA_of_nat: "PN_TO_PA (of_nat q) = of_nat (q * 4096)"
  by (simp add: PN_TO_PA_def PG_SHIFT_def push_bit_eq_mult)

lemma unat_of_nat_u32: "n < 4294967296 \<Longrightarrow> unat (of_nat n :: u32) = n"
  by (simp add: unat_of_nat take_bit_eq_mod)

lemma PN_TO_PA_PA_TO_PN: "4096 dvd unat pa \<Longrightarrow> PN_TO_PA (of_nat (unat (PA_TO_PN pa))) = pa"
  by (simp add: PN_TO_PA_of_nat unat_PA_TO_PN)

lemma V2P_KMAP_START: "pa < V2P KMAP_START \<longleftrightarrow> unat pa < 0x30000000" "V2P KMAP_START \<le> pa \<longleftrightarrow> 0x30000000 \<le> unat pa"
  by (simp_all add: V2P_def KMAP_START_def KMEM_KBASE_def word_less_nat_alt word_le_nat_alt)

end
