(* ===== verification/KList.thy ===== *)
theory KList
  imports Prelude
begin

text \<open>
  The intrusive doubly-linked circular list of \<^verbatim>\<open>include/uapi/protura/list.h\<close>, at the level
  of its pointers: a heap holds the \<open>next\<close> and \<open>prev\<close> field of every node, and each inline
  function of the header is the same sequence of field writes. The abstraction \<open>is_list h hd xs\<close> reads
  the ring that starts at the head \<open>hd\<close> as the list \<open>xs\<close> of its entries; every operation is
  shown to implement the corresponding operation on \<open>xs\<close>.
\<close>

section \<open>Nodes and field writes\<close>

record list_heap =
  nxt :: "nat \<Rightarrow> nat"
  prv :: "nat \<Rightarrow> nat"

definition set_next :: "list_heap \<Rightarrow> nat \<Rightarrow> nat \<Rightarrow> list_heap" where
  "set_next h n v = h\<lparr>nxt := (nxt h)(n := v)\<rparr>"

definition set_prev :: "list_heap \<Rightarrow> nat \<Rightarrow> nat \<Rightarrow> list_heap" where
  "set_prev h n v = h\<lparr>prv := (prv h)(n := v)\<rparr>"

lemma set_next_sel [simp]:
  "nxt (set_next h n v) = (nxt h)(n := v)" "prv (set_next h n v) = prv h"
  by (simp_all add: set_next_def)

lemma set_prev_sel [simp]:
  "prv (set_prev h n v) = (prv h)(n := v)" "nxt (set_prev h n v) = nxt h"
  by (simp_all add: set_prev_def)

section \<open>The operations of the header\<close>

definition list_head_init :: "list_heap \<Rightarrow> nat \<Rightarrow> list_heap" where
  "list_head_init h head = set_prev (set_next h head head) head head"

definition u_list_add :: "list_heap \<Rightarrow> nat \<Rightarrow> nat \<Rightarrow> nat \<Rightarrow> list_heap" where
  "u_list_add h new prev next =
     (let h = set_prev h next new;
          h = set_next h new next;
          h = set_prev h new prev
      in set_next h prev new)"

definition list_add :: "list_heap \<Rightarrow> nat \<Rightarrow> nat \<Rightarrow> list_heap" where
  "list_add h head new = u_list_add h new head (nxt h head)"

definition list_add_tail :: "list_heap \<Rightarrow> nat \<Rightarrow> nat \<Rightarrow> list_heap" where
  "list_add_tail h head new = u_list_add h new (prv h head) head"

definition u_list_del :: "list_heap \<Rightarrow> nat \<Rightarrow> nat \<Rightarrow> list_heap" where
  "u_list_del h prev next = set_next (set_prev h next prev) prev next"

definition u_list_del_entry :: "list_heap \<Rightarrow> nat \<Rightarrow> list_heap" where
  "u_list_del_entry h entry = u_list_del h (prv h entry) (nxt h entry)"

definition u_list_splice :: "list_heap \<Rightarrow> nat \<Rightarrow> nat \<Rightarrow> nat \<Rightarrow> list_heap" where
  "u_list_splice h prev next list_to_add =
     (let first = nxt h list_to_add;
          last = prv h list_to_add;
          h = set_prev h first prev;
          h = set_next h prev first;
          h = set_next h last next
      in set_prev h next last)"

definition list_del :: "list_heap \<Rightarrow> nat \<Rightarrow> list_heap" where
  "list_del h entry = list_head_init (u_list_del_entry h entry) entry"

definition list_replace :: "list_heap \<Rightarrow> nat \<Rightarrow> nat \<Rightarrow> list_heap" where
  "list_replace h old new =
     (let h = set_next h new (nxt h old);
          h = set_prev h (nxt h new) new;
          h = set_prev h new (prv h old)
      in set_next h (prv h new) new)"

definition list_replace_init :: "list_heap \<Rightarrow> nat \<Rightarrow> nat \<Rightarrow> list_heap" where
  "list_replace_init h old new = list_head_init (list_replace h old new) old"

definition list_move :: "list_heap \<Rightarrow> nat \<Rightarrow> nat \<Rightarrow> list_heap" where
  "list_move h head entry = list_add (u_list_del_entry h entry) head entry"

definition list_move_tail :: "list_heap \<Rightarrow> nat \<Rightarrow> nat \<Rightarrow> list_heap" where
  "list_move_tail h head entry = list_add_tail (u_list_del_entry h entry) head entry"

definition list_is_last :: "list_heap \<Rightarrow> nat \<Rightarrow> nat \<Rightarrow> bool" where
  "list_is_last h head entry \<longleftrightarrow> nxt h entry = head"

definition list_empty :: "list_heap \<Rightarrow> nat \<Rightarrow> bool" where
  "list_empty h head \<longleftrightarrow> head = nxt h head"

definition list_rotate_left :: "list_heap \<Rightarrow> nat \<Rightarrow> list_heap" where
  "list_rotate_left h head = (if \<not> list_empty h head then list_move_tail h head (nxt h head) else h)"

definition list_rotate_right :: "list_heap \<Rightarrow> nat \<Rightarrow> list_heap" where
  "list_rotate_right h head = (if \<not> list_empty h head then list_move h head (prv h head) else h)"

definition list_splice :: "list_heap \<Rightarrow> nat \<Rightarrow> nat \<Rightarrow> list_heap" where
  "list_splice h head old_list =
     (if \<not> list_empty h old_list then u_list_splice h head (nxt h head) old_list else h)"

definition list_splice_tail :: "list_heap \<Rightarrow> nat \<Rightarrow> nat \<Rightarrow> list_heap" where
  "list_splice_tail h head old_list =
     (if \<not> list_empty h old_list then u_list_splice h (prv h head) head old_list else h)"

definition list_splice_init :: "list_heap \<Rightarrow> nat \<Rightarrow> nat \<Rightarrow> list_heap" where
  "list_splice_init h head old_list =
     (if \<not> list_empty h old_list
      then list_head_init (u_list_splice h head (nxt h head) old_list) old_list else h)"

definition list_splice_tail_init :: "list_heap \<Rightarrow> nat \<Rightarrow> nat \<Rightarrow> list_heap" where
  "list_splice_tail_init h head old_list =
     (if \<not> list_empty h old_list
      then list_head_init (u_list_splice h (prv h head) head old_list) old_list else h)"

definition list_new_first :: "list_heap \<Rightarrow> nat \<Rightarrow> nat \<Rightarrow> list_heap" where
  "list_new_first h head new_first =
     (let last = prv h head;
          first = nxt h head;
          new_last = prv h new_first
      in if first = new_first then h
         else let h = set_next h last first;
                  h = set_prev h first last;
                  h = set_next h new_last head;
                  h = set_prev h new_first head;
                  h = set_prev h head new_last
              in set_next h head new_first)"

definition list_new_last :: "list_heap \<Rightarrow> nat \<Rightarrow> nat \<Rightarrow> list_heap" where
  "list_new_last h head new_last =
     (let last = prv h head;
          first = nxt h head;
          new_first = nxt h new_last
      in if last = new_last then h
         else let h = set_next h last first;
                  h = set_prev h first last;
                  h = set_next h new_last head;
                  h = set_prev h new_first head;
                  h = set_prev h head new_last
              in set_next h head new_first)"

definition u_list_first :: "list_heap \<Rightarrow> nat \<Rightarrow> nat" where
  "u_list_first h head = nxt h head"

definition u_list_last :: "list_heap \<Rightarrow> nat \<Rightarrow> nat" where
  "u_list_last h head = prv h head"

definition u_list_take_first :: "list_heap \<Rightarrow> nat \<Rightarrow> nat \<times> list_heap" where
  "u_list_take_first h head = (let node = u_list_first h head in (node, list_del h node))"

definition u_list_take_last :: "list_heap \<Rightarrow> nat \<Rightarrow> nat \<times> list_heap" where
  "u_list_take_last h head = (let node = u_list_last h head in (node, list_del h node))"

text \<open>
  \<^verbatim>\<open>list_foreach\<close> follows \<open>next\<close> from the head until it meets the head again, and
  \<^verbatim>\<open>list_foreach_take_entry\<close> takes the first entry until the list is empty. Neither need end
  on a damaged ring, so both are bounded by fuel; \<^term>\<open>None\<close> is a walk that did not end.
\<close>

fun list_foreach_from :: "nat \<Rightarrow> list_heap \<Rightarrow> nat \<Rightarrow> nat \<Rightarrow> nat list option" where
  "list_foreach_from 0 h head pos = None"
| "list_foreach_from (Suc fuel) h head pos =
     (if pos = head then Some []
      else map_option ((#) pos) (list_foreach_from fuel h head (nxt h pos)))"

definition list_foreach :: "nat \<Rightarrow> list_heap \<Rightarrow> nat \<Rightarrow> nat list option" where
  "list_foreach fuel h head = list_foreach_from fuel h head (nxt h head)"

fun list_foreach_prev_from :: "nat \<Rightarrow> list_heap \<Rightarrow> nat \<Rightarrow> nat \<Rightarrow> nat list option" where
  "list_foreach_prev_from 0 h head pos = None"
| "list_foreach_prev_from (Suc fuel) h head pos =
     (if pos = head then Some []
      else map_option ((#) pos) (list_foreach_prev_from fuel h head (prv h pos)))"

definition list_foreach_prev :: "nat \<Rightarrow> list_heap \<Rightarrow> nat \<Rightarrow> nat list option" where
  "list_foreach_prev fuel h head = list_foreach_prev_from fuel h head (prv h head)"

fun list_foreach_take_entry :: "nat \<Rightarrow> list_heap \<Rightarrow> nat \<Rightarrow> (nat list \<times> list_heap) option" where
  "list_foreach_take_entry 0 h head = None"
| "list_foreach_take_entry (Suc fuel) h head =
     (if list_empty h head then Some ([], h)
      else let (node, h) = u_list_take_first h head
           in map_option (\<lambda>(ns, h). (node # ns, h)) (list_foreach_take_entry fuel h head))"

section \<open>The abstraction\<close>

text \<open>\<open>linked h x xs y\<close>: from \<open>x\<close> the \<open>next\<close> fields lead through \<open>xs\<close> to \<open>y\<close>, and the
  \<open>prev\<close> fields lead back.\<close>

fun linked :: "list_heap \<Rightarrow> nat \<Rightarrow> nat list \<Rightarrow> nat \<Rightarrow> bool" where
  "linked h x [] y \<longleftrightarrow> nxt h x = y \<and> prv h y = x"
| "linked h x (a # as) y \<longleftrightarrow> nxt h x = a \<and> prv h a = x \<and> linked h a as y"

definition is_list :: "list_heap \<Rightarrow> nat \<Rightarrow> nat list \<Rightarrow> bool" where
  "is_list h head xs \<longleftrightarrow> distinct (head # xs) \<and> linked h head xs head"

lemma linked_append [simp]:
  "linked h x (as @ b # bs) y \<longleftrightarrow> linked h x as b \<and> linked h b bs y"
  by (induction as arbitrary: x) auto

lemma linked_nxt: "linked h x xs y \<Longrightarrow> nxt h x = hd (xs @ [y])"
  by (cases xs) auto

lemma linked_prv: "linked h x xs y \<Longrightarrow> prv h y = last (x # xs)"
  by (induction xs arbitrary: x) auto

lemma linked_cong:
  assumes "\<And>n. n \<in> set (x # xs) \<Longrightarrow> nxt h' n = nxt h n"
    and "\<And>n. n \<in> set (xs @ [y]) \<Longrightarrow> prv h' n = prv h n"
  shows "linked h' x xs y = linked h x xs y"
  using assms by (induction xs arbitrary: x) auto

lemma linked_set_next [klist_simps]:
  "n \<notin> set (x # xs) \<Longrightarrow> linked (set_next h n v) x xs y = linked h x xs y"
  by (rule linked_cong) auto

lemma linked_set_prev [klist_simps]:
  "n \<notin> set (xs @ [y]) \<Longrightarrow> linked (set_prev h n v) x xs y = linked h x xs y"
  by (rule linked_cong) auto

text \<open>
  The ends of a chain: writing \<open>next\<close> of its last node and \<open>prev\<close> of its target redirects the
  chain, writing \<open>next\<close> of its source and \<open>prev\<close> of its first node re-roots it.
\<close>

lemma linked_retarget:
  assumes "linked h x xs y" and "distinct (x # xs)" and "nxt h' (last (x # xs)) = z"
    and "prv h' z = last (x # xs)"
    and "\<And>n. n \<in> set (butlast (x # xs)) \<Longrightarrow> nxt h' n = nxt h n"
    and "\<And>n. n \<in> set xs \<Longrightarrow> prv h' n = prv h n"
  shows "linked h' x xs z"
  using assms by (induction xs arbitrary: x) auto

lemma linked_reroot:
  assumes "linked h x (a # xs) y" and "nxt h' w = a" and "prv h' a = w"
    and "\<And>n. n \<in> set (a # xs) \<Longrightarrow> nxt h' n = nxt h n"
    and "\<And>n. n \<in> set (xs @ [y]) \<Longrightarrow> prv h' n = prv h n"
  shows "linked h' w (a # xs) y"
  using assms linked_cong [of a xs h' h y] by auto

lemma is_list_emptyD: "is_list h head [] \<longleftrightarrow> nxt h head = head \<and> prv h head = head"
  by (auto simp: is_list_def)

lemma is_list_cong:
  assumes "\<And>n. n \<in> set (head # xs) \<Longrightarrow> nxt h' n = nxt h n \<and> prv h' n = prv h n"
  shows "is_list h' head xs = is_list h head xs"
  using assms linked_cong [of head xs h' h head] by (auto simp: is_list_def)

lemma is_list_nxt: "is_list h head xs \<Longrightarrow> nxt h head = hd (xs @ [head])"
  by (simp add: is_list_def linked_nxt)

lemma is_list_prv: "is_list h head xs \<Longrightarrow> prv h head = last (head # xs)"
  unfolding is_list_def using linked_prv by blast

section \<open>The operations implement the list operations\<close>

lemma list_head_init_is_list: "is_list (list_head_init h head) head []"
  by (simp add: is_list_emptyD list_head_init_def)

lemma list_empty_is_list: "is_list h head xs \<Longrightarrow> list_empty h head \<longleftrightarrow> xs = []"
  by (cases xs) (auto simp: list_empty_def is_list_def)

lemma u_list_add_is_list:
  assumes "is_list h head (as @ bs)" and "new \<notin> set (head # as @ bs)"
  shows "is_list (u_list_add h new (last (head # as)) (hd (bs @ [head]))) head (as @ new # bs)"
  using assms
  by (cases as rule: rev_cases; cases bs)
    (auto simp: is_list_def u_list_add_def Let_def klist_simps)

lemma list_add_is_list:
  assumes "is_list h head xs" and "new \<notin> set (head # xs)"
  shows "is_list (list_add h head new) head (new # xs)"
  using u_list_add_is_list [of h head "[]" xs new] assms
  by (simp add: list_add_def is_list_nxt)

lemma list_add_tail_is_list:
  assumes "is_list h head xs" and "new \<notin> set (head # xs)"
  shows "is_list (list_add_tail h head new) head (xs @ [new])"
  using u_list_add_is_list [of h head xs "[]" new] assms
  by (simp add: list_add_tail_def is_list_prv)

lemma is_list_entry_links:
  assumes "is_list h head (as @ e # bs)"
  shows "prv h e = last (head # as)" and "nxt h e = hd (bs @ [head])"
  using assms linked_prv linked_nxt by (force simp: is_list_def)+

lemma u_list_del_entry_is_list:
  assumes "is_list h head (as @ e # bs)"
  shows "is_list (u_list_del_entry h e) head (as @ bs)"
  using assms is_list_entry_links [OF assms]
  by (cases as rule: rev_cases; cases bs)
    (auto simp: is_list_def u_list_del_entry_def u_list_del_def klist_simps)

lemma list_head_init_other:
  "n \<notin> set (head # xs) \<Longrightarrow> is_list (list_head_init h n) head xs = is_list h head xs"
  by (rule is_list_cong) (auto simp: list_head_init_def)

lemma list_del_is_list:
  assumes "is_list h head (as @ e # bs)"
  shows "is_list (list_del h e) head (as @ bs)" and "is_list (list_del h e) e []"
proof -
  have "e \<notin> set (head # as @ bs)"
    using assms by (auto simp: is_list_def)
  then show "is_list (list_del h e) head (as @ bs)"
    using u_list_del_entry_is_list [OF assms] by (simp add: list_del_def list_head_init_other)
  show "is_list (list_del h e) e []"
    by (simp add: list_del_def list_head_init_is_list)
qed

text \<open>Deleting a node that is in no list (it points to itself) leaves it so, as the header intends.\<close>

lemma list_del_single: "is_list h e [] \<Longrightarrow> list_del h e = h"
  by (simp add: is_list_emptyD list_del_def u_list_del_entry_def u_list_del_def list_head_init_def
      set_next_def set_prev_def fun_upd_idem)

lemma list_replace_is_list:
  assumes "is_list h head (as @ e # bs)" and "new \<notin> set (head # as @ e # bs)"
  shows "is_list (list_replace h e new) head (as @ new # bs)"
  using assms is_list_entry_links [OF assms(1)]
  by (cases as rule: rev_cases; cases bs)
    (auto simp: is_list_def list_replace_def Let_def klist_simps)

lemma list_replace_init_is_list:
  assumes "is_list h head (as @ e # bs)" and "new \<notin> set (head # as @ e # bs)"
  shows "is_list (list_replace_init h e new) head (as @ new # bs)"
    and "is_list (list_replace_init h e new) e []"
proof -
  have "e \<notin> set (head # as @ new # bs)"
    using assms by (auto simp: is_list_def)
  then show "is_list (list_replace_init h e new) head (as @ new # bs)"
    using list_replace_is_list [OF assms] by (simp add: list_replace_init_def list_head_init_other)
  show "is_list (list_replace_init h e new) e []"
    by (simp add: list_replace_init_def list_head_init_is_list)
qed

lemma is_list_entry_notin:
  "is_list h head (as @ e # bs) \<Longrightarrow> e \<notin> set (head # as @ bs)"
  by (auto simp: is_list_def)

lemma list_move_is_list:
  assumes "is_list h head (as @ e # bs)"
  shows "is_list (list_move h head e) head (e # as @ bs)"
  unfolding list_move_def
  by (intro list_add_is_list u_list_del_entry_is_list assms is_list_entry_notin [OF assms])

lemma list_move_tail_is_list:
  assumes "is_list h head (as @ e # bs)"
  shows "is_list (list_move_tail h head e) head (as @ bs @ [e])"
  using list_add_tail_is_list [OF u_list_del_entry_is_list [OF assms] is_list_entry_notin [OF assms]]
  by (simp add: list_move_tail_def)

lemma list_rotate_left_is_list:
  assumes "is_list h head xs"
  shows "is_list (list_rotate_left h head) head (rotate1 xs)"
proof (cases xs)
  case Nil
  with assms show ?thesis
    by (simp add: list_rotate_left_def list_empty_is_list)
next
  case (Cons a as)
  with assms show ?thesis
    using list_move_tail_is_list [of h head "[]" a as] is_list_nxt [OF assms]
    by (simp add: list_rotate_left_def list_empty_is_list)
qed

lemma list_rotate_right_is_list:
  assumes "is_list h head (xs @ [a])"
  shows "is_list (list_rotate_right h head) head (a # xs)"
  using list_move_is_list [of h head xs a "[]"] assms is_list_prv [OF assms]
  by (simp add: list_rotate_right_def list_empty_is_list)

subsection \<open>Splicing and re-rooting\<close>

lemma u_list_splice_is_list:
  assumes "is_list h head (as @ bs)" and "is_list h old xs" and "xs \<noteq> []"
    and "set (head # as @ bs) \<inter> set (old # xs) = {}"
  shows "is_list (u_list_splice h (last (head # as)) (hd (bs @ [head])) old) head (as @ xs @ bs)"
proof -
  obtain f ms where xs: "xs = f # ms"
    using assms(3) by (cases xs) auto
  let ?h = "u_list_splice h (last (head # as)) (hd (bs @ [head])) old"
  have f: "nxt h old = f" and l: "prv h old = last (f # ms)"
    using assms(2) is_list_prv [OF assms(2)] by (auto simp: xs is_list_def)
  have lk: "linked h old (f # ms) old"
    using assms(2) by (simp add: xs is_list_def)
  have dis: "distinct (head # as @ bs)" "distinct (f # ms)"
    "set (head # as @ bs) \<inter> set (f # ms) = {}"
    using assms by (auto simp: is_list_def xs)
  have lmem: "last (f # ms) \<in> set (f # ms)"
    by (rule last_in_set) simp
  have mid: "linked ?h (last (head # as)) (f # ms) (hd (bs @ [head]))"
    using assms lk dis lmem
    by (cases as rule: rev_cases; cases bs; cases ms rule: rev_cases)
      (auto simp: u_list_splice_def Let_def f l is_list_def xs klist_simps)
  have "linked ?h head (as @ (f # ms) @ bs) head"
    using assms(1) mid dis
    by (cases as rule: rev_cases; cases bs; cases ms rule: rev_cases)
      (auto simp: u_list_splice_def Let_def f l is_list_def klist_simps)
  then show ?thesis
    using dis by (auto simp: is_list_def xs)
qed

lemma list_splice_is_list:
  assumes "is_list h head ys" and "is_list h old xs" and "set (head # ys) \<inter> set (old # xs) = {}"
  shows "is_list (list_splice h head old) head (xs @ ys)"
    and "is_list (list_splice_tail h head old) head (ys @ xs)"
  using u_list_splice_is_list [of h head "[]" ys old xs] u_list_splice_is_list [of h head ys "[]" old xs]
    assms is_list_nxt [OF assms(1)] is_list_prv [OF assms(1)]
  by (cases "xs = []"; simp add: list_splice_def list_splice_tail_def list_empty_is_list [OF assms(2)])+

lemma list_splice_init_is_list:
  assumes "is_list h head ys" and "is_list h old xs" and "set (head # ys) \<inter> set (old # xs) = {}"
  shows "is_list (list_splice_init h head old) head (xs @ ys)" (is ?A)
    and "is_list (list_splice_tail_init h head old) head (ys @ xs)" (is ?B)
    and "is_list (list_splice_init h head old) old []" (is ?C)
    and "is_list (list_splice_tail_init h head old) old []" (is ?D)
proof -
  have out: "old \<notin> set (head # xs @ ys)" "old \<notin> set (head # ys @ xs)"
    using assms by (auto simp: is_list_def)
  note e = list_empty_is_list [OF assms(2)]
  note sp = list_splice_is_list [OF assms]
  show ?A
    using sp(1) out(1) assms by (simp add: list_splice_def list_splice_init_def e list_head_init_other
        split: if_splits)
  show ?B
    using sp(2) out(2) assms by (simp add: list_splice_tail_def list_splice_tail_init_def e
        list_head_init_other split: if_splits)
  show ?C ?D
    using assms(2) e
    by (auto simp: list_splice_init_def list_splice_tail_init_def list_head_init_is_list)
qed

text \<open>
  Re-rooting swaps two runs of a ring: the writes of \<^verbatim>\<open>list_new_first\<close> and \<^verbatim>\<open>list_new_last\<close>
  are the same four links, given here for the two runs \<open>as\<close> and \<open>bs\<close>.
\<close>

lemma swap_runs_is_list:
  assumes lst: "is_list h head ((a # as) @ (b # bs))"
    and nx: "nxt h' = (nxt h)(last (b # bs) := a, last (a # as) := head, head := b)"
    and pr: "prv h' = (prv h)(a := last (b # bs), b := head, head := last (a # as))"
  shows "is_list h' head ((b # bs) @ (a # as))"
proof -
  have dis: "distinct (head # (a # as) @ (b # bs))" and la: "linked h a as b" and lb: "linked h b bs head"
    using lst by (auto simp: is_list_def)
  have ma: "last (a # as) \<in> set (a # as)" and mb: "last (b # bs) \<in> set (b # bs)"
    by (rule last_in_set, simp)+
  have sa: "last (a # as) \<notin> set (butlast (a # as))" and sb: "last (b # bs) \<notin> set (butlast (b # bs))"
    using dis by (metis append_butlast_last_id distinct.simps(2) distinct_append list.distinct(1)
        not_distinct_conv_prefix)+
  have xa: "last (a # as) \<notin> set (b # bs)" and xb: "last (b # bs) \<notin> set (a # as)"
    using dis ma mb by auto
  have ra: "n \<noteq> last (a # as) \<and> n \<noteq> last (b # bs) \<and> n \<noteq> head" if "n \<in> set (butlast (a # as))" for n
    using in_set_butlastD [OF that] that sa xb dis by auto
  have rb: "n \<noteq> last (a # as) \<and> n \<noteq> last (b # bs) \<and> n \<noteq> head" if "n \<in> set (butlast (b # bs))" for n
    using in_set_butlastD [OF that] that sb xa dis by auto
  have "linked h' b bs a"
    by (rule linked_retarget [OF lb]) (use dis ma mb xa rb in \<open>auto simp: nx pr\<close>)
  moreover have "linked h' a as head"
    by (rule linked_retarget [OF la]) (use dis ma mb ra in \<open>auto simp: nx pr\<close>)
  ultimately show ?thesis
    using dis by (auto simp: is_list_def nx pr)
qed

lemma list_new_first_is_list:
  assumes "is_list h head (as @ n # bs)"
  shows "is_list (list_new_first h head n) head (n # bs @ as)"
proof (cases as)
  case Nil
  with assms show ?thesis
    by (simp add: list_new_first_def Let_def is_list_nxt)
next
  case (Cons a as')
  have ne: "a \<noteq> n" and p: "prv h head = last (n # bs)" "nxt h head = a" "prv h n = last (a # as')"
    using assms is_list_prv [OF assms] is_list_nxt [OF assms] is_list_entry_links [OF assms]
    by (auto simp: Cons is_list_def)
  show ?thesis
    using swap_runs_is_list [of h head a as' n bs "list_new_first h head n"] assms ne
    by (simp add: Cons list_new_first_def Let_def p)
qed

lemma list_new_last_is_list:
  assumes "is_list h head (as @ n # bs)"
  shows "is_list (list_new_last h head n) head (bs @ as @ [n])"
proof (cases bs)
  case Nil
  with assms show ?thesis
    by (simp add: list_new_last_def Let_def is_list_prv)
next
  case (Cons b bs')
  obtain a as' where as: "as @ [n] = a # as'" and n: "last (a # as') = n"
    by (cases as) auto
  have lst: "is_list h head ((a # as') @ b # bs')"
    using assms by (simp add: Cons flip: as)
  have p: "prv h head = last (b # bs')" "nxt h head = a" "nxt h n = b"
    using is_list_prv [OF lst] is_list_nxt [OF lst] is_list_entry_links(2) [OF assms] by (auto simp: Cons)
  have ne: "last (b # bs') \<noteq> n"
    using assms last_in_set [of "b # bs'"] by (auto simp: Cons is_list_def)
  show ?thesis
    using swap_runs_is_list [OF lst, of "list_new_last h head n"] ne as n
    by (simp add: Cons list_new_last_def Let_def p)
qed

subsection \<open>Taking and walking\<close>

lemma u_list_take_first_is_list:
  assumes "is_list h head (a # xs)"
  shows "fst (u_list_take_first h head) = a"
    and "is_list (snd (u_list_take_first h head)) head xs"
    and "is_list (snd (u_list_take_first h head)) a []"
  using list_del_is_list [of h head "[]" a xs] assms is_list_nxt [OF assms]
  by (simp_all add: u_list_take_first_def u_list_first_def Let_def)

lemma u_list_take_last_is_list:
  assumes "is_list h head (xs @ [a])"
  shows "fst (u_list_take_last h head) = a"
    and "is_list (snd (u_list_take_last h head)) head xs"
    and "is_list (snd (u_list_take_last h head)) a []"
  using list_del_is_list [of h head xs a "[]"] assms is_list_prv [OF assms]
  by (simp_all add: u_list_take_last_def u_list_last_def Let_def)

lemma list_foreach_from_linked:
  "linked h x xs head \<Longrightarrow> head \<notin> set xs \<Longrightarrow> length xs < fuel \<Longrightarrow>
   list_foreach_from fuel h head (nxt h x) = Some xs"
proof (induction xs arbitrary: x fuel)
  case Nil
  then show ?case by (cases fuel) auto
next
  case (Cons a xs)
  then show ?case by (cases fuel) auto
qed

lemma list_foreach_is_list:
  "is_list h head xs \<Longrightarrow> length xs < fuel \<Longrightarrow> list_foreach fuel h head = Some xs"
  by (simp add: list_foreach_def is_list_def list_foreach_from_linked)

lemma list_foreach_prev_from_linked:
  "linked h head xs y \<Longrightarrow> head \<notin> set xs \<Longrightarrow> length xs < fuel \<Longrightarrow>
   list_foreach_prev_from fuel h head (prv h y) = Some (rev xs)"
proof (induction xs arbitrary: y fuel rule: rev_induct)
  case Nil
  then show ?case by (cases fuel) auto
next
  case (snoc a xs)
  then show ?case by (cases fuel) auto
qed

lemma list_foreach_prev_is_list:
  "is_list h head xs \<Longrightarrow> length xs < fuel \<Longrightarrow> list_foreach_prev fuel h head = Some (rev xs)"
  by (simp add: list_foreach_prev_def is_list_def list_foreach_prev_from_linked)

lemma list_foreach_take_entry_is_list:
  "is_list h head xs \<Longrightarrow> length xs < fuel \<Longrightarrow>
   \<exists>h'. list_foreach_take_entry fuel h head = Some (xs, h') \<and> is_list h' head []"
proof (induction xs arbitrary: h fuel)
  case Nil
  then show ?case by (cases fuel) (auto simp: list_empty_is_list)
next
  case (Cons a xs)
  then obtain f where f: "fuel = Suc f" by (cases fuel) auto
  let ?h = "snd (u_list_take_first h head)"
  obtain h' where "list_foreach_take_entry f ?h head = Some (xs, h')" and "is_list h' head []"
    using Cons.IH [of ?h f] Cons.prems u_list_take_first_is_list(2) f by auto
  moreover have "fst (u_list_take_first h head) = a"
    using Cons.prems by (simp add: u_list_take_first_is_list)
  ultimately show ?case
    using Cons.prems by (auto simp: f list_empty_is_list split: prod.split)
qed

section \<open>The queue interface\<close>

text \<open>
  What the kernel's queues (wait queues, work queues, packet queues, buffers) use of the lists: entries
  join at the tail and leave at the front. \<open>rep\<close> relates a heap to the entries on the queue.
\<close>

locale node_queue =
  fixes rep :: "'h \<Rightarrow> 'n list \<Rightarrow> bool"
    and node :: "'n \<Rightarrow> bool"
    and push :: "'h \<Rightarrow> 'n \<Rightarrow> 'h"
    and is_empty :: "'h \<Rightarrow> bool"
    and take_first :: "'h \<Rightarrow> 'n \<times> 'h"
  assumes push: "rep h xs \<Longrightarrow> node n \<Longrightarrow> n \<notin> set xs \<Longrightarrow> rep (push h n) (xs @ [n])"
    and is_empty: "rep h xs \<Longrightarrow> is_empty h \<longleftrightarrow> xs = []"
    and take_first: "rep h (n # xs) \<Longrightarrow> fst (take_first h) = n \<and> rep (snd (take_first h)) xs"
begin

fun drain :: "nat \<Rightarrow> 'h \<Rightarrow> 'n list \<times> 'h" where
  "drain 0 h = ([], h)"
| "drain (Suc k) h =
     (if is_empty h then ([], h)
      else let (n, h) = take_first h; (ns, h) = drain k h in (n # ns, h))"

lemma push_all:
  "rep h xs \<Longrightarrow> distinct (xs @ ns) \<Longrightarrow> list_all node ns \<Longrightarrow> rep (foldl push h ns) (xs @ ns)"
proof (induction ns arbitrary: h xs)
  case (Cons n ns)
  then have "rep (push h n) (xs @ [n])" by (intro push) auto
  with Cons.IH [of "push h n" "xs @ [n]"] Cons.prems show ?case by simp
qed simp

lemma drain_all:
  "rep h xs \<Longrightarrow> length xs \<le> k \<Longrightarrow> fst (drain k h) = xs \<and> rep (snd (drain k h)) []"
proof (induction k arbitrary: h xs)
  case (Suc k)
  show ?case
  proof (cases xs)
    case (Cons n ns)
    with Suc.prems take_first [of h n ns] Suc.IH [of "snd (take_first h)" ns] is_empty [of h xs]
    show ?thesis by (simp add: case_prod_beta)
  qed (use Suc.prems is_empty in auto)
qed simp

lemma fifo:
  assumes "rep h []" and "distinct ns" and "list_all node ns" and "length ns \<le> k"
  shows "fst (drain k (foldl push h ns)) = ns"
  using drain_all [of "foldl push h ns" ns k] push_all [of h "[]" ns] assms by simp

end

interpretation kq: node_queue "\<lambda>h. is_list h head" "\<lambda>n. n \<noteq> head" "\<lambda>h. list_add_tail h head"
  "\<lambda>h. list_empty h head" "\<lambda>h. u_list_take_first h head" for head
proof
  show "is_list (list_add_tail h head n) head (xs @ [n])" if "is_list h head xs" "n \<noteq> head" "n \<notin> set xs" for h xs n
    using that by (simp add: list_add_tail_is_list)
  show "list_empty h head \<longleftrightarrow> xs = []" if "is_list h head xs" for h xs
    using that by (rule list_empty_is_list)
  show "fst (u_list_take_first h head) = n \<and> is_list (snd (u_list_take_first h head)) head xs"
    if "is_list h head (n # xs)" for h n xs
    using u_list_take_first_is_list [OF that] by simp
qed

section \<open>Properties of the intrusive lists\<close>

text \<open>
  C34. On a well-formed list every single-entry operation of \<^verbatim>\<open>list.h\<close> rewires the pointers so that the
  list it represents is the intended one: deletion (which leaves the entry a list of its own), replacement,
  moving an entry to either end and rotating the list until an entry is first or last.
\<close>

theorem list_entry_ops_refine:
  assumes "is_list h head (as @ e # bs)"
  shows "is_list (list_del h e) head (as @ bs) \<and> is_list (list_del h e) e [] \<and>
    (\<forall>new. new \<notin> set (head # as @ e # bs) \<longrightarrow>
      is_list (list_replace_init h e new) head (as @ new # bs) \<and> is_list (list_replace_init h e new) e []) \<and>
    is_list (list_move h head e) head (e # as @ bs) \<and>
    is_list (list_move_tail h head e) head (as @ bs @ [e]) \<and>
    is_list (list_new_first h head e) head (e # bs @ as) \<and>
    is_list (list_new_last h head e) head (bs @ as @ [e])"
  using list_del_is_list [OF assms] list_replace_init_is_list [OF assms] list_move_is_list [OF assms]
    list_move_tail_is_list [OF assms] list_new_first_is_list [OF assms] list_new_last_is_list [OF assms]
  by blast

definition example_heap :: list_heap where
  "example_heap = list_add_tail (list_add_tail (list_head_init \<lparr>nxt = (\<lambda>_. 0), prv = (\<lambda>_. 0)\<rparr> 0) 0 1) 0 2"

lemma example_heap_list: "is_list example_heap 0 [1, 2]"
  using list_add_tail_is_list [OF list_add_tail_is_list [OF list_head_init_is_list], of 1 0 2]
  by (simp add: example_heap_def)

theorem list_entry_ops_refine_witness:
  "is_list example_heap 0 ([1] @ 2 # []) \<and> is_list (list_del example_heap 2) 0 [1] \<and>
   is_list (list_new_first example_heap 0 2) 0 [2, 1]"
  using list_entry_ops_refine [of example_heap 0 "[1]" 2 "[]"] example_heap_list by simp

text \<open>
  Splicing moves all entries of one list in front of or behind the entries of another, in their
  order, in a constant number of pointer writes; the \<^verbatim>\<open>_init\<close> forms leave the source empty.
\<close>

theorem list_splice_refines:
  assumes "is_list h head ys" and "is_list h old xs" and "set (head # ys) \<inter> set (old # xs) = {}"
  shows "is_list (list_splice h head old) head (xs @ ys) \<and>
    is_list (list_splice_tail h head old) head (ys @ xs) \<and>
    is_list (list_splice_init h head old) head (xs @ ys) \<and> is_list (list_splice_init h head old) old [] \<and>
    is_list (list_splice_tail_init h head old) head (ys @ xs) \<and> is_list (list_splice_tail_init h head old) old []"
  using list_splice_is_list [OF assms] list_splice_init_is_list [OF assms] by blast

theorem list_splice_refines_witness:
  "is_list (list_splice_tail_init (list_head_init example_heap 5) 5 0) 5 [1, 2]"
proof -
  have "is_list (list_head_init example_heap 5) 0 [1, 2]"
    using example_heap_list by (simp add: list_head_init_other)
  from list_splice_refines [OF list_head_init_is_list this] show ?thesis by simp
qed

text \<open>
  Entries appended with \<^verbatim>\<open>list_add_tail\<close> and removed by \<^verbatim>\<open>list_foreach_take_entry\<close> come out in the
  order in which they were appended, the list is empty afterwards, and the loop ends after one
  round per entry.
\<close>

theorem list_fifo:
  assumes "distinct (head # ns)" and "length ns < fuel"
  shows "\<exists>h'. list_foreach_take_entry fuel (foldl (\<lambda>h n. list_add_tail h head n) (list_head_init h head) ns) head =
      Some (ns, h') \<and> is_list h' head []"
proof -
  have "is_list (foldl (\<lambda>h n. list_add_tail h head n) (list_head_init h head) ns) head ([] @ ns)"
    using assms(1) list_head_init_is_list by (intro kq.push_all) (auto simp: list_all_iff)
  then show ?thesis
    using list_foreach_take_entry_is_list [OF _ assms(2)] by simp
qed

theorem list_fifo_witness:
  "\<exists>h'. list_foreach_take_entry 4 (foldl (\<lambda>h n. list_add_tail h 0 n) (list_head_init example_heap 0) [3, 1, 2]) 0 =
     Some ([3, 1, 2], h') \<and> is_list h' 0 []"
  using list_fifo [of 0 "[3, 1, 2]" 4 example_heap] by simp

end
