(* ===== verification/Palloc.thy ===== *)
theory Palloc
  imports Prelude
begin

text \<open>
  The buddy allocator for physical pages: \<^verbatim>\<open>src/mm/palloc.c\<close> and
  \<^verbatim>\<open>include/protura/mm/palloc.h\<close>. The page array is a list indexed by page number, each free
  list is the list of the page numbers on it (theory \<open>KList\<close> shows that the intrusive lists
  behave so: \<^verbatim>\<open>list_add\<close> conses, \<^verbatim>\<open>list_take_last\<close> removes the last entry, \<^verbatim>\<open>list_del\<close> removes
  the entry). An access outside of the page array or of the six free lists, a null dereference and a
  panic are \<^term>\<open>None\<close>.
\<close>

section \<open>State\<close>

record page =
  use_count :: int
  page_number :: nat
  pg_order :: int
  startb :: nat
  lenb :: nat
  pg_flags :: u32
  pg_virt :: u32

record page_buddy_map =
  free_list :: "nat list"
  free_count :: int
  wait_for_free :: "nat list"

record page_buddy_alloc =
  pages :: "page list"
  page_count :: nat
  maps :: "page_buddy_map list"
  map_count :: nat
  free_pages :: int

text \<open>The kernel image, from the linker symbols \<^verbatim>\<open>kern_start\<close> and \<^verbatim>\<open>kern_end\<close>.\<close>

record kern_image =
  kern_start :: u32
  kern_end :: u32

abbreviation (input) PALLOC_MAPS :: nat where
  "PALLOC_MAPS \<equiv> 6"

abbreviation (input) PG_INVALID :: nat where
  "PG_INVALID \<equiv> 31"

abbreviation (input) PAL_NOWAIT :: nat where
  "PAL_NOWAIT \<equiv> 0"

definition PAL_ATOMIC :: u32 where
  "PAL_ATOMIC = 1"

definition PAL_KERNEL :: u32 where
  "PAL_KERNEL = 0"

section \<open>Pointers into the page array and the free lists\<close>

definition page_from_pn :: "page_buddy_alloc \<Rightarrow> nat \<Rightarrow> page option" where
  "page_from_pn a pn = (if pn < length (pages a) then Some (pages a ! pn) else None)"

definition page_upd :: "page_buddy_alloc \<Rightarrow> nat \<Rightarrow> (page \<Rightarrow> page) \<Rightarrow> page_buddy_alloc" where
  "page_upd a pn f = a\<lparr>pages := (pages a)[pn := f (pages a ! pn)]\<rparr>"

definition set_order :: "page_buddy_alloc \<Rightarrow> nat \<Rightarrow> int \<Rightarrow> page_buddy_alloc" where
  "set_order a pn k = page_upd a pn (\<lambda>p. p\<lparr>pg_order := k\<rparr>)"

definition atomic_add :: "page_buddy_alloc \<Rightarrow> nat \<Rightarrow> int \<Rightarrow> page_buddy_alloc" where
  "atomic_add a pn i = page_upd a pn (\<lambda>p. p\<lparr>use_count := use_count p + i\<rparr>)"

definition map_upd :: "page_buddy_alloc \<Rightarrow> nat \<Rightarrow> (page_buddy_map \<Rightarrow> page_buddy_map) \<Rightarrow> page_buddy_alloc" where
  "map_upd a k f = a\<lparr>maps := (maps a)[k := f (maps a ! k)]\<rparr>"

text \<open>\<^verbatim>\<open>list_add\<close> to a free list and \<^verbatim>\<open>free_count++\<close>; \<^verbatim>\<open>list_del\<close> and \<^verbatim>\<open>free_count--\<close>.\<close>

definition map_push :: "page_buddy_alloc \<Rightarrow> nat \<Rightarrow> nat \<Rightarrow> page_buddy_alloc" where
  "map_push a k pn = map_upd a k (\<lambda>m. m\<lparr>free_list := pn # free_list m, free_count := free_count m + 1\<rparr>)"

definition map_del :: "page_buddy_alloc \<Rightarrow> nat \<Rightarrow> nat \<Rightarrow> page_buddy_alloc" where
  "map_del a k pn = map_upd a k (\<lambda>m. m\<lparr>free_list := remove1 pn (free_list m), free_count := free_count m - 1\<rparr>)"

section \<open>Freeing\<close>

definition get_buddy_pn :: "nat \<Rightarrow> nat \<Rightarrow> nat" where
  "get_buddy_pn pn order = pn XOR push_bit order 1"

text \<open>The \<^verbatim>\<open>while\<close> loop of \<^verbatim>\<open>__pfree_add_pages\<close>: merge with the buddy while it is free.\<close>

function u_pfree_merge :: "page_buddy_alloc \<Rightarrow> nat \<Rightarrow> nat \<Rightarrow> (page_buddy_alloc \<times> nat \<times> nat) option" where
  "u_pfree_merge a cur_page order =
     (if order < PALLOC_MAPS - 1
      then case page_from_pn a (get_buddy_pn cur_page order) of
             None \<Rightarrow> None
           | Some buddy \<Rightarrow>
               if pg_order buddy \<noteq> int order \<or> bit (pg_flags buddy) PG_INVALID
               then Some (a, cur_page, order)
               else let a = map_del a order (get_buddy_pn cur_page order);
                        cur_page = unset_bit order cur_page;
                        a = set_order a (get_buddy_pn cur_page order) (-1)
                    in u_pfree_merge a cur_page (order + 1)
      else Some (a, cur_page, order))"
  by pat_completeness auto
termination
  by (relation "measure (\<lambda>(a, cur, order). PALLOC_MAPS - 1 - order)") auto

declare u_pfree_merge.simps [simp del]

definition u_pfree_add_pages :: "page_buddy_alloc \<Rightarrow> nat \<Rightarrow> nat \<Rightarrow> page_buddy_alloc option" where
  "u_pfree_add_pages a cur_page order =
     (case u_pfree_merge a cur_page order of
        None \<Rightarrow> None
      | Some (a, cur, k) \<Rightarrow>
          if cur < length (pages a) \<and> k < length (maps a)
          then let a = set_order a cur (int k);
                   a = map_push a k cur
               in Some (a\<lparr>free_pages := free_pages a + 2 ^ order\<rparr>)
          else None)"

definition in_kernel :: "kern_image \<Rightarrow> u32 \<Rightarrow> bool" where
  "in_kernel ki pa \<longleftrightarrow> V2P (kern_start ki) \<le> pa \<and> pa < V2P (kern_end ki)"

definition page_to_pa :: "page \<Rightarrow> u32" where
  "page_to_pa p = PN_TO_PA (of_nat (page_number p))"

definition u_mark_page_free :: "kern_image \<Rightarrow> page_buddy_alloc \<Rightarrow> u32 \<Rightarrow> page_buddy_alloc option" where
  "u_mark_page_free ki a pa =
     (if in_kernel ki pa then Some a else u_pfree_add_pages a (unat (PA_TO_PN pa)) 0)"

text \<open>\<^verbatim>\<open>wait_queue_wake\<close> removes every waiter from the queue and schedules it.\<close>

fun wake_maps :: "page_buddy_alloc \<Rightarrow> nat \<Rightarrow> page_buddy_alloc" where
  "wake_maps a 0 = map_upd a 0 (\<lambda>m. m\<lparr>wait_for_free := []\<rparr>)"
| "wake_maps a (Suc i) = map_upd (wake_maps a i) (Suc i) (\<lambda>m. m\<lparr>wait_for_free := []\<rparr>)"

definition pfree :: "kern_image \<Rightarrow> page_buddy_alloc \<Rightarrow> nat option \<Rightarrow> nat \<Rightarrow> page_buddy_alloc option" where
  "pfree ki a po order =
     (case po of
        None \<Rightarrow> Some a
      | Some pn \<Rightarrow>
          (case page_from_pn a pn of
             None \<Rightarrow> None
           | Some p \<Rightarrow>
               if in_kernel ki (page_to_pa p) then Some a
               else let a = atomic_add a pn (- 1)
                    in if use_count p - 1 \<noteq> 0 then Some a
                       else map_option (\<lambda>a. wake_maps a order)
                              (u_pfree_add_pages a (page_number p) order)))"

fun pfree_unordered :: "kern_image \<Rightarrow> page_buddy_alloc \<Rightarrow> nat list \<Rightarrow> page_buddy_alloc option" where
  "pfree_unordered ki a [] = Some a"
| "pfree_unordered ki a (p # ps) =
     (case pfree ki a (Some p) 0 of None \<Rightarrow> None | Some a \<Rightarrow> pfree_unordered ki a ps)"

section \<open>Allocating\<close>

text \<open>
  The tail of \<^verbatim>\<open>break_page\<close>: take the last block of the order, split it and put both halves on
  the next lower list. Order 0 would index the lists at -1.
\<close>

definition break_split :: "page_buddy_alloc \<Rightarrow> nat \<Rightarrow> page_buddy_alloc option" where
  "break_split a order =
     (if free_list (maps a ! order) = [] \<or> order = 0 then None
      else let p = last (free_list (maps a ! order));
               a = map_upd a order (\<lambda>m. m\<lparr>free_list := butlast (free_list m), free_count := free_count m - 1\<rparr>);
               order = order - 1
           in case page_from_pn a p of
                None \<Rightarrow> None
              | Some pg \<Rightarrow>
                  let buddy = get_buddy_pn (page_number pg) order
                  in if buddy < length (pages a)
                     then let a = set_order a p (int order);
                              a = set_order a buddy (int order);
                              a = map_push a order p
                          in Some (map_push a order buddy)
                     else None)"

function break_page :: "page_buddy_alloc \<Rightarrow> nat \<Rightarrow> page_buddy_alloc option" where
  "break_page a order =
     (if order \<ge> PALLOC_MAPS then Some a
      else if free_count (maps a ! order) = 0
           then case break_page a (order + 1) of
                  None \<Rightarrow> None
                | Some a \<Rightarrow> if free_count (maps a ! order) = 0 then Some a else break_split a order
           else break_split a order)"
  by pat_completeness auto
termination
  by (relation "measure (\<lambda>(a, order). PALLOC_MAPS - order)") auto

declare break_page.simps [simp del]

text \<open>
  \<^verbatim>\<open>__palloc_sleep_for_enough_pages\<close>. The out-of-memory routines of the caches are a parameter;
  they run first when pages are short. The wait then continues at once when the count suffices, and
  otherwise the calling task \<open>me\<close> is registered on the queue of the order and sleeps, to run
  this test again once it is woken.
\<close>

definition u_palloc_sleep_for_enough_pages ::
  "(page_buddy_alloc \<Rightarrow> page_buddy_alloc) \<Rightarrow> nat \<Rightarrow> page_buddy_alloc \<Rightarrow> nat \<Rightarrow> bool \<times> page_buddy_alloc" where
  "u_palloc_sleep_for_enough_pages oom me a order =
     (let a = (if free_pages a < 2 ^ order then oom a else a)
      in if free_pages a \<ge> 2 ^ order then (True, a)
         else (False, map_upd a order (\<lambda>m. m\<lparr>wait_for_free := wait_for_free m @ [me]\<rparr>)))"

datatype palloc_result = Sleeping | NoPage | Page nat

text \<open>The rest of \<^verbatim>\<open>__palloc_phys_multiple\<close>, after the wait.\<close>

definition palloc_take :: "page_buddy_alloc \<Rightarrow> nat \<Rightarrow> (palloc_result \<times> page_buddy_alloc) option" where
  "palloc_take a order =
     (if \<not> order < length (maps a) then None
      else case (if free_count (maps a ! order) = 0 then break_page a (order + 1) else Some a) of
        None \<Rightarrow> None
      | Some a \<Rightarrow>
          if free_count (maps a ! order) = 0 then Some (NoPage, a)
          else if free_list (maps a ! order) = [] then None
          else let p = last (free_list (maps a ! order));
                   a = map_upd a order (\<lambda>m. m\<lparr>free_list := butlast (free_list m), free_count := free_count m - 1\<rparr>)
               in case page_from_pn a p of
                    None \<Rightarrow> None
                  | Some pg \<Rightarrow>
                      if page_number pg \<noteq> p then None
                      else let a = set_order a p (-1);
                               a = a\<lparr>free_pages := free_pages a - 2 ^ order\<rparr>;
                               a = atomic_add a p 1
                           in Some (Page p, a))"

definition u_palloc_phys_multiple ::
  "(page_buddy_alloc \<Rightarrow> page_buddy_alloc) \<Rightarrow> nat \<Rightarrow> page_buddy_alloc \<Rightarrow> nat \<Rightarrow> u32 \<Rightarrow>
   (palloc_result \<times> page_buddy_alloc) option" where
  "u_palloc_phys_multiple oom me a order flags =
     (if bit flags PAL_NOWAIT then palloc_take a order
      else if \<not> order < length (maps a) then None
      else case u_palloc_sleep_for_enough_pages oom me a order of
             (True, a) \<Rightarrow> palloc_take a order
           | (False, a) \<Rightarrow> Some (Sleeping, a))"

text \<open>
  \<^verbatim>\<open>palloc\<close> computes \<^verbatim>\<open>page_to_pa(p)\<close> for its sanity check before it looks whether \<open>p\<close> is null.
  The check itself only logs.
\<close>

definition palloc ::
  "(page_buddy_alloc \<Rightarrow> page_buddy_alloc) \<Rightarrow> nat \<Rightarrow> page_buddy_alloc \<Rightarrow> nat \<Rightarrow> u32 \<Rightarrow>
   (palloc_result \<times> page_buddy_alloc) option" where
  "palloc oom me a order flags =
     (case u_palloc_phys_multiple oom me a order flags of
        Some (NoPage, a) \<Rightarrow> None
      | r \<Rightarrow> r)"

definition palloc_va ::
  "(page_buddy_alloc \<Rightarrow> page_buddy_alloc) \<Rightarrow> nat \<Rightarrow> page_buddy_alloc \<Rightarrow> nat \<Rightarrow> u32 \<Rightarrow>
   (u32 \<times> page_buddy_alloc) option" where
  "palloc_va oom me a order flags =
     (case palloc oom me a order flags of
        Some (Page pn, a) \<Rightarrow> Some (pg_virt (pages a ! pn), a)
      | Some (NoPage, a) \<Rightarrow> Some (0, a)
      | _ \<Rightarrow> None)"

definition palloc_pa ::
  "(page_buddy_alloc \<Rightarrow> page_buddy_alloc) \<Rightarrow> nat \<Rightarrow> page_buddy_alloc \<Rightarrow> nat \<Rightarrow> u32 \<Rightarrow>
   (u32 \<times> page_buddy_alloc) option" where
  "palloc_pa oom me a order flags =
     (case palloc oom me a order flags of
        Some (Page pn, a) \<Rightarrow> Some (page_to_pa (pages a ! pn), a)
      | Some (NoPage, a) \<Rightarrow> Some (0, a)
      | _ \<Rightarrow> None)"

definition page_from_pa :: "u32 \<Rightarrow> nat" where
  "page_from_pa pa = unat (PA_TO_PN pa)"

definition pfree_pa :: "kern_image \<Rightarrow> page_buddy_alloc \<Rightarrow> u32 \<Rightarrow> nat \<Rightarrow> page_buddy_alloc option" where
  "pfree_pa ki a pa order = pfree ki a (Some (page_from_pa pa)) order"

definition pfree_va :: "kern_image \<Rightarrow> page_buddy_alloc \<Rightarrow> u32 \<Rightarrow> nat \<Rightarrow> page_buddy_alloc option" where
  "pfree_va ki a va order = pfree_pa ki a (V2P va) order"

text \<open>
  \<^verbatim>\<open>palloc_unordered\<close> puts each page on the caller's list before it tests for null, so a missing
  page faults.
\<close>

fun palloc_unordered ::
  "(page_buddy_alloc \<Rightarrow> page_buddy_alloc) \<Rightarrow> nat \<Rightarrow> page_buddy_alloc \<Rightarrow> nat \<Rightarrow> u32 \<Rightarrow> nat list \<Rightarrow>
   (nat list \<times> page_buddy_alloc) option" where
  "palloc_unordered oom me a 0 flags acc = Some (acc, a)"
| "palloc_unordered oom me a (Suc n) flags acc =
     (case u_palloc_phys_multiple oom me a 0 flags of
        Some (Page p, a) \<Rightarrow> palloc_unordered oom me a n flags (acc @ [p])
      | _ \<Rightarrow> None)"

definition palloc_free_page_count :: "page_buddy_alloc \<Rightarrow> int" where
  "palloc_free_page_count a = free_pages a"

section \<open>Initialisation\<close>

text \<open>
  The page array at boot is the memory the boot allocator returned; the loop indexes it relative to
  its start, so the memory is a function of an integer index. The loop condition \<^verbatim>\<open>p-- >= pages\<close>
  is tested before the decrement: it also runs its body for index -1.
\<close>

definition page_init_entry :: "page \<Rightarrow> int \<Rightarrow> page" where
  "page_init_entry p i =
     p\<lparr>pg_order := -1,
       page_number := nat (i mod 2 ^ 32),
       pg_flags := set_bit PG_INVALID (pg_flags p),
       pg_virt := P2V (push_bit PG_SHIFT (word_of_int i))\<rparr>"

definition zero_page :: page where
  "zero_page = \<lparr>use_count = 0, page_number = 0, pg_order = 0, startb = 0, lenb = 0, pg_flags = 0, pg_virt = 0\<rparr>"

function palloc_init_loop :: "(int \<Rightarrow> page) \<Rightarrow> int \<Rightarrow> (int \<Rightarrow> page)" where
  "palloc_init_loop mem p =
     (if p \<ge> 0
      then let p = p - 1 in palloc_init_loop (mem(p := page_init_entry (mem p) p)) p
      else mem)"
  by pat_completeness auto
termination
  by (relation "measure (\<lambda>(mem, p). nat (p + 1))") auto

declare palloc_init_loop.simps [simp del]

definition empty_map :: page_buddy_map where
  "empty_map = \<lparr>free_list = [], free_count = 0, wait_for_free = []\<rparr>"

definition palloc_init :: "(int \<Rightarrow> page) \<Rightarrow> nat \<Rightarrow> page_buddy_alloc \<times> (int \<Rightarrow> page)" where
  "palloc_init mem n =
     (let mem = (\<lambda>i. if 0 \<le> i \<and> i < int n then zero_page else mem i);
          mem = palloc_init_loop mem (int n)
      in (\<lparr>pages = map (\<lambda>i. mem (int i)) [0..<n], page_count = n,
           maps = replicate PALLOC_MAPS empty_map, map_count = PALLOC_MAPS, free_pages = 0\<rparr>, mem))"

end
