(* ===== verification/BuddySpec.thy ===== *)
theory BuddySpec
  imports Prelude
begin

text \<open>
  The buddy system without the kernel's records: \<open>ord p\<close> is the order of the free block that
  starts at page \<open>p\<close> (negative when none does) and \<open>fl k\<close> the free list of order \<open>k\<close>. The
  two moves every allocator operation is made of, taking a free block out and putting a block back,
  are shown to keep the structure and to change the set of free pages by exactly the block.
\<close>

section \<open>Blocks and buddies\<close>

abbreviation blk :: "nat \<Rightarrow> nat \<Rightarrow> nat set" where
  "blk p k \<equiv> {p..<p + 2 ^ k}"

lemma xor_1_nat: "(m::nat) XOR 1 = (if even m then m + 1 else m - 1)"
  using xor_one_eq [of m] by (cases "even m") (simp_all add: odd_pos)

lemma buddy_eq:
  fixes p :: nat
  assumes "2 ^ k dvd p"
  shows "p XOR push_bit k 1 = (if even (p div 2 ^ k) then p + 2 ^ k else p - 2 ^ k)"
proof -
  obtain m where p: "p = push_bit k m"
    using assms by (auto simp: push_bit_eq_mult dvd_def mult.commute)
  then have "p XOR push_bit k 1 = push_bit k (m XOR 1)"
    by (simp only: push_bit_xor)
  also have "\<dots> = (if even m then p + 2 ^ k else p - 2 ^ k)"
    unfolding xor_1_nat by (auto simp: p push_bit_eq_mult algebra_simps)
  finally show ?thesis
    by (simp add: p push_bit_eq_mult)
qed

lemma unset_bit_aligned:
  fixes p :: nat
  assumes "2 ^ k dvd p"
  shows "unset_bit k p = (if even (p div 2 ^ k) then p else p - 2 ^ k)"
proof (cases "even (p div 2 ^ k)")
  case True
  then have "\<not> bit p k"
    by (simp add: bit_iff_odd)
  then have "unset_bit k p = p"
    by (intro bit_eqI) (auto simp: bit_unset_bit_iff)
  with True show ?thesis by simp
next
  case False
  then have "bit p k"
    by (simp add: bit_iff_odd)
  then have "p OR push_bit k 1 = p"
    by (intro bit_eqI) (auto simp: bit_simps)
  then have "unset_bit k p = p XOR push_bit k 1"
    by (simp only: unset_bit_eq_or_xor)
  with False show ?thesis
    using buddy_eq [OF assms] by simp
qed

text \<open>The lower of a block and its buddy starts the block of the next order, and the two fill it.\<close>

definition lower :: "nat \<Rightarrow> nat \<Rightarrow> nat" where
  "lower p k = unset_bit k p"

definition buddy :: "nat \<Rightarrow> nat \<Rightarrow> nat" where
  "buddy p k = p XOR push_bit k 1"

lemma aligned_pair:
  assumes "2 ^ k dvd p"
  shows "2 ^ Suc k dvd lower p k" and "2 ^ k dvd buddy p k"
    and "blk (lower p k) (Suc k) = blk p k \<union> blk (buddy p k) k"
    and "blk p k \<inter> blk (buddy p k) k = {}"
    and "buddy (lower p k) k = lower p k + 2 ^ k"
    and "p = lower p k \<or> buddy p k = lower p k"
    and "lower p k + 2 ^ k = p \<or> lower p k + 2 ^ k = buddy p k"
    and "p \<noteq> buddy p k"
    and "p \<noteq> lower p k \<longleftrightarrow> p = lower p k + 2 ^ k"
proof -
  obtain m where p: "p = 2 ^ k * m"
    using assms by (auto simp: dvd_def)
  have lo: "lower p k = (if even m then p else p - 2 ^ k)"
    and bu: "buddy p k = (if even m then p + 2 ^ k else p - 2 ^ k)"
    using unset_bit_aligned [OF assms] buddy_eq [OF assms] by (simp_all add: lower_def buddy_def p)
  have le: "odd m \<Longrightarrow> 2 ^ k \<le> p"
    by (auto simp: p Suc_leI odd_pos)
  show d: "2 ^ Suc k dvd lower p k"
  proof (cases "even m")
    case True
    then have "lower p k = p" and "2 ^ Suc k dvd p"
      by (simp add: lo) (use True in \<open>auto simp: p elim!: evenE\<close>)
    then show ?thesis by simp
  next
    case False
    then obtain j where "m = 2 * j + 1" by (elim oddE)
    then have "lower p k = 2 ^ Suc k * j"
      unfolding lo by (simp add: p algebra_simps)
    then show ?thesis by simp
  qed
  show "2 ^ k dvd buddy p k"
    unfolding bu using assms by (simp add: dvd_diff_nat)
  have dbl: "(2::nat) ^ Suc k = 2 ^ k + 2 ^ k" by simp
  have pos: "(0::nat) < 2 ^ k" by simp
  have cs: "lower p k = p \<and> buddy p k = p + 2 ^ k \<or> p = lower p k + 2 ^ k \<and> buddy p k = lower p k"
    unfolding lo bu using le by (cases "even m") auto
  show "blk (lower p k) (Suc k) = blk p k \<union> blk (buddy p k) k"
    unfolding dbl using cs by auto
  show "blk p k \<inter> blk (buddy p k) k = {}"
    using cs by auto
  show "p = lower p k \<or> buddy p k = lower p k"
    using cs by auto
  show "p \<noteq> buddy p k" "p \<noteq> lower p k \<longleftrightarrow> p = lower p k + 2 ^ k"
    "lower p k + 2 ^ k = p \<or> lower p k + 2 ^ k = buddy p k"
    using cs pos by linarith+
  have "even (lower p k div 2 ^ k)"
    using d by (auto simp: dvd_def)
  moreover have "2 ^ k dvd lower p k"
    by (rule dvd_trans [OF _ d]) (rule le_imp_power_dvd, simp)
  ultimately show "buddy (lower p k) k = lower p k + 2 ^ k"
    using buddy_eq [of k "lower p k"] by (simp add: buddy_def)
qed

section \<open>Free lists and the set of free pages\<close>

definition buddy_ok :: "nat \<Rightarrow> (nat \<Rightarrow> int) \<Rightarrow> (nat \<Rightarrow> nat list) \<Rightarrow> bool" where
  "buddy_ok n ord fl \<longleftrightarrow>
     (\<forall>k<6. distinct (fl k) \<and> set (fl k) = {p. p < n \<and> ord p = int k}) \<and>
     (\<forall>p<n. - 1 \<le> ord p \<and> ord p < 6) \<and>
     (\<forall>p<n. \<forall>k. ord p = int k \<longrightarrow> 2 ^ k dvd p \<and> p + 2 ^ k \<le> n) \<and>
     (\<forall>p<n. \<forall>q<n. \<forall>k j. p \<noteq> q \<longrightarrow> ord p = int k \<longrightarrow> ord q = int j \<longrightarrow> blk p k \<inter> blk q j = {})"

definition free_of :: "nat \<Rightarrow> (nat \<Rightarrow> int) \<Rightarrow> nat set" where
  "free_of n ord = (\<Union>p\<in>{p. p < n \<and> 0 \<le> ord p}. blk p (nat (ord p)))"

lemma free_of_iff: "q \<in> free_of n ord \<longleftrightarrow> (\<exists>p k. p < n \<and> ord p = int k \<and> q \<in> blk p k)"
proof
  assume "q \<in> free_of n ord"
  then obtain p where "p < n" "0 \<le> ord p" "q \<in> blk p (nat (ord p))"
    unfolding free_of_def by blast
  then show "\<exists>p k. p < n \<and> ord p = int k \<and> q \<in> blk p k"
    by (metis int_nat_eq)
next
  assume "\<exists>p k. p < n \<and> ord p = int k \<and> q \<in> blk p k"
  then obtain p k where "p < n" "ord p = int k" "q \<in> blk p k"
    by blast
  then show "q \<in> free_of n ord"
    unfolding free_of_def by (intro UN_I [of p]) auto
qed

lemma free_of_head: "p < n \<Longrightarrow> ord p = int k \<Longrightarrow> blk p k \<subseteq> free_of n ord"
  unfolding subset_iff free_of_iff by blast

lemma not_free_ord:
  assumes "buddy_ok n ord fl" and "p < n" and "p \<notin> free_of n ord"
  shows "ord p = - 1"
proof (rule ccontr)
  assume "ord p \<noteq> - 1"
  with assms(1,2) have "0 \<le> ord p" by (force simp: buddy_ok_def)
  then obtain k where "ord p = int k" by (elim nonneg_int_cases)
  then have "p \<in> free_of n ord"
    using free_of_head [of p n ord k] assms(2) by auto
  with assms(3) show False by simp
qed

lemma free_of_bound: "buddy_ok n ord fl \<Longrightarrow> free_of n ord \<subseteq> {..<n}"
proof
  fix q assume ok: "buddy_ok n ord fl" and "q \<in> free_of n ord"
  then obtain p k where "p < n" "ord p = int k" "q \<in> blk p k"
    unfolding free_of_iff by blast
  then have "p + 2 ^ k \<le> n" using ok unfolding buddy_ok_def by blast
  with \<open>q \<in> blk p k\<close> show "q \<in> {..<n}" by simp
qed

lemma finite_free_of: "buddy_ok n ord fl \<Longrightarrow> finite (free_of n ord)"
  by (rule finite_subset [OF free_of_bound finite_lessThan])

lemma buddy_ok_remove:
  assumes ok: "buddy_ok n ord fl" and p: "p < n" "ord p = int k"
    and fl': "distinct xs" "set xs = set (fl k) - {p}"
  shows "buddy_ok n (ord(p := - 1)) (fl(k := xs))"
    and "free_of n (ord(p := - 1)) = free_of n ord - blk p k"
proof -
  show "buddy_ok n (ord(p := - 1)) (fl(k := xs))"
    unfolding buddy_ok_def
  proof (intro conjI allI impI)
    fix j assume "j < (6::nat)"
    then show "distinct ((fl(k := xs)) j)"
      and "set ((fl(k := xs)) j) = {q. q < n \<and> (ord(p := - 1)) q = int j}"
      using ok p fl' by (auto simp: buddy_ok_def)
  next
    fix q assume "q < n"
    then show "- 1 \<le> (ord(p := - 1)) q" "(ord(p := - 1)) q < 6"
      using ok by (auto simp: buddy_ok_def)
  next
    fix q j assume "q < n" "(ord(p := - 1)) q = int j"
    then show "2 ^ j dvd q" "q + 2 ^ j \<le> n"
      using ok unfolding buddy_ok_def by (metis fun_upd_apply of_nat_0_le_iff neg_0_le_iff_le not_one_le_zero)+
  next
    fix q r j i
    assume a: "q < n" "r < n" "q \<noteq> r" "(ord(p := - 1)) q = int j" "(ord(p := - 1)) r = int i"
    then have "ord q = int j" "ord r = int i" by (auto split: if_splits)
    with a ok show "blk q j \<inter> blk r i = {}" unfolding buddy_ok_def by blast
  qed
  have "blk q j \<inter> blk p k = {}" if "q < n" "ord q = int j" "q \<noteq> p" for q j
    using ok p that unfolding buddy_ok_def by blast
  note sep = this
  show "free_of n (ord(p := - 1)) = free_of n ord - blk p k"
  proof (intro set_eqI iffI)
    fix x assume "x \<in> free_of n (ord(p := - 1))"
    then obtain q j where q: "q < n" "(ord(p := - 1)) q = int j" "x \<in> blk q j"
      unfolding free_of_iff by blast
    then have "q \<noteq> p" "ord q = int j" by (auto split: if_splits)
    with q sep [of q j] show "x \<in> free_of n ord - blk p k"
      unfolding free_of_iff Diff_iff by blast
  next
    fix x assume x: "x \<in> free_of n ord - blk p k"
    then obtain q j where q: "q < n" "ord q = int j" "x \<in> blk q j"
      unfolding free_of_iff Diff_iff by blast
    with x p have "q \<noteq> p" by auto
    with q show "x \<in> free_of n (ord(p := - 1))"
      unfolding free_of_iff by (intro exI [of _ q] exI [of _ j]) simp
  qed
qed

lemma buddy_ok_add:
  assumes ok: "buddy_ok n ord fl" and k: "k < 6" and al: "2 ^ k dvd p" "p + 2 ^ k \<le> n"
    and fresh: "blk p k \<inter> free_of n ord = {}"
  shows "buddy_ok n (ord(p := int k)) (fl(k := p # fl k))"
    and "free_of n (ord(p := int k)) = free_of n ord \<union> blk p k"
proof -
  have pn: "p < n" and pk: "p \<in> blk p k"
    using al(2) by (auto intro: less_le_trans [of p "p + 2 ^ k"])
  then have op: "ord p = - 1"
    using not_free_ord [OF ok pn] fresh by blast
  have dj: "blk q j \<inter> blk p k = {}" if "q < n" "ord q = int j" for q j
    using free_of_head [where ord = ord, OF that(1,2)] fresh by blast
  show "buddy_ok n (ord(p := int k)) (fl(k := p # fl k))"
    unfolding buddy_ok_def
  proof (intro conjI allI impI)
    fix j assume "j < (6::nat)"
    then show "distinct ((fl(k := p # fl k)) j)"
      and "set ((fl(k := p # fl k)) j) = {q. q < n \<and> (ord(p := int k)) q = int j}"
      using ok pn op by (auto simp: buddy_ok_def)
  next
    fix q r j i
    assume a: "q < n" "r < n" "q \<noteq> r" "(ord(p := int k)) q = int j" "(ord(p := int k)) r = int i"
    consider "q = p" | "r = p" | "q \<noteq> p" "r \<noteq> p" by blast
    then show "blk q j \<inter> blk r i = {}"
    proof cases
      case 1
      then have "j = k" using a by simp
      with 1 a dj [of r i] show ?thesis by auto
    next
      case 2
      then have "i = k" using a by simp
      with 2 a dj [of q j] show ?thesis by auto
    next
      case 3
      then have "ord q = int j" "ord r = int i" using a by auto
      with a ok show ?thesis unfolding buddy_ok_def by blast
    qed
  next
    fix q assume "q < n"
    then show "- 1 \<le> (ord(p := int k)) q" "(ord(p := int k)) q < 6"
      using ok k by (auto simp: buddy_ok_def)
  next
    fix q j assume q: "q < n" "(ord(p := int k)) q = int j"
    have "2 ^ j dvd q \<and> q + 2 ^ j \<le> n"
    proof (cases "q = p")
      case True
      with q al show ?thesis by simp
    next
      case False
      with q ok show ?thesis unfolding buddy_ok_def by simp
    qed
    then show "2 ^ j dvd q" "q + 2 ^ j \<le> n" by simp_all
  qed
  show "free_of n (ord(p := int k)) = free_of n ord \<union> blk p k"
  proof (intro set_eqI iffI)
    fix x assume "x \<in> free_of n (ord(p := int k))"
    then obtain q j where q: "q < n" "(ord(p := int k)) q = int j" "x \<in> blk q j"
      unfolding free_of_iff by blast
    show "x \<in> free_of n ord \<union> blk p k"
    proof (cases "q = p")
      case True
      with q show ?thesis by simp
    next
      case False
      with q show ?thesis unfolding free_of_iff Un_iff by auto
    qed
  next
    fix x assume "x \<in> free_of n ord \<union> blk p k"
    then consider (old) q j where "q < n" "ord q = int j" "x \<in> blk q j" | (new) "x \<in> blk p k"
      unfolding free_of_iff Un_iff by blast
    then show "x \<in> free_of n (ord(p := int k))"
    proof cases
      case old
      with op have "q \<noteq> p" by auto
      with old show ?thesis
        unfolding free_of_iff by (intro exI [of _ q] exI [of _ j]) simp
    next
      case new
      with pn show ?thesis
        unfolding free_of_iff by (intro exI [of _ p] exI [of _ k]) simp
    qed
  qed
qed

lemma free_of_cong: "(\<And>p. p < n \<Longrightarrow> ord p = ord' p) \<Longrightarrow> free_of n ord = free_of n ord'"
  by (auto simp: free_of_def)

end
