(* ===== verification/PallocCorrect.thy ===== *)
theory PallocCorrect
  imports Palloc BuddySpec
begin

text \<open>
  Correctness of the buddy allocator: the operations of theory \<open>Palloc\<close> keep the allocator's
  invariant, never leave the page array, and change the set of free pages as the specification in
  \<open>BuddySpec\<close> says.
\<close>

section \<open>Views of the state\<close>

definition ordv :: "page_buddy_alloc \<Rightarrow> nat \<Rightarrow> int" where
  "ordv a p = pg_order (pages a ! p)"

definition flv :: "page_buddy_alloc \<Rightarrow> nat \<Rightarrow> nat list" where
  "flv a k = free_list (maps a ! k)"

definition free_set :: "page_buddy_alloc \<Rightarrow> nat set" where
  "free_set a = free_of (page_count a) (ordv a)"

definition good_page :: "page_buddy_alloc \<Rightarrow> nat \<Rightarrow> bool" where
  "good_page a q \<longleftrightarrow> use_count (pages a ! q) = 0 \<and> \<not> bit (pg_flags (pages a ! q)) PG_INVALID"

definition buddy_inv :: "page_buddy_alloc \<Rightarrow> bool" where
  "buddy_inv a \<longleftrightarrow>
     length (pages a) = page_count a \<and>
     (\<forall>p<page_count a. page_number (pages a ! p) = p) \<and>
     length (maps a) = PALLOC_MAPS \<and>
     (\<forall>k<PALLOC_MAPS. free_count (maps a ! k) = int (length (free_list (maps a ! k)))) \<and>
     buddy_ok (page_count a) (ordv a) (flv a) \<and>
     (\<forall>q\<in>free_set a. good_page a q)"

text \<open>The invariant between calls also counts the free pages.\<close>

definition buddy_wf :: "page_buddy_alloc \<Rightarrow> bool" where
  "buddy_wf a \<longleftrightarrow> buddy_inv a \<and> free_pages a = int (card (free_set a))"

text \<open>A block the caller may hand to \<^verbatim>\<open>pfree\<close>: aligned, in the array, unused and not free.\<close>

definition owned :: "page_buddy_alloc \<Rightarrow> nat \<Rightarrow> nat \<Rightarrow> bool" where
  "owned a p k \<longleftrightarrow>
     k < PALLOC_MAPS \<and> 2 ^ k dvd p \<and> p + 2 ^ k \<le> page_count a \<and>
     blk p k \<inter> free_set a = {} \<and> (\<forall>q\<in>blk p k. good_page a q)"

text \<open>No block below the top order has its buddy free on the same list.\<close>

definition coalesced :: "page_buddy_alloc \<Rightarrow> bool" where
  "coalesced a \<longleftrightarrow>
     (\<forall>k<PALLOC_MAPS - 1. \<forall>p\<in>set (flv a k). get_buddy_pn p k \<notin> set (flv a k))"

text \<open>Two states whose pages differ at most in their order field, and whose sizes agree.\<close>

definition same_pages :: "page_buddy_alloc \<Rightarrow> page_buddy_alloc \<Rightarrow> bool" where
  "same_pages a b \<longleftrightarrow> page_count b = page_count a \<and> length (pages b) = length (pages a) \<and>
     (\<forall>q. (pages b ! q)\<lparr>pg_order := 0\<rparr> = (pages a ! q)\<lparr>pg_order := 0\<rparr>)"

section \<open>Frame facts of the field writes\<close>

lemma page_upd_sel [simp]:
  "length (pages (page_upd a p f)) = length (pages a)" "maps (page_upd a p f) = maps a"
  "page_count (page_upd a p f) = page_count a" "free_pages (page_upd a p f) = free_pages a"
  "flv (page_upd a p f) = flv a"
  by (simp_all add: page_upd_def flv_def fun_eq_iff)

lemma pages_page_upd:
  "pages (page_upd a p f) ! q = (if q = p \<and> p < length (pages a) then f (pages a ! p) else pages a ! q)"
  by (auto simp: page_upd_def nth_list_update list_update_beyond)

lemma set_order_sel [simp]:
  "length (pages (set_order a p x)) = length (pages a)" "maps (set_order a p x) = maps a"
  "page_count (set_order a p x) = page_count a" "free_pages (set_order a p x) = free_pages a"
  "flv (set_order a p x) = flv a"
  "page_number (pages (set_order a p x) ! q) = page_number (pages a ! q)"
  "use_count (pages (set_order a p x) ! q) = use_count (pages a ! q)"
  "pg_flags (pages (set_order a p x) ! q) = pg_flags (pages a ! q)"
  by (simp_all add: set_order_def pages_page_upd)

lemma good_page_set_order [simp]: "good_page (set_order a p x) = good_page a"
  by (simp add: good_page_def fun_eq_iff)

lemma ordv_set_order: "p < length (pages a) \<Longrightarrow> ordv (set_order a p x) = (ordv a)(p := x)"
  by (auto simp: ordv_def set_order_def pages_page_upd fun_eq_iff)

lemma map_upd_sel [simp]:
  "pages (map_upd a k f) = pages a" "length (maps (map_upd a k f)) = length (maps a)"
  "page_count (map_upd a k f) = page_count a" "free_pages (map_upd a k f) = free_pages a"
  "ordv (map_upd a k f) = ordv a" "good_page (map_upd a k f) = good_page a"
  by (simp_all add: map_upd_def ordv_def good_page_def fun_eq_iff)

lemma maps_map_upd:
  "maps (map_upd a k f) ! j = (if j = k \<and> k < length (maps a) then f (maps a ! k) else maps a ! j)"
  by (auto simp: map_upd_def nth_list_update list_update_beyond)

lemma free_pages_upd_view [simp]:
  "ordv (a\<lparr>free_pages := v\<rparr>) = ordv a" "flv (a\<lparr>free_pages := v\<rparr>) = flv a"
  "good_page (a\<lparr>free_pages := v\<rparr>) = good_page a"
  by (simp_all add: ordv_def flv_def good_page_def fun_eq_iff)

lemma free_pages_upd_inv [simp]:
  "free_set (a\<lparr>free_pages := v\<rparr>) = free_set a"
  "buddy_inv (a\<lparr>free_pages := v\<rparr>) = buddy_inv a" "coalesced (a\<lparr>free_pages := v\<rparr>) = coalesced a"
  by (simp_all add: free_set_def buddy_inv_def coalesced_def)

lemma set_order_map_upd: "set_order (map_upd a k f) p x = map_upd (set_order a p x) k f"
  by (simp add: set_order_def map_upd_def page_upd_def)

lemma set_order_twice [simp]:
  "p < length (pages a) \<Longrightarrow> set_order (set_order a p x) p y = set_order a p y"
  by (simp add: set_order_def page_upd_def)

lemma set_order_swap: "p \<noteq> q \<Longrightarrow> set_order (set_order a p x) q y = set_order (set_order a q y) p x"
  by (simp add: set_order_def page_upd_def list_update_swap)

lemma free_set_map_upd [simp]: "free_set (map_upd a k f) = free_set a"
  by (simp add: free_set_def)

lemma same_pages_refl [simp]: "same_pages a a"
  by (simp add: same_pages_def)

lemma same_pages_trans [trans]: "same_pages a b \<Longrightarrow> same_pages b c \<Longrightarrow> same_pages a c"
  by (simp add: same_pages_def)

lemma same_pages_set_order: "same_pages a b \<Longrightarrow> same_pages a (set_order b p x)"
  by (auto simp: same_pages_def set_order_def pages_page_upd)

lemma same_pages_map_upd: "same_pages a b \<Longrightarrow> same_pages a (map_upd b k f)"
  by (auto simp: same_pages_def)

lemma same_pages_free_pages: "same_pages a b \<Longrightarrow> same_pages a (b\<lparr>free_pages := v\<rparr>)"
  by (auto simp: same_pages_def)

lemmas same_pages_intros =
  same_pages_set_order same_pages_map_upd same_pages_free_pages same_pages_refl

lemma page_order_irrelevant:
  assumes "(q :: page)\<lparr>pg_order := 0\<rparr> = p\<lparr>pg_order := 0\<rparr>"
  shows "use_count q = use_count p" "page_number q = page_number p" "pg_flags q = pg_flags p"
    "pg_virt q = pg_virt p"
  using assms by (cases p; cases q; simp)+

lemma same_pagesD:
  assumes "same_pages a b"
  shows "page_count b = page_count a" "length (pages b) = length (pages a)"
    "use_count (pages b ! q) = use_count (pages a ! q)"
    "page_number (pages b ! q) = page_number (pages a ! q)"
    "pg_flags (pages b ! q) = pg_flags (pages a ! q)" "pg_virt (pages b ! q) = pg_virt (pages a ! q)"
  using assms page_order_irrelevant [of "pages b ! q" "pages a ! q"] by (simp_all add: same_pages_def)

lemma same_pages_good: "same_pages a b \<Longrightarrow> good_page b = good_page a"
  by (simp add: good_page_def fun_eq_iff same_pagesD)

section \<open>The two moves on the kernel's state\<close>

lemma buddy_invD:
  assumes "buddy_inv a"
  shows "length (pages a) = page_count a" "length (maps a) = PALLOC_MAPS"
    "p < page_count a \<Longrightarrow> page_number (pages a ! p) = p"
    "k < PALLOC_MAPS \<Longrightarrow> free_count (maps a ! k) = int (length (flv a k))"
    "buddy_ok (page_count a) (ordv a) (flv a)"
    "k < PALLOC_MAPS \<Longrightarrow> p \<in> set (flv a k) \<longleftrightarrow> p < page_count a \<and> ordv a p = int k"
    "k < PALLOC_MAPS \<Longrightarrow> distinct (flv a k)"
    "q \<in> free_set a \<Longrightarrow> good_page a q"
  using assms by (auto simp: buddy_inv_def buddy_ok_def flv_def)

lemma flv_map_upd:
  "k < length (maps a) \<Longrightarrow> flv (map_upd a k f) = (flv a)(k := free_list (f (maps a ! k)))"
  by (auto simp: flv_def maps_map_upd fun_eq_iff)

lemma take_out:
  assumes inv: "buddy_inv a" and p: "p < page_count a" "ordv a p = int k" and k: "k < PALLOC_MAPS"
    and xs: "distinct xs" "set xs = set (flv a k) - {p}"
    and f: "free_list (f (maps a ! k)) = xs" "free_count (f (maps a ! k)) = free_count (maps a ! k) - 1"
  shows "buddy_inv (set_order (map_upd a k f) p (- 1))"
    and "free_set (set_order (map_upd a k f) p (- 1)) = free_set a - blk p k"
proof -
  let ?a = "set_order (map_upd a k f) p (- 1)"
  note d = buddy_invD [OF inv]
  have ov: "ordv ?a = (ordv a)(p := - 1)"
    using p d(1) by (simp add: ordv_set_order)
  have fv: "flv (map_upd a k f) = (flv a)(k := xs)"
    using k d(2) by (simp add: flv_map_upd f)
  show fs: "free_set ?a = free_set a - blk p k"
    using buddy_ok_remove(2) [OF d(5) p xs] by (simp add: free_set_def ov)
  have pm: "p \<in> set (flv a k)"
    using d(6) [OF k] p by blast
  have "Suc (length xs) = length (flv a k)"
    using distinct_card [OF xs(1)] distinct_card [OF d(7) [OF k]] xs(2) pm
    by (metis card.remove List.finite_set)
  then have cnt: "free_count (maps ?a ! j) = int (length (free_list (maps ?a ! j)))"
    if "j < PALLOC_MAPS" for j
    using that d(2) d(4) [OF that] d(4) [OF k] by (auto simp: maps_map_upd f flv_def)
  show "buddy_inv ?a"
    unfolding buddy_inv_def
    using d buddy_ok_remove(1) [OF d(5) p xs] cnt by (simp add: fs ov fv)
qed

lemma put_in:
  assumes inv: "buddy_inv a" and own: "owned a p k"
  shows "buddy_inv (map_push (set_order a p (int k)) k p)"
    and "free_set (map_push (set_order a p (int k)) k p) = free_set a \<union> blk p k"
proof -
  let ?a = "map_push (set_order a p (int k)) k p"
  note d = buddy_invD [OF inv]
  have k: "k < PALLOC_MAPS" and al: "2 ^ k dvd p" "p + 2 ^ k \<le> page_count a"
    and dj: "blk p k \<inter> free_of (page_count a) (ordv a) = {}"
    and good: "\<And>q. q \<in> blk p k \<Longrightarrow> good_page a q"
    using own by (auto simp: owned_def free_set_def)
  have pn: "p < page_count a"
    using al(2) by (rule less_le_trans [rotated]) simp
  have ov: "ordv ?a = (ordv a)(p := int k)"
    using pn d(1) by (simp add: map_push_def ordv_set_order)
  have fv: "flv ?a = (flv a)(k := p # flv a k)"
    using k d(2) by (simp add: map_push_def flv_map_upd) (simp add: flv_def)
  show fs: "free_set ?a = free_set a \<union> blk p k"
    using buddy_ok_add(2) [OF d(5) k al dj] unfolding free_set_def ov by (simp add: map_push_def)
  have cnt: "free_count (maps ?a ! j) = int (length (free_list (maps ?a ! j)))"
    if "j < PALLOC_MAPS" for j
    using that d(2) d(4) [OF that] by (auto simp: maps_map_upd map_push_def flv_def)
  have "good_page ?a q" if "q \<in> free_set ?a" for q
    using that d(8) good unfolding fs by (auto simp: map_push_def)
  then show "buddy_inv ?a"
    unfolding buddy_inv_def
    using d(1-3) buddy_ok_add(1) [OF d(5) k al dj] cnt by (simp add: ov fv) (simp add: map_push_def)
qed

section \<open>Freeing\<close>

lemma buddy_in_range:
  assumes "2 ^ k dvd p" and "p + 2 ^ k \<le> n" and "k < 5" and "32 dvd n"
  shows "lower p k + 2 ^ Suc k \<le> n"
proof -
  have "(2::nat) ^ Suc k dvd 32"
    using assms(3) le_imp_power_dvd [of "Suc k" 5 "2::nat"] by simp
  then have dn: "2 ^ Suc k dvd n"
    using assms(4) by (rule dvd_trans)
  have dl: "2 ^ Suc k dvd lower p k"
    by (rule aligned_pair(1) [OF assms(1)])
  have "lower p k < n"
    using aligned_pair(9) [OF assms(1)] assms(2) by fastforce
  with dn dl obtain i j where "n = 2 ^ Suc k * i" "lower p k = 2 ^ Suc k * j" "j < i"
    by (auto simp: dvd_def)
  then have "2 ^ Suc k * (j + 1) \<le> n"
    by (metis Suc_eq_plus1 Suc_leI mult_le_mono2)
  then show ?thesis
    by (simp add: \<open>lower p k = 2 ^ Suc k * j\<close>)
qed

lemma pair_in_range:
  assumes "2 ^ k dvd p" and "p + 2 ^ k \<le> n" and "k < 5" and "32 dvd n"
  shows "buddy p k < n" and "p < n"
proof -
  have "(0::nat) < 2 ^ k" by simp
  with buddy_in_range [OF assms] aligned_pair(6,7) [OF assms(1)] assms(2)
  show "buddy p k < n" "p < n"
    unfolding power_Suc by linarith+
qed

lemma merge_step:
  assumes inv: "buddy_inv (set_order a cur (- 1))" and own: "owned (set_order a cur (- 1)) cur k"
    and k: "k < 5" and n: "32 dvd page_count a"
    and b: "ordv a (buddy cur k) = int k"
  defines "a' \<equiv> set_order (map_del a k (buddy cur k)) (lower cur k + 2 ^ k) (- 1)"
  shows "buddy_inv (set_order a' (lower cur k) (- 1))"
    and "owned (set_order a' (lower cur k) (- 1)) (lower cur k) (Suc k)"
    and "free_set (set_order a' (lower cur k) (- 1)) \<union> blk (lower cur k) (Suc k)
         = free_set (set_order a cur (- 1)) \<union> blk cur k"
    and "page_count a' = page_count a" and "free_pages a' = free_pages a"
proof -
  let ?a = "set_order a cur (- 1)" and ?b = "buddy cur k" and ?l = "lower cur k"
  let ?f = "\<lambda>m. m\<lparr>free_list := remove1 ?b (free_list m), free_count := free_count m - 1\<rparr>"
  have al: "2 ^ k dvd cur" and bd: "cur + 2 ^ k \<le> page_count a"
    and dj: "blk cur k \<inter> free_set ?a = {}" and good: "\<And>q. q \<in> blk cur k \<Longrightarrow> good_page a q"
    using own by (auto simp: owned_def)
  note pr = aligned_pair [OF al]
  have top: "?l + 2 ^ Suc k \<le> page_count a"
    by (rule buddy_in_range [OF al bd k n])
  have len: "length (pages a) = page_count a"
    using buddy_invD(1) [OF inv] by simp
  have bn: "?b < page_count a" and cn: "cur < page_count a"
    using pair_in_range [OF al bd k n] by auto
  have ob: "ordv ?a ?b = int k"
    using b pr(8) cn len by (simp add: ordv_set_order)
  have k6: "k < PALLOC_MAPS" using k by simp
  have d: "distinct (remove1 ?b (flv ?a k))" "set (remove1 ?b (flv ?a k)) = set (flv ?a k) - {?b}"
    using buddy_invD(7) [OF inv k6] by simp_all
  have eq: "set_order a' ?l (- 1) = set_order (map_upd ?a k ?f) ?b (- 1)"
  proof (cases "cur = ?l")
    case True
    then have u: "?l + 2 ^ k = ?b" using pr(7) by auto
    have "set_order (set_order a ?b (- 1)) ?l (- 1) = set_order (set_order a cur (- 1)) ?b (- 1)"
      using set_order_swap [OF pr(8) [symmetric]] by (simp flip: True)
    then show ?thesis
      unfolding a'_def map_del_def set_order_map_upd u by simp
  next
    case False
    then have u: "?l + 2 ^ k = cur" and b: "?l = ?b" using pr(6,9) by auto
    show ?thesis
      unfolding a'_def map_del_def set_order_map_upd u unfolding b ..
  qed
  have to: "buddy_inv (set_order (map_upd ?a k ?f) ?b (- 1))"
    "free_set (set_order (map_upd ?a k ?f) ?b (- 1)) = free_set ?a - blk ?b k"
    using take_out [OF inv _ ob k6 d, of ?f] bn by (simp_all add: flv_def)
  show "buddy_inv (set_order a' ?l (- 1))"
    unfolding eq by (rule to)
  have bsub: "blk ?b k \<subseteq> free_set ?a"
    unfolding free_set_def using free_of_head [of ?b "page_count ?a" "ordv ?a" k] bn ob by simp
  show fs: "free_set (set_order a' ?l (- 1)) \<union> blk ?l (Suc k) = free_set ?a \<union> blk cur k"
    unfolding eq to pr(3) using bsub by blast
  have "good_page a q" if "q \<in> blk ?l (Suc k)" for q
    using that good bsub buddy_invD(8) [OF inv] unfolding pr(3) by auto
  moreover have "blk ?l (Suc k) \<inter> free_set (set_order a' ?l (- 1)) = {}"
    unfolding eq to pr(3) using dj by blast
  ultimately show "owned (set_order a' ?l (- 1)) ?l (Suc k)"
    unfolding owned_def using k pr(1) top by (simp add: eq del: power_Suc)
  show "page_count a' = page_count a" "free_pages a' = free_pages a"
    by (simp_all add: a'_def map_del_def)
qed

lemma get_buddy_pn_buddy: "get_buddy_pn p k = buddy p k"
  by (simp add: get_buddy_pn_def buddy_def)

lemma u_pfree_merge_correct:
  assumes "buddy_inv (set_order a cur (- 1))" and "owned (set_order a cur (- 1)) cur k"
    and "32 dvd page_count a"
  shows "\<exists>a' cur' k'. u_pfree_merge a cur k = Some (a', cur', k') \<and>
     buddy_inv (set_order a' cur' (- 1)) \<and> owned (set_order a' cur' (- 1)) cur' k' \<and>
     free_set (set_order a' cur' (- 1)) \<union> blk cur' k' = free_set (set_order a cur (- 1)) \<union> blk cur k \<and>
     page_count a' = page_count a \<and> free_pages a' = free_pages a \<and> k \<le> k' \<and>
     (k' < PALLOC_MAPS - 1 \<longrightarrow> ordv (set_order a' cur' (- 1)) (buddy cur' k') \<noteq> int k')"
  using assms
proof (induction a cur k rule: u_pfree_merge.induct)
  case (1 a cur k)
  note own = "1.prems"(2)
  show ?case
  proof (cases "k < PALLOC_MAPS - 1")
    case False
    then show ?thesis
      using "1.prems" by (simp add: u_pfree_merge.simps [of a cur k])
  next
    case True
    let ?b = "buddy cur k"
    have al: "2 ^ k dvd cur" "cur + 2 ^ k \<le> page_count a" and len: "length (pages a) = page_count a"
      using own buddy_invD(1) [OF "1.prems"(1)] by (auto simp: owned_def)
    note pr = aligned_pair [OF al(1)]
    have bn: "?b < page_count a" and cn: "cur < page_count a"
      using pair_in_range [OF al _ "1.prems"(3)] True by auto
    then have bp: "page_from_pn a ?b = Some (pages a ! ?b)"
      by (simp add: page_from_pn_def len)
    show ?thesis
    proof (cases "pg_order (pages a ! ?b) \<noteq> int k \<or> bit (pg_flags (pages a ! ?b)) PG_INVALID")
      case stop: True
      have "ordv (set_order a cur (- 1)) ?b \<noteq> int k"
      proof
        assume o: "ordv (set_order a cur (- 1)) ?b = int k"
        then have "?b \<in> free_set (set_order a cur (- 1))"
          using free_of_head [where ord = "ordv (set_order a cur (- 1))", of ?b "page_count a" k] bn
          by (auto simp: free_set_def)
        then have "good_page a ?b"
          using buddy_invD(8) [OF "1.prems"(1)] by simp
        with stop o pr(8) cn len show False
          by (simp add: good_page_def ordv_set_order ordv_def)
      qed
      then show ?thesis
        using "1.prems" True stop bp
        by (simp add: u_pfree_merge.simps [of a cur k] get_buddy_pn_buddy)
    next
      case go: False
      let ?l = "lower cur k"
      let ?a = "set_order (map_del a k ?b) (?l + 2 ^ k) (- 1)"
      have st: "u_pfree_merge a cur k = u_pfree_merge ?a ?l (k + 1)"
        using True go bp pr(5)
        by (simp add: u_pfree_merge.simps [of a cur k] get_buddy_pn_buddy Let_def flip: lower_def)
      have k5: "k < 5" using True by simp
      have ob: "ordv a ?b = int k" using go by (simp add: ordv_def)
      note ms = merge_step [OF "1.prems"(1,2) k5 "1.prems"(3) ob]
      have "\<exists>a' cur' k'. u_pfree_merge ?a ?l (k + 1) = Some (a', cur', k') \<and>
         buddy_inv (set_order a' cur' (- 1)) \<and> owned (set_order a' cur' (- 1)) cur' k' \<and>
         free_set (set_order a' cur' (- 1)) \<union> blk cur' k'
           = free_set (set_order ?a ?l (- 1)) \<union> blk ?l (k + 1) \<and>
         page_count a' = page_count ?a \<and> free_pages a' = free_pages ?a \<and> k + 1 \<le> k' \<and>
         (k' < PALLOC_MAPS - 1 \<longrightarrow> ordv (set_order a' cur' (- 1)) (buddy cur' k') \<noteq> int k')"
        using "1.IH" [OF True, of "pages a ! ?b"] go bp pr(5) ms "1.prems"(3)
        by (simp add: get_buddy_pn_buddy flip: lower_def)
      then show ?thesis
        unfolding st using ms(3-5) by fastforce
    qed
  qed
qed

lemma u_pfree_merge_frame:
  "u_pfree_merge a cur k = Some (a', cur', k') \<Longrightarrow>
   same_pages a a' \<and> (\<forall>j. set (flv a' j) \<subseteq> set (flv a j)) \<and> length (maps a') = length (maps a)"
proof (induction a cur k rule: u_pfree_merge.induct)
  case (1 a cur k)
  let ?b = "get_buddy_pn cur k"
  let ?a = "set_order (map_del a k ?b) (get_buddy_pn (unset_bit k cur) k) (- 1)"
  have fr: "same_pages a ?a" "set (flv ?a j) \<subseteq> set (flv a j)" "length (maps ?a) = length (maps a)" for j
    by (auto simp: map_del_def flv_def maps_map_upd intro!: same_pages_intros dest!: set_remove1_subset [THEN subsetD]
        split: if_splits)
  show ?case
  proof (cases "k < PALLOC_MAPS - 1")
    case False
    then show ?thesis using "1.prems" by (simp add: u_pfree_merge.simps [of a cur k])
  next
    case True
    from "1.prems" True obtain b where b: "page_from_pn a ?b = Some b"
      by (auto simp: u_pfree_merge.simps [of a cur k] split: option.splits)
    show ?thesis
    proof (cases "pg_order b \<noteq> int k \<or> bit (pg_flags b) PG_INVALID")
      case stop: True
      then show ?thesis
        using "1.prems" True b by (simp add: u_pfree_merge.simps [of a cur k])
    next
      case go: False
      then have "u_pfree_merge ?a (unset_bit k cur) (k + 1) = Some (a', cur', k')"
        using "1.prems" True b by (simp add: u_pfree_merge.simps [of a cur k] Let_def)
      then have "same_pages ?a a' \<and> (\<forall>j. set (flv a' j) \<subseteq> set (flv ?a j)) \<and> length (maps a') = length (maps ?a)"
        using "1.IH" [OF True b go refl refl refl] by simp
      then show ?thesis
        using fr same_pages_trans [OF fr(1)] by (metis subset_trans)
    qed
  qed
qed

lemma owned_ord:
  assumes "buddy_inv a" and "owned a p k"
  shows "p < page_count a" and "ordv a p = - 1" and "set_order a p (- 1) = a"
proof -
  have "p \<in> blk p k" by simp
  then have out: "p \<notin> free_set a"
    using assms(2) unfolding owned_def by blast
  have "(0::nat) < 2 ^ k" by simp
  then have pn: "p < page_count a"
    using assms(2) unfolding owned_def by linarith
  show "p < page_count a" by (rule pn)
  show o: "ordv a p = - 1"
    using not_free_ord [OF buddy_invD(5) [OF assms(1)] pn] out by (simp add: free_set_def)
  then have "(pages a ! p)\<lparr>pg_order := - 1\<rparr> = pages a ! p"
    by (simp add: ordv_def)
  then show "set_order a p (- 1) = a"
    by (simp add: set_order_def page_upd_def)
qed

lemma buddy_invol: "buddy (buddy p k) k = p"
  by (simp add: buddy_def xor.assoc)

lemma u_pfree_add_pages_correct:
  assumes inv: "buddy_inv a" and own: "owned a p k" and n: "32 dvd page_count a"
  obtains a' where "u_pfree_add_pages a p k = Some a'" "buddy_inv a'" "same_pages a a'"
    "free_set a' = free_set a \<union> blk p k" "free_pages a' = free_pages a + 2 ^ k"
    "coalesced a \<Longrightarrow> coalesced a'"
proof -
  note o = owned_ord [OF inv own]
  obtain b c j where m: "u_pfree_merge a p k = Some (b, c, j)"
    and binv: "buddy_inv (set_order b c (- 1))" and bown: "owned (set_order b c (- 1)) c j"
    and bfs: "free_set (set_order b c (- 1)) \<union> blk c j = free_set a \<union> blk p k"
    and bfp: "free_pages b = free_pages a"
    and bco: "j < PALLOC_MAPS - 1 \<Longrightarrow> ordv (set_order b c (- 1)) (buddy c j) \<noteq> int j"
    using u_pfree_merge_correct [of a p k] inv own n o(3) by auto
  note fr = u_pfree_merge_frame [OF m]
  define a' where "a' = (map_push (set_order b c (int j)) j c)\<lparr>free_pages := free_pages a + 2 ^ k\<rparr>"
  have cn: "c < length (pages b)" and j: "j < PALLOC_MAPS" and lm: "length (maps b) = PALLOC_MAPS"
    using owned_ord(1) [OF binv bown] buddy_invD(1,2) [OF binv] bown by (auto simp: owned_def)
  have eq: "map_push (set_order b c (int j)) j c = map_push (set_order (set_order b c (- 1)) c (int j)) j c"
    using cn by simp
  have "u_pfree_add_pages a p k = Some a'"
    using m cn j lm bfp by (simp add: u_pfree_add_pages_def a'_def map_push_def Let_def)
  moreover have "buddy_inv a'" "free_set a' = free_set a \<union> blk p k"
    using put_in [OF binv bown] bfs by (simp_all add: a'_def eq)
  moreover have "same_pages a a'"
    unfolding a'_def map_push_def using fr by (intro same_pages_intros) simp
  moreover have "coalesced a'" if co: "coalesced a"
  proof -
    have cb: "coalesced b"
      using co fr unfolding coalesced_def by (metis subsetD)
    have fv: "flv a' = (flv b)(j := c # flv b j)"
      using j lm by (simp add: a'_def map_push_def flv_map_upd) (simp add: flv_def)
    have out: "buddy c j \<notin> set (flv b j)" if "j < PALLOC_MAPS - 1"
      using bco [OF that] buddy_invD(6) [OF binv j] by simp
    show ?thesis
      using cb out aligned_pair(8) [of j c] bown
      by (auto simp: coalesced_def fv get_buddy_pn_buddy owned_def) (metis buddy_invol)+
  qed
  ultimately show thesis
    by (intro that [of a']) (auto simp: a'_def)
qed

section \<open>Allocating\<close>

lemma take_last_xs:
  assumes "distinct xs" and "xs \<noteq> []"
  shows "distinct (butlast xs)" and "set (butlast xs) = set xs - {last xs}"
  using assms by (induction xs rule: rev_induct) auto

lemma free_block_facts:
  assumes "buddy_inv a" and "k < PALLOC_MAPS" and "p \<in> set (flv a k)"
  shows "p < page_count a" "ordv a p = int k" "2 ^ k dvd p" "p + 2 ^ k \<le> page_count a"
    "blk p k \<subseteq> free_set a"
proof -
  show p: "p < page_count a" "ordv a p = int k"
    using buddy_invD(6) [OF assms(1,2)] assms(3) by blast+
  then show "2 ^ k dvd p" "p + 2 ^ k \<le> page_count a"
    using buddy_invD(5) [OF assms(1)] unfolding buddy_ok_def by blast+
  show "blk p k \<subseteq> free_set a"
    unfolding free_set_def using free_of_head [where ord = "ordv a", of p "page_count a" k] p by simp
qed

lemma same_pages_owned:
  "same_pages a b \<Longrightarrow> owned b p k \<longleftrightarrow> k < PALLOC_MAPS \<and> 2 ^ k dvd p \<and> p + 2 ^ k \<le> page_count a \<and>
     blk p k \<inter> free_set b = {} \<and> (\<forall>q\<in>blk p k. good_page a q)"
  by (simp add: owned_def same_pages_good same_pagesD(1))

lemma take_last_out:
  assumes inv: "buddy_inv a" and k: "k < PALLOC_MAPS" and ne: "flv a k \<noteq> []"
  defines "p \<equiv> last (flv a k)"
  defines "b \<equiv> map_upd a k (\<lambda>m. m\<lparr>free_list := butlast (free_list m), free_count := free_count m - 1\<rparr>)"
  shows "buddy_inv (set_order b p (- 1))"
    and "free_set (set_order b p (- 1)) = free_set a - blk p k"
    and "flv b = (flv a)(k := butlast (flv a k))"
    and "same_pages a b"
proof -
  have pm: "p \<in> set (flv a k)" using ne by (simp add: p_def)
  note fb = free_block_facts [OF inv k pm]
  note xs = take_last_xs [OF buddy_invD(7) [OF inv k] ne, folded p_def]
  show "buddy_inv (set_order b p (- 1))" "free_set (set_order b p (- 1)) = free_set a - blk p k"
    using take_out [OF inv fb(1,2) k xs] unfolding b_def by (simp_all add: flv_def)
  show "flv b = (flv a)(k := butlast (flv a k))"
    using k buddy_invD(2) [OF inv] by (simp add: b_def flv_map_upd) (simp add: flv_def)
  show "same_pages a b"
    unfolding b_def by (intro same_pages_intros)
qed

lemma halves:
  assumes "2 ^ Suc j dvd p"
  shows "buddy p j = p + 2 ^ j" "blk p (Suc j) = blk p j \<union> blk (p + 2 ^ j) j"
    "2 ^ j dvd p" "2 ^ j dvd p + 2 ^ j"
proof -
  have ev: "even (p div 2 ^ j)" and d: "2 ^ j dvd p"
    using assms by (auto simp: dvd_def)
  then show "2 ^ j dvd p" "2 ^ j dvd p + 2 ^ j" by simp_all
  show "buddy p j = p + 2 ^ j"
    using buddy_eq [OF d] ev by (simp add: buddy_def)
  show "blk p (Suc j) = blk p j \<union> blk (p + 2 ^ j) j" by auto
qed

lemma break_split_correct:
  assumes inv: "buddy_inv a" and k: "Suc j < PALLOC_MAPS" and ne: "flv a (Suc j) \<noteq> []"
  defines "p \<equiv> last (flv a (Suc j))"
  obtains a' where "break_split a (Suc j) = Some a'" "buddy_inv a'" "same_pages a a'"
    "free_set a' = free_set a" "free_pages a' = free_pages a"
    "flv a' = (flv a)(Suc j := butlast (flv a (Suc j)), j := (p + 2 ^ j) # p # flv a j)"
proof -
  let ?b = "map_upd a (Suc j) (\<lambda>m. m\<lparr>free_list := butlast (free_list m), free_count := free_count m - 1\<rparr>)"
  let ?q = "p + 2 ^ j"
  have pm: "p \<in> set (flv a (Suc j))" using ne by (simp add: p_def)
  note fb = free_block_facts [OF inv k pm]
  note to = take_last_out [OF inv k ne, folded p_def]
  note hv = halves [OF fb(3)]
  have len: "length (pages a) = page_count a" using buddy_invD(1) [OF inv] .
  have qn: "?q < page_count a"
    using fb(4) by (rule less_le_trans [rotated]) simp
  have dj: "blk p j \<inter> blk ?q j = {}" by auto
  let ?c0 = "set_order ?b p (- 1)"
  have good: "good_page a r" if "r \<in> blk p (Suc j)" for r
    using buddy_invD(8) [OF inv] fb(5) that by blast
  have o1: "owned ?c0 p j"
    unfolding owned_def to(2) using k hv(2-4) fb(4) good by auto
  let ?c1 = "map_push (set_order ?c0 p (int j)) j p"
  note p1 = put_in [OF to(1) o1]
  have o2: "owned ?c1 ?q j"
    unfolding owned_def p1(2) to(2) using k hv(2-4) fb(4) good dj by (auto simp: map_push_def)
  let ?c2 = "map_push (set_order ?c1 ?q (int j)) j ?q"
  note p2 = put_in [OF p1(1) o2]
  have eq: "?c2 = map_push (map_push (set_order (set_order ?b p (int j)) ?q (int j)) j p) j ?q"
    using fb(1) len by (simp add: map_push_def set_order_map_upd)
  have "break_split a (Suc j) = Some ?c2"
    using ne fb(1) qn len hv(1) buddy_invD(3) [OF inv fb(1)] unfolding eq
    by (simp add: break_split_def p_def flv_def page_from_pn_def get_buddy_pn_buddy Let_def)
  moreover have "free_set ?c2 = free_set a"
    unfolding p2(2) p1(2) to(2) using fb(5) hv(2) by blast
  moreover have "flv ?c2 = (flv a)(Suc j := butlast (flv a (Suc j)), j := ?q # p # flv a j)"
    using k buddy_invD(2) [OF inv] to(3)
    by (simp add: map_push_def flv_map_upd fun_eq_iff) (simp add: flv_def maps_map_upd)
  moreover have "same_pages a ?c2"
    unfolding map_push_def by (intro same_pages_intros)
  ultimately show thesis
    by (intro that [of ?c2] p2(1)) (simp_all add: map_push_def)
qed

definition coalesced_at :: "page_buddy_alloc \<Rightarrow> nat \<Rightarrow> bool" where
  "coalesced_at a k \<longleftrightarrow> (k < PALLOC_MAPS - 1 \<longrightarrow> (\<forall>p\<in>set (flv a k). get_buddy_pn p k \<notin> set (flv a k)))"

lemma coalesced_alt: "coalesced a \<longleftrightarrow> (\<forall>k. coalesced_at a k)"
  by (auto simp: coalesced_def coalesced_at_def)

lemma coalesced_at_mono: "coalesced_at a k \<Longrightarrow> set (flv b k) \<subseteq> set (flv a k) \<Longrightarrow> coalesced_at b k"
  by (auto simp: coalesced_at_def)

lemma coalesced_at_cong: "flv b k = flv a k \<Longrightarrow> coalesced_at b k = coalesced_at a k"
  by (simp add: coalesced_at_def)

lemma coalesced_at_pair:
  "2 ^ Suc k dvd p \<Longrightarrow> flv a k = [p + 2 ^ k] \<Longrightarrow> coalesced_at a k"
  using halves(1) [of k p] buddy_invol [of p k] by (simp add: coalesced_at_def get_buddy_pn_buddy)

text \<open>What \<^verbatim>\<open>break_page(alloc, j + 1)\<close> leaves: a pair of halves on list \<open>j\<close> if a larger block was free.\<close>

definition break_post :: "page_buddy_alloc \<Rightarrow> nat \<Rightarrow> page_buddy_alloc \<Rightarrow> bool" where
  "break_post a j a' \<longleftrightarrow> buddy_inv a' \<and> same_pages a a' \<and>
     free_set a' = free_set a \<and> free_pages a' = free_pages a \<and> (\<forall>i<j. flv a' i = flv a i) \<and>
     (if \<forall>i\<in>{Suc j..<PALLOC_MAPS}. flv a i = [] then a' = a
      else \<exists>p. flv a' j = (p + 2 ^ j) # p # flv a j \<and> 2 ^ Suc j dvd p) \<and>
     ((\<forall>i>j. coalesced_at a i) \<longrightarrow> (\<forall>i>j. coalesced_at a' i))"

lemma break_split_post:
  assumes binv: "buddy_inv b" and j: "Suc j < PALLOC_MAPS" and ne: "flv b (Suc j) \<noteq> []"
    and fr: "same_pages a b" "free_set b = free_set a" "free_pages b = free_pages a"
    and low: "\<And>i. i \<le> j \<Longrightarrow> flv b i = flv a i"
    and some: "\<exists>i\<in>{Suc j..<PALLOC_MAPS}. flv a i \<noteq> []"
    and co: "\<forall>i>j. coalesced_at a i \<Longrightarrow> \<forall>i>Suc j. coalesced_at b i"
    and top: "\<forall>i>j. coalesced_at a i \<Longrightarrow>
       coalesced_at b (Suc j) \<or> (\<exists>p. flv b (Suc j) = [p + 2 ^ Suc j, p] \<and> 2 ^ Suc (Suc j) dvd p)"
  obtains a' where "break_split b (Suc j) = Some a'" and "break_post a j a'"
proof -
  let ?p = "last (flv b (Suc j))"
  obtain a' where a': "break_split b (Suc j) = Some a'" "buddy_inv a'" "same_pages b a'"
    "free_set a' = free_set b" "free_pages a' = free_pages b"
    and fl: "flv a' = (flv b)(Suc j := butlast (flv b (Suc j)), j := (?p + 2 ^ j) # ?p # flv b j)"
    using break_split_correct [OF binv j ne] by blast
  have dv: "2 ^ Suc j dvd ?p"
    using free_block_facts(3) [OF binv j] ne by simp
  have "coalesced_at a' i" if c: "\<forall>i>j. coalesced_at a i" and i: "j < i" for i
  proof (cases "i = Suc j")
    case True
    from top [OF c] show ?thesis
    proof
      assume "coalesced_at b (Suc j)"
      then show ?thesis
        unfolding True by (rule coalesced_at_mono) (auto simp: fl dest: in_set_butlastD)
    next
      assume "\<exists>p. flv b (Suc j) = [p + 2 ^ Suc j, p] \<and> 2 ^ Suc (Suc j) dvd p"
      then obtain p where "flv b (Suc j) = [p + 2 ^ Suc j, p]" "2 ^ Suc (Suc j) dvd p" by blast
      then show ?thesis
        unfolding True by (intro coalesced_at_pair [of "Suc j" p]) (simp_all add: fl)
    qed
  next
    case False
    with i co [OF c] show ?thesis
      by (subst coalesced_at_cong [of a' i b]) (simp_all add: fl)
  qed
  moreover have "same_pages a a'" by (rule same_pages_trans [OF fr(1) a'(3)])
  ultimately have "break_post a j a'"
    using a' fr some dv unfolding break_post_def by (auto simp: fl low simp del: power_Suc)
  with a'(1) show thesis by (rule that)
qed

lemma break_page_correct:
  assumes "buddy_inv a"
  shows "\<exists>a'. break_page a (Suc j) = Some a' \<and> break_post a j a'"
  using assms
proof (induction "PALLOC_MAPS - j" arbitrary: a j rule: less_induct)
  case less
  note inv = less.prems
  show ?case
  proof (cases "Suc j < PALLOC_MAPS")
    case False
    then show ?thesis
      using inv by (simp add: break_page.simps [of a "Suc j"] break_post_def)
  next
    case j: True
    show ?thesis
    proof (cases "flv a (Suc j) = []")
      case ne: False
      then have st: "break_page a (Suc j) = break_split a (Suc j)"
        using j buddy_invD(4) [OF inv j] by (simp add: break_page.simps [of a "Suc j"])
      obtain a' where "break_split a (Suc j) = Some a'" "break_post a j a'"
        by (rule break_split_post [OF inv j ne, of a]) (use ne j in auto)
      then show ?thesis using st by auto
    next
      case em: True
      obtain b where b: "break_page a (Suc (Suc j)) = Some b" and bP: "break_post a (Suc j) b"
        using less.hyps [OF _ inv, of "Suc j"] j by fastforce
      note bD = bP [unfolded break_post_def]
      have st: "break_page a (Suc j) = (if flv b (Suc j) = [] then Some b else break_split b (Suc j))"
        using j em b bD buddy_invD(4) [OF inv j] buddy_invD(4) [of b, OF _ j]
        by (simp add: break_page.simps [of a "Suc j"])
      have rng: "{Suc j..<PALLOC_MAPS} = insert (Suc j) {Suc (Suc j)..<PALLOC_MAPS}"
        using j by auto
      show ?thesis
      proof (cases "\<forall>i\<in>{Suc (Suc j)..<PALLOC_MAPS}. flv a i = []")
        case True
        with bD have "b = a" by simp
        with st em True inv show ?thesis by (simp add: break_post_def rng)
      next
        case False
        then obtain p where p: "flv b (Suc j) = [p + 2 ^ Suc j, p]" "2 ^ Suc (Suc j) dvd p"
          using bD unfolding if_not_P [OF False] em by blast
        obtain a' where "break_split b (Suc j) = Some a'" "break_post a j a'"
          by (rule break_split_post [of b j a]) (use bD j p False in \<open>auto simp: rng simp del: power_Suc\<close>)
        then show ?thesis using st p by auto
      qed
    qed
  qed
qed

section \<open>The allocation and free operations\<close>

text \<open>A block that is handed out: its first page carries the only reference.\<close>

definition allocated :: "page_buddy_alloc \<Rightarrow> nat \<Rightarrow> nat \<Rightarrow> bool" where
  "allocated a p k \<longleftrightarrow>
     k < PALLOC_MAPS \<and> 2 ^ k dvd p \<and> p + 2 ^ k \<le> page_count a \<and> blk p k \<inter> free_set a = {} \<and>
     use_count (pages a ! p) = 1 \<and> \<not> bit (pg_flags (pages a ! p)) PG_INVALID \<and>
     (\<forall>q\<in>blk p k - {p}. good_page a q)"

lemma count_upd_sel [simp]:
  "length (pages (atomic_add a p g)) = length (pages a)" "maps (atomic_add a p g) = maps a"
  "page_count (atomic_add a p g) = page_count a" "free_pages (atomic_add a p g) = free_pages a"
  "flv (atomic_add a p g) = flv a" "ordv (atomic_add a p g) = ordv a"
  "pg_flags (pages (atomic_add a p g) ! q) = pg_flags (pages a ! q)"
  "page_number (pages (atomic_add a p g) ! q) = page_number (pages a ! q)"
  "pg_virt (pages (atomic_add a p g) ! q) = pg_virt (pages a ! q)"
  by (simp_all add: atomic_add_def ordv_def pages_page_upd fun_eq_iff)

lemma count_upd_view [simp]:
  "free_set (atomic_add a p g) = free_set a" "coalesced (atomic_add a p g) = coalesced a"
  by (simp_all add: free_set_def coalesced_def)

lemma use_count_atomic_add:
  "use_count (pages (atomic_add a p i) ! q) =
     (if q = p \<and> p < length (pages a) then use_count (pages a ! p) + i else use_count (pages a ! q))"
  by (simp add: atomic_add_def pages_page_upd)

lemma good_page_count_upd: "q \<noteq> p \<Longrightarrow> good_page (atomic_add a p i) q = good_page a q"
  by (simp add: good_page_def use_count_atomic_add)

lemma buddy_inv_count_upd:
  assumes "buddy_inv a" and "p \<notin> free_set a"
  shows "buddy_inv (atomic_add a p i)"
proof -
  have "good_page (atomic_add a p i) q" if "q \<in> free_set a" for q
    using assms that buddy_invD(8) [OF assms(1) that] by (metis good_page_count_upd)
  then show ?thesis
    using assms(1) unfolding buddy_inv_def by (simp add: pages_page_upd)
qed

lemma card_blk: "card (blk p k) = 2 ^ k" by simp

lemma free_pages_remove:
  assumes "buddy_wf a" and "blk p k \<subseteq> free_set a"
  shows "free_pages a - 2 ^ k = int (card (free_set a - blk p k))"
proof -
  have fin: "finite (free_set a)"
    using assms(1) finite_free_of buddy_invD(5) unfolding buddy_wf_def free_set_def by metis
  have "2 ^ k \<le> card (free_set a)"
    using card_mono [OF fin assms(2)] by simp
  then show ?thesis
    using assms by (simp add: buddy_wf_def card_Diff_subset of_nat_diff)
qed

lemma free_pages_add:
  assumes "buddy_wf a" and "blk p k \<inter> free_set a = {}"
  shows "free_pages a + 2 ^ k = int (card (free_set a \<union> blk p k))"
proof -
  have "finite (free_set a)"
    using assms(1) finite_free_of buddy_invD(5) unfolding buddy_wf_def free_set_def by metis
  then show ?thesis
    using assms by (simp add: buddy_wf_def card_Un_disjoint Int_commute)
qed

text \<open>Taking the last block of a list that has one, as \<^verbatim>\<open>__palloc_phys_multiple\<close> does after the split.\<close>

definition take_block :: "page_buddy_alloc \<Rightarrow> nat \<Rightarrow> nat \<Rightarrow> page_buddy_alloc" where
  "take_block a k p =
     (let b = map_upd a k (\<lambda>m. m\<lparr>free_list := butlast (free_list m), free_count := free_count m - 1\<rparr>)
      in atomic_add ((set_order b p (- 1))\<lparr>free_pages := free_pages a - 2 ^ k\<rparr>) p 1)"

lemma palloc_take_nonempty:
  assumes inv: "buddy_inv b" and k: "k < PALLOC_MAPS" and ne: "flv b k \<noteq> []"
    and br: "(if free_count (maps a ! k) = 0 then break_page a (k + 1) else Some a) = Some b"
    and lm: "length (maps a) = PALLOC_MAPS"
  shows "palloc_take a k = Some (Page (last (flv b k)), take_block b k (last (flv b k)))"
proof -
  have m: "last (flv b k) \<in> set (flv b k)" using ne by simp
  note fb = free_block_facts [OF inv k m]
  have "free_count (maps b ! k) \<noteq> 0" "free_list (maps b ! k) \<noteq> []"
    using buddy_invD(4) [OF inv k] ne by (simp_all add: flv_def)
  then show ?thesis
    using br k lm fb(1) buddy_invD(1) [OF inv] buddy_invD(3) [OF inv fb(1)]
    by (simp add: palloc_take_def take_block_def flv_def page_from_pn_def Let_def)
qed

lemma take_block_correct:
  assumes wf: "buddy_wf b" and k: "k < PALLOC_MAPS" and ne: "flv b k \<noteq> []"
  defines "p \<equiv> last (flv b k)"
  shows "buddy_wf (take_block b k p)" and "free_set (take_block b k p) = free_set b - blk p k"
    and "allocated (take_block b k p) p k" and "flv (take_block b k p) = (flv b)(k := butlast (flv b k))"
    and "same_pages b (atomic_add (take_block b k p) p (- 1))"
proof -
  have inv: "buddy_inv b" using wf by (simp add: buddy_wf_def)
  have m: "p \<in> set (flv b k)" using ne by (simp add: p_def)
  note fb = free_block_facts [OF inv k m]
  note to = take_last_out [OF inv k ne, folded p_def]
  have len: "length (pages b) = page_count b" using buddy_invD(1) [OF inv] .
  show fs: "free_set (take_block b k p) = free_set b - blk p k"
    by (simp add: take_block_def to(2) Let_def)
  show "flv (take_block b k p) = (flv b)(k := butlast (flv b k))"
    by (simp add: take_block_def to(3) Let_def)
  have "buddy_inv (take_block b k p)"
    unfolding take_block_def Let_def by (rule buddy_inv_count_upd) (simp_all add: to(1,2))
  then show "buddy_wf (take_block b k p)"
    using free_pages_remove [OF wf fb(5)] by (simp add: buddy_wf_def fs) (simp add: take_block_def Let_def)
  have gp: "good_page b q" if "q \<in> blk p k" for q
    using buddy_invD(8) [OF inv] fb(5) that by blast
  have cnt: "page_count (take_block b k p) = page_count b"
    by (simp add: take_block_def Let_def)
  have "good_page (take_block b k p) q" if "q \<in> blk p k - {p}" for q
    using gp that by (simp add: take_block_def Let_def good_page_count_upd)
  moreover have "use_count (pages (take_block b k p) ! p) = 1"
    "\<not> bit (pg_flags (pages (take_block b k p) ! p)) PG_INVALID"
    using gp [of p] fb(1) len by (auto simp: good_page_def take_block_def Let_def use_count_atomic_add)
  ultimately show "allocated (take_block b k p) p k"
    using k fb(3,4) by (auto simp: allocated_def fs cnt)
  have eq: "atomic_add (take_block b k p) p (- 1) =
     (set_order (map_upd b k (\<lambda>m. m\<lparr>free_list := butlast (free_list m), free_count := free_count m - 1\<rparr>)) p (- 1))
       \<lparr>free_pages := free_pages b - 2 ^ k\<rparr>"
    using fb(1) len by (simp add: take_block_def Let_def page_upd_def set_order_def atomic_add_def)
  show "same_pages b (atomic_add (take_block b k p) p (- 1))"
    unfolding eq by (intro same_pages_intros)
qed

text \<open>What an allocation or free may change of the pages: orders, and the count of the block's head.\<close>

definition same_but :: "nat \<Rightarrow> page_buddy_alloc \<Rightarrow> page_buddy_alloc \<Rightarrow> bool" where
  "same_but p a b \<longleftrightarrow> page_count b = page_count a \<and> length (pages b) = length (pages a) \<and>
     (\<forall>q. page_number (pages b ! q) = page_number (pages a ! q) \<and> pg_virt (pages b ! q) = pg_virt (pages a ! q) \<and>
          pg_flags (pages b ! q) = pg_flags (pages a ! q) \<and>
          (q \<noteq> p \<longrightarrow> use_count (pages b ! q) = use_count (pages a ! q)))"

lemma same_but_good: "same_but p a b \<Longrightarrow> q \<noteq> p \<Longrightarrow> good_page b q = good_page a q"
  by (simp add: same_but_def good_page_def)

lemma same_pages_add_same_but:
  assumes "same_pages a (atomic_add b p i)"
  shows "same_but p a b"
proof -
  have "use_count (pages b ! q) = use_count (pages a ! q)" if "q \<noteq> p" for q
    using same_pagesD(3) [OF assms, of q] that by (simp add: use_count_atomic_add)
  then show ?thesis
    using same_pagesD [OF assms] by (simp add: same_but_def)
qed

lemma allocated_frame:
  assumes "allocated a q j" and "same_but p a b" and "p \<notin> blk q j" and "blk q j \<inter> free_set b = {}"
  shows "allocated b q j"
proof -
  have ne: "r \<noteq> p" if "r \<in> blk q j" for r using assms(3) that by blast
  have q: "q \<in> blk q j" by simp
  have "good_page b r" if "r \<in> blk q j - {q}" for r
    using assms(1) that same_but_good [OF assms(2) ne, of r] unfolding allocated_def by blast
  then show ?thesis
    using assms ne [OF q] unfolding allocated_def same_but_def by simp
qed

theorem palloc_take_correct:
  assumes wf: "buddy_wf a" and k: "k < PALLOC_MAPS" and ex: "\<exists>i\<in>{k..<PALLOC_MAPS}. flv a i \<noteq> []"
  obtains p a' where "palloc_take a k = Some (Page p, a')" "buddy_wf a'" "allocated a' p k"
    "blk p k \<subseteq> free_set a" "free_set a' = free_set a - blk p k" "same_but p a a'"
    "coalesced a \<Longrightarrow> coalesced a'"
proof -
  have inv: "buddy_inv a" and lm: "length (maps a) = PALLOC_MAPS"
    using wf buddy_invD(2) by (auto simp: buddy_wf_def)
  have rng: "{k..<PALLOC_MAPS} = insert k {Suc k..<PALLOC_MAPS}" using k by auto
  obtain b where br: "(if free_count (maps a ! k) = 0 then break_page a (k + 1) else Some a) = Some b"
    and b: "buddy_inv b" "same_pages a b" "free_set b = free_set a" "free_pages b = free_pages a"
    and ne: "flv b k \<noteq> []"
    and co: "coalesced a \<Longrightarrow> \<forall>i. coalesced_at (take_block b k (last (flv b k))) i"
  proof (cases "flv a k = []")
    case False
    have "coalesced_at (take_block a k (last (flv a k))) i" if "coalesced a" for i
      by (rule coalesced_at_mono [of a])
        (use that in \<open>auto simp: coalesced_alt take_block_correct(4) [OF wf k False] dest: in_set_butlastD\<close>)
    with False inv buddy_invD(4) [OF inv k] show thesis
      by (intro that [of a]) auto
  next
    case True
    obtain b where bp: "break_page a (Suc k) = Some b" and bP: "break_post a k b"
      using break_page_correct [OF inv] by blast
    have "\<not> (\<forall>i\<in>{Suc k..<PALLOC_MAPS}. flv a i = [])" using ex True by (auto simp: rng)
    then obtain p where p: "flv b k = [p + 2 ^ k, p]" "2 ^ Suc k dvd p"
      using bP True unfolding break_post_def by (metis (mono_tags, lifting))
    have bw: "buddy_wf b" using wf bP by (auto simp: break_post_def buddy_wf_def)
    have ne: "flv b k \<noteq> []" using p by simp
    note fl = take_block_correct(4) [OF bw k ne]
    have "coalesced_at (take_block b k (last (flv b k))) i" if c: "coalesced a" for i
    proof (cases i k rule: linorder_cases)
      case less
      with bP c show ?thesis
        by (subst coalesced_at_cong [of _ i a]) (auto simp: fl break_post_def coalesced_alt)
    next
      case equal
      with p fl show ?thesis by (intro coalesced_at_pair [of i p]) simp_all
    next
      case greater
      with bP c show ?thesis
        by (subst coalesced_at_cong [of _ i b]) (auto simp: fl break_post_def coalesced_alt)
    qed
    with True bp bP ne buddy_invD(4) [OF inv k] show thesis
      by (intro that [of b]) (auto simp: break_post_def)
  qed
  have bw: "buddy_wf b" using wf b by (simp add: buddy_wf_def)
  let ?p = "last (flv b k)" and ?a = "take_block b k (last (flv b k))"
  note tb = take_block_correct [OF bw k ne]
  have "blk ?p k \<subseteq> free_set a"
    using free_block_facts(5) [OF b(1) k] ne b(3) by simp
  moreover have "same_but ?p a ?a"
    by (rule same_pages_add_same_but [OF same_pages_trans [OF b(2) tb(5)]])
  ultimately show thesis
    using palloc_take_nonempty [OF b(1) k ne br lm] tb b(3) co
    by (intro that [of ?p ?a]) (auto simp: coalesced_alt)
qed

lemma palloc_take_none:
  assumes "buddy_wf a" and k: "k < PALLOC_MAPS" and em: "\<forall>i\<in>{k..<PALLOC_MAPS}. flv a i = []"
  shows "palloc_take a k = Some (NoPage, a)"
proof -
  have inv: "buddy_inv a" and lm: "length (maps a) = PALLOC_MAPS"
    using assms(1) buddy_invD(2) by (auto simp: buddy_wf_def)
  obtain b where "break_page a (Suc k) = Some b" "break_post a k b"
    using break_page_correct [OF inv] by blast
  then have "break_page a (Suc k) = Some a"
    using em by (auto simp: break_post_def)
  moreover have "free_count (maps a ! k) = 0"
    using buddy_invD(4) [OF inv k] em k by simp
  ultimately show ?thesis
    using lm k by (simp add: palloc_take_def)
qed

lemma map_wait_upd:
  assumes "\<And>m. free_list (f m) = free_list m" and "\<And>m. free_count (f m) = free_count m"
  shows "flv (map_upd a k f) = flv a" and "buddy_inv (map_upd a k f) = buddy_inv a"
proof -
  show fl: "flv (map_upd a k f) = flv a"
    by (auto simp: flv_def maps_map_upd assms fun_eq_iff)
  show "buddy_inv (map_upd a k f) = buddy_inv a"
    unfolding buddy_inv_def by (auto simp: fl maps_map_upd assms split: if_splits)
qed

lemma wake_maps_frame [simp]:
  "pages (wake_maps a k) = pages a" "page_count (wake_maps a k) = page_count a"
  "free_pages (wake_maps a k) = free_pages a" "flv (wake_maps a k) = flv a"
  "ordv (wake_maps a k) = ordv a" "good_page (wake_maps a k) = good_page a"
  "buddy_inv (wake_maps a k) = buddy_inv a"
  by (induction k) (simp_all add: map_wait_upd)

lemma wake_maps_wf [simp]:
  "free_set (wake_maps a k) = free_set a" "buddy_wf (wake_maps a k) = buddy_wf a"
  "coalesced (wake_maps a k) = coalesced a"
  by (simp_all add: free_set_def buddy_wf_def coalesced_def)

lemma wake_maps_wakes: "i \<le> k \<Longrightarrow> k < length (maps a) \<Longrightarrow> wait_for_free (maps (wake_maps a k) ! i) = []"
proof (induction k)
  case 0
  then show ?case by (simp add: maps_map_upd)
next
  case (Suc k)
  have "length (maps (wake_maps a k)) = length (maps a)" by (induction k) simp_all
  with Suc show ?case by (auto simp: maps_map_upd le_Suc_eq)
qed

lemma allocated_owned:
  assumes inv: "buddy_inv a" and al: "allocated a p k"
  shows "p < page_count a" and "owned (atomic_add a p (- 1)) p k"
    and "buddy_inv (atomic_add a p (- 1))"
proof -
  have p: "p \<in> blk p k" by simp
  then have out: "p \<notin> free_set a" using al unfolding allocated_def by blast
  have "(0::nat) < 2 ^ k" by simp
  then show pn: "p < page_count a" using al unfolding allocated_def by linarith
  have "good_page (atomic_add a p (- 1)) q" if "q \<in> blk p k" for q
  proof (cases "q = p")
    case True
    with al pn buddy_invD(1) [OF inv] show ?thesis
      by (simp add: allocated_def good_page_def use_count_atomic_add)
  next
    case False
    with al that show ?thesis
      by (simp add: allocated_def good_page_count_upd)
  qed
  then show "owned (atomic_add a p (- 1)) p k"
    using al by (simp add: allocated_def owned_def)
  show "buddy_inv (atomic_add a p (- 1))"
    by (rule buddy_inv_count_upd [OF inv out])
qed

theorem pfree_correct:
  assumes wf: "buddy_wf a" and al: "allocated a p k" and n: "32 dvd page_count a"
    and ki: "\<not> in_kernel ki (PN_TO_PA (of_nat p))"
  obtains a' where "pfree ki a (Some p) k = Some a'" "buddy_wf a'" "same_but p a a'"
    "free_set a' = free_set a \<union> blk p k" "coalesced a \<Longrightarrow> coalesced a'"
    "\<forall>i\<le>k. wait_for_free (maps a' ! i) = []"
proof -
  have inv: "buddy_inv a" using wf by (simp add: buddy_wf_def)
  note ow = allocated_owned [OF inv al]
  let ?a = "atomic_add a p (- 1)"
  obtain b where b: "u_pfree_add_pages ?a p k = Some b" "buddy_inv b" "same_pages ?a b"
    "free_set b = free_set a \<union> blk p k" "free_pages b = free_pages a + 2 ^ k"
    "coalesced a \<Longrightarrow> coalesced b"
    using u_pfree_add_pages_correct [OF ow(3,2)] n by auto
  have wb: "buddy_wf b"
    using b free_pages_add [OF wf, of p k] al by (simp add: buddy_wf_def allocated_def)
  have len: "length (pages a) = page_count a" and num: "page_number (pages a ! p) = p"
    using buddy_invD(1) [OF inv] buddy_invD(3) [OF inv ow(1)] .
  have "pfree ki a (Some p) k = Some (wake_maps b k)"
    using ow(1) len num ki al b(1)
    by (simp add: pfree_def page_from_pn_def page_to_pa_def allocated_def Let_def)
  moreover have "same_but p a (wake_maps b k)"
  proof -
    have "use_count (pages b ! q) = use_count (pages a ! q)" if "q \<noteq> p" for q
      using same_pagesD(3) [OF b(3), of q] that by (simp add: use_count_atomic_add)
    then show ?thesis using same_pagesD [OF b(3)] by (simp add: same_but_def)
  qed
  moreover have "\<forall>i\<le>k. wait_for_free (maps (wake_maps b k) ! i) = []"
    using wake_maps_wakes buddy_invD(2) [OF b(2)] al by (simp add: allocated_def)
  ultimately show thesis
    using wb b by (intro that [of "wake_maps b k"]) auto
qed

end
