(* ===== verification/PallocRun.thy ===== *)
theory PallocRun
  imports PallocCorrect
begin

text \<open>
  The buddy allocator over its lifetime: what \<^verbatim>\<open>palloc_init\<close> establishes, the states that boot,
  \<^verbatim>\<open>palloc\<close> and \<^verbatim>\<open>pfree\<close> can reach, and the contract other components rely on when they take
  blocks of pages from it (locale \<open>page_provider\<close>).
\<close>

section \<open>Initialisation\<close>

lemma palloc_init_loop_eq:
  "palloc_init_loop mem (int n) = (\<lambda>i. if - 1 \<le> i \<and> i < int n then page_init_entry (mem i) i else mem i)"
proof (induction n arbitrary: mem)
  case 0
  show ?case
    by (auto simp: palloc_init_loop.simps [of mem 0] palloc_init_loop.simps [of _ "- 1"] Let_def fun_eq_iff)
next
  case (Suc n)
  have "palloc_init_loop mem (int (Suc n)) = palloc_init_loop (mem(int n := page_init_entry (mem (int n)) (int n))) (int n)"
    by (subst palloc_init_loop.simps) (simp add: Let_def)
  then show ?case
    unfolding Suc.IH by (auto simp: fun_eq_iff)
qed

lemma palloc_init_pages:
  "i < n \<Longrightarrow> pages (fst (palloc_init mem n)) ! i = page_init_entry zero_page (int i)"
  by (simp add: palloc_init_def Let_def palloc_init_loop_eq)

lemma palloc_init_sel [simp]:
  "page_count (fst (palloc_init mem n)) = n" "length (pages (fst (palloc_init mem n))) = n"
  "maps (fst (palloc_init mem n)) = replicate PALLOC_MAPS empty_map"
  "free_pages (fst (palloc_init mem n)) = 0"
  by (simp_all add: palloc_init_def Let_def)

lemma palloc_init_wf:
  assumes "n \<le> 2 ^ 20"
  shows "buddy_wf (fst (palloc_init mem n))" and "free_set (fst (palloc_init mem n)) = {}"
    and "coalesced (fst (palloc_init mem n))"
proof -
  let ?a = "fst (palloc_init mem n)"
  have o: "ordv ?a p = - 1" if "p < n" for p
    using that by (simp add: ordv_def palloc_init_pages page_init_entry_def)
  have f: "flv ?a k = []" if "k < PALLOC_MAPS" for k
    using that by (simp add: flv_def empty_map_def)
  have num: "page_number (pages ?a ! p) = p" if "p < n" for p
  proof -
    have "int p < 2 ^ 32" using that assms by simp
    then show ?thesis
      using that by (simp add: palloc_init_pages page_init_entry_def)
  qed
  show fs: "free_set ?a = {}"
    unfolding free_set_def by (auto simp: free_of_def o)
  have "buddy_ok n (ordv ?a) (flv ?a)"
    unfolding buddy_ok_def using o f by (auto dest: o)
  then show "buddy_wf ?a"
    using num by (simp add: buddy_wf_def buddy_inv_def fs empty_map_def)
  show "coalesced ?a"
    by (auto simp: coalesced_def f)
qed

text \<open>Boot hands a page over by clearing its invalid flag (\<^verbatim>\<open>bootmem_setup_palloc\<close>).\<close>

definition clear_invalid :: "page_buddy_alloc \<Rightarrow> nat \<Rightarrow> page_buddy_alloc" where
  "clear_invalid a pn = page_upd a pn (\<lambda>p. p\<lparr>pg_flags := unset_bit PG_INVALID (pg_flags p)\<rparr>)"

section \<open>Reachable states\<close>

text \<open>
  A run of the allocator: boot frees pages that are still invalid, or only clears the flag of pages
  it cannot map, callers allocate blocks and free
  blocks they hold. The ghost component is the set of blocks handed out. The out-of-memory routines
  only release blocks, so in a run they are free steps before the allocation.
\<close>

inductive buddy_run :: "kern_image \<Rightarrow> page_buddy_alloc \<Rightarrow> (nat \<times> nat) set \<Rightarrow> bool" for ki where
  init: "32 dvd n \<Longrightarrow> n \<le> 2 ^ 20 \<Longrightarrow> buddy_run ki (fst (palloc_init mem n)) {}"
| boot: "buddy_run ki a L \<Longrightarrow> unat (PA_TO_PN pa) < page_count a \<Longrightarrow>
     bit (pg_flags (pages a ! unat (PA_TO_PN pa))) PG_INVALID \<Longrightarrow> \<not> in_kernel ki pa \<Longrightarrow>
     4096 dvd unat pa \<Longrightarrow> pa < V2P KMAP_START \<Longrightarrow> pa \<noteq> 0 \<Longrightarrow>
     u_mark_page_free ki (clear_invalid a (unat (PA_TO_PN pa))) pa = Some a' \<Longrightarrow> buddy_run ki a' L"
| high: "buddy_run ki a L \<Longrightarrow> p < page_count a \<Longrightarrow> bit (pg_flags (pages a ! p)) PG_INVALID \<Longrightarrow>
     buddy_run ki (clear_invalid a p) L"
| alloc: "buddy_run ki a L \<Longrightarrow> k < PALLOC_MAPS \<Longrightarrow>
     palloc (\<lambda>a. a) me a k flags = Some (Page p, a') \<Longrightarrow> buddy_run ki a' (insert (p, k) L)"
| sleep: "buddy_run ki a L \<Longrightarrow> k < PALLOC_MAPS \<Longrightarrow>
     palloc (\<lambda>a. a) me a k flags = Some (Sleeping, a') \<Longrightarrow> buddy_run ki a' L"
| free: "buddy_run ki a L \<Longrightarrow> (p, k) \<in> L \<Longrightarrow> \<not> in_kernel ki (PN_TO_PA (of_nat p)) \<Longrightarrow>
     pfree ki a (Some p) k = Some a' \<Longrightarrow> buddy_run ki a' (L - {(p, k)})"

definition run_inv :: "page_buddy_alloc \<Rightarrow> (nat \<times> nat) set \<Rightarrow> bool" where
  "run_inv a L \<longleftrightarrow>
     32 dvd page_count a \<and> buddy_wf a \<and> coalesced a \<and>
     (\<forall>(p, k)\<in>L. allocated a p k) \<and>
     (\<forall>x\<in>L. \<forall>y\<in>L. x \<noteq> y \<longrightarrow> blk (fst x) (snd x) \<inter> blk (fst y) (snd y) = {}) \<and>
     (\<forall>p<page_count a. bit (pg_flags (pages a ! p)) PG_INVALID \<longrightarrow> use_count (pages a ! p) = 0)"

lemma run_inv_init: "32 dvd n \<Longrightarrow> n \<le> 2 ^ 20 \<Longrightarrow> run_inv (fst (palloc_init mem n)) {}"
  using palloc_init_wf by (simp add: run_inv_def palloc_init_pages page_init_entry_def zero_page_def)

lemma run_inv_valid:
  assumes "run_inv a L" and "(q, j) \<in> L" and "r \<in> blk q j"
  shows "\<not> bit (pg_flags (pages a ! r)) PG_INVALID"
proof -
  have "allocated a q j" using assms(1,2) by (auto simp: run_inv_def)
  then show ?thesis
    using assms(3) by (cases "r = q") (auto simp: allocated_def good_page_def)
qed

lemma clear_invalid_sel:
  "page_count (clear_invalid a p) = page_count a" "free_pages (clear_invalid a p) = free_pages a"
  "maps (clear_invalid a p) = maps a" "flv (clear_invalid a p) = flv a"
  "ordv (clear_invalid a p) = ordv a" "free_set (clear_invalid a p) = free_set a"
  "length (pages (clear_invalid a p)) = length (pages a)"
  "page_number (pages (clear_invalid a p) ! q) = page_number (pages a ! q)"
  "use_count (pages (clear_invalid a p) ! q) = use_count (pages a ! q)"
  "coalesced (clear_invalid a p) = coalesced a"
proof -
  show o: "ordv (clear_invalid a p) = ordv a"
    by (simp add: clear_invalid_def ordv_def pages_page_upd fun_eq_iff)
  show "page_count (clear_invalid a p) = page_count a" by (simp add: clear_invalid_def)
  then show "free_set (clear_invalid a p) = free_set a" by (simp add: free_set_def o)
qed (simp_all add: clear_invalid_def pages_page_upd coalesced_def)

lemma flags_clear_invalid:
  "pg_flags (pages (clear_invalid a p) ! q) =
     (if q = p \<and> p < length (pages a) then unset_bit PG_INVALID (pg_flags (pages a ! p)) else pg_flags (pages a ! q))"
  by (simp add: clear_invalid_def pages_page_upd)

lemma clear_invalid_good: "q \<noteq> p \<Longrightarrow> good_page (clear_invalid a p) q = good_page a q"
  by (simp add: good_page_def clear_invalid_sel flags_clear_invalid)

lemma boot_owned:
  assumes inv: "run_inv a L" and p: "p < page_count a" "bit (pg_flags (pages a ! p)) PG_INVALID"
  shows "buddy_inv (clear_invalid a p)" and "owned (clear_invalid a p) p 0" and "p \<notin> free_set a"
proof -
  have bi: "buddy_inv a" and uc: "use_count (pages a ! p) = 0"
    using inv p by (auto simp: run_inv_def buddy_wf_def)
  show out: "p \<notin> free_set a"
    using buddy_invD(8) [OF bi] p by (auto simp: good_page_def)
  have len: "length (pages a) = page_count a" using buddy_invD(1) [OF bi] .
  have "good_page (clear_invalid a p) p"
    using uc p len by (simp add: good_page_def clear_invalid_sel flags_clear_invalid bit_unset_bit_iff)
  then show "owned (clear_invalid a p) p 0"
    using out p by (simp add: owned_def clear_invalid_sel atLeastLessThanSuc)
  have "good_page (clear_invalid a p) q" if "q \<in> free_set a" for q
    using that out buddy_invD(8) [OF bi that] by (metis clear_invalid_good)
  then show "buddy_inv (clear_invalid a p)"
    using bi unfolding buddy_inv_def by (simp add: clear_invalid_sel)
qed

lemma run_inv_boot:
  assumes inv: "run_inv a L" and p: "unat (PA_TO_PN pa) < page_count a"
    "bit (pg_flags (pages a ! unat (PA_TO_PN pa))) PG_INVALID" and ki: "\<not> in_kernel ki pa"
    and st: "u_mark_page_free ki (clear_invalid a (unat (PA_TO_PN pa))) pa = Some a'"
  shows "run_inv a' L"
proof -
  let ?p = "unat (PA_TO_PN pa)" and ?a = "clear_invalid a (unat (PA_TO_PN pa))"
  note bo = boot_owned [OF inv p]
  have wf: "buddy_wf a" and n: "32 dvd page_count a" using inv by (auto simp: run_inv_def)
  have len: "length (pages a) = page_count a"
    using wf buddy_invD(1) by (simp add: buddy_wf_def)
  obtain b where b: "u_pfree_add_pages ?a ?p 0 = Some b" "buddy_inv b" "same_pages ?a b"
    "free_set b = free_set a \<union> blk ?p 0" "free_pages b = free_pages a + 2 ^ 0" "coalesced a \<Longrightarrow> coalesced b"
    using u_pfree_add_pages_correct [OF bo(1,2)] n by (auto simp: clear_invalid_sel)
  have [simp]: "a' = b" using st ki b(1) by (simp add: u_mark_page_free_def)
  have wb: "buddy_wf b"
    using b free_pages_add [OF wf, of ?p 0] bo(3) by (simp add: buddy_wf_def)
  note sp = same_pagesD [OF b(3)]
  have al: "allocated b q j" if qj: "(q, j) \<in> L" for q j
  proof -
    have aq: "allocated a q j" using inv qj by (auto simp: run_inv_def)
    have np: "?p \<notin> blk q j" using run_inv_valid [OF inv qj] p(2) by blast
    then have "q \<noteq> ?p" by force
    moreover have "good_page b r" if "r \<in> blk q j - {q}" for r
    proof -
      have "r \<noteq> ?p" and "good_page a r" using that np aq by (auto simp: allocated_def)
      then show ?thesis
        using same_pages_good [OF b(3)] clear_invalid_good by simp
    qed
    ultimately show ?thesis
      using aq np b(4) by (auto simp: allocated_def sp clear_invalid_sel flags_clear_invalid)
  qed
  have "use_count (pages b ! q) = 0" if "q < page_count a" "bit (pg_flags (pages b ! q)) PG_INVALID" for q
    using that inv by (auto simp: run_inv_def sp clear_invalid_sel flags_clear_invalid bit_unset_bit_iff
        split: if_splits)
  with inv wb b(6) al show ?thesis
    by (auto simp: run_inv_def sp clear_invalid_sel)
qed

lemma run_inv_high:
  assumes inv: "run_inv a L" and p: "p < page_count a" "bit (pg_flags (pages a ! p)) PG_INVALID"
  shows "run_inv (clear_invalid a p) L"
proof -
  note bo = boot_owned [OF inv p]
  have wf: "buddy_wf (clear_invalid a p)"
    using bo(1) inv by (simp add: run_inv_def buddy_wf_def clear_invalid_sel)
  have al: "allocated (clear_invalid a p) q j" if qj: "(q, j) \<in> L" for q j
  proof -
    have aq: "allocated a q j" using inv qj by (auto simp: run_inv_def)
    have np: "p \<notin> blk q j" using run_inv_valid [OF inv qj] p(2) by blast
    then have "q \<noteq> p" by force
    moreover have "good_page (clear_invalid a p) r" if "r \<in> blk q j - {q}" for r
      using that np aq clear_invalid_good [of r p a] by (auto simp: allocated_def)
    ultimately show ?thesis
      using aq by (simp add: allocated_def clear_invalid_sel flags_clear_invalid)
  qed
  have "use_count (pages a ! q) = 0" if "q < page_count a" "bit (pg_flags (pages (clear_invalid a p) ! q)) PG_INVALID" for q
    using that inv by (auto simp: run_inv_def flags_clear_invalid bit_unset_bit_iff split: if_splits)
  with inv wf al show ?thesis
    by (auto simp: run_inv_def clear_invalid_sel)
qed

lemma run_inv_alloc:
  assumes inv: "run_inv a L" and tk: "palloc_take a k = Some (Page p, a')" and k: "k < PALLOC_MAPS"
  shows "run_inv a' (insert (p, k) L)" and "blk p k \<subseteq> free_set a" and "(p, k) \<notin> L"
proof -
  have wf: "buddy_wf a" using inv by (simp add: run_inv_def)
  then have "\<exists>i\<in>{k..<PALLOC_MAPS}. flv a i \<noteq> []"
    using palloc_take_none [OF _ k, of a] tk by auto
  then obtain p' b where b: "palloc_take a k = Some (Page p', b)" "buddy_wf b" "allocated b p' k"
    "blk p' k \<subseteq> free_set a" "free_set b = free_set a - blk p' k" "same_but p' a b" "coalesced a \<Longrightarrow> coalesced b"
    using palloc_take_correct [OF wf k] by blast
  have [simp]: "p' = p" "b = a'" using b(1) tk by auto
  have sep: "blk q j \<inter> free_set a = {}" if "(q, j) \<in> L" for q j
    using inv that by (auto simp: run_inv_def allocated_def)
  show sub: "blk p k \<subseteq> free_set a" using b(4) by simp
  have pm: "p \<in> blk p k" by simp
  have al: "allocated a' q j" if "(q, j) \<in> L" for q j
  proof (rule allocated_frame [of a q j p])
    show "allocated a q j" using inv that by (auto simp: run_inv_def)
    show "p \<notin> blk q j" using sep [OF that] sub pm by blast
    show "blk q j \<inter> free_set a' = {}" using sep [OF that] b(5) by auto
  qed (use b(6) in simp)
  show "(p, k) \<notin> L" using sep [of p k] sub pm by blast
  have dj: "blk p k \<inter> blk (fst x) (snd x) = {}" if "x \<in> L" for x
  proof -
    have "(fst x, snd x) \<in> L" using that by simp
    from sep [OF this] sub show ?thesis by blast
  qed
  have uc: "use_count (pages a' ! q) = 0" if "q < page_count a" "bit (pg_flags (pages a' ! q)) PG_INVALID" for q
  proof -
    have "q \<noteq> p" using that b(3) by (auto simp: allocated_def)
    then show ?thesis using that b(6) inv by (auto simp: run_inv_def same_but_def)
  qed
  have "page_count a' = page_count a" using b(6) by (simp add: same_but_def)
  then show "run_inv a' (insert (p, k) L)"
    using inv b al dj uc by (auto simp: run_inv_def)
qed

lemma run_inv_free:
  assumes inv: "run_inv a L" and pk: "(p, k) \<in> L" and ki: "\<not> in_kernel ki (PN_TO_PA (of_nat p))"
    and st: "pfree ki a (Some p) k = Some a'"
  shows "run_inv a' (L - {(p, k)})" and "free_set a' = free_set a \<union> blk p k"
proof -
  have wf: "buddy_wf a" and al: "allocated a p k" and n: "32 dvd page_count a"
    using inv pk by (auto simp: run_inv_def)
  obtain b where b: "pfree ki a (Some p) k = Some b" "buddy_wf b" "same_but p a b"
    "free_set b = free_set a \<union> blk p k" "coalesced a \<Longrightarrow> coalesced b"
    by (rule pfree_correct [OF wf al n ki]) blast
  have [simp]: "b = a'" using b(1) st by simp
  show fs: "free_set a' = free_set a \<union> blk p k" using b(4) by simp
  have al': "allocated a' q j" if qj: "(q, j) \<in> L" "(q, j) \<noteq> (p, k)" for q j
  proof (rule allocated_frame [of a q j p])
    show aq: "allocated a q j" using inv qj by (auto simp: run_inv_def)
    have "\<forall>x\<in>L. \<forall>y\<in>L. x \<noteq> y \<longrightarrow> blk (fst x) (snd x) \<inter> blk (fst y) (snd y) = {}"
      using inv unfolding run_inv_def by blast
    then have dj: "blk q j \<inter> blk p k = {}"
      using qj pk by (metis fst_conv snd_conv)
    have "p \<in> blk p k" by simp
    with dj show "p \<notin> blk q j" by blast
    have "blk q j \<inter> free_set a = {}" using aq unfolding allocated_def by blast
    with dj show "blk q j \<inter> free_set a' = {}" unfolding fs by blast
  qed (use b(3) in simp)
  have pv: "\<not> bit (pg_flags (pages a ! p)) PG_INVALID" using al by (simp add: allocated_def)
  have uc: "use_count (pages a' ! q) = 0" if "q < page_count a" "bit (pg_flags (pages a' ! q)) PG_INVALID" for q
    using that b(3) pv inv by (cases "q = p") (auto simp: run_inv_def same_but_def)
  have "page_count a' = page_count a" using b(3) by (simp add: same_but_def)
  then show "run_inv a' (L - {(p, k)})"
    using inv b al' uc by (auto simp: run_inv_def)
qed

lemma palloc_cases:
  assumes "palloc (\<lambda>a. a) me a k flags = Some (r, a')"
  shows "(\<exists>p. r = Page p \<and> palloc_take a k = Some (Page p, a')) \<or>
    r = Sleeping \<and> (a' = map_upd a k (\<lambda>m. m\<lparr>wait_for_free := wait_for_free m @ [me]\<rparr>) \<or>
      palloc_take a k = Some (Sleeping, a'))"
  using assms
  by (auto simp: palloc_def u_palloc_phys_multiple_def u_palloc_sleep_for_enough_pages_def Let_def
      split: option.splits prod.splits palloc_result.splits if_splits)

lemma palloc_take_not_sleeping: "palloc_take a k \<noteq> Some (Sleeping, a')"
  by (auto simp: palloc_take_def Let_def split: option.splits if_splits)

lemma run_inv_sleep:
  assumes "run_inv a L"
  shows "run_inv (map_upd a k (\<lambda>m. m\<lparr>wait_for_free := wait_for_free m @ [me]\<rparr>)) L" (is "run_inv ?a L")
proof -
  note w = map_wait_upd [of "\<lambda>m. m\<lparr>wait_for_free := wait_for_free m @ [me]\<rparr>" a k, simplified]
  have "allocated ?a p j = allocated a p j" for p j by (simp add: allocated_def)
  then show ?thesis
    using assms by (simp add: run_inv_def buddy_wf_def coalesced_def w)
qed

lemma buddy_run_inv: "buddy_run ki a L \<Longrightarrow> run_inv a L"
proof (induction rule: buddy_run.induct)
  case (init n mem)
  then show ?case by (rule run_inv_init)
next
  case (boot a L pa a')
  show ?case by (rule run_inv_boot [OF boot.IH boot.hyps(2-4,8)])
next
  case (high a L p)
  show ?case by (rule run_inv_high [OF high.IH high.hyps(2-3)])
next
  case (alloc a L k me flags p a')
  then show ?case
    using palloc_cases [OF alloc.hyps(3)] run_inv_alloc(1) by auto
next
  case (sleep a L k me flags a')
  then show ?case
    using palloc_cases [OF sleep.hyps(3)] palloc_take_not_sleeping run_inv_sleep by auto
next
  case (free a L p k a')
  show ?case by (rule run_inv_free(1) [OF free.IH free.hyps(2-4)])
qed

text \<open>One page handed over at boot.\<close>

lemma buddy_boot_step:
  assumes r: "buddy_run ki a L" and p: "unat (PA_TO_PN pa) < page_count a"
    "bit (pg_flags (pages a ! unat (PA_TO_PN pa))) PG_INVALID" and ki: "\<not> in_kernel ki pa"
    and pa: "4096 dvd unat pa" "pa < V2P KMAP_START" "pa \<noteq> 0"
  obtains a' where "u_mark_page_free ki (clear_invalid a (unat (PA_TO_PN pa))) pa = Some a'" "buddy_run ki a' L"
    "free_set a' = insert (unat (PA_TO_PN pa)) (free_set a)" "page_count a' = page_count a"
    "\<And>q. bit (pg_flags (pages a' ! q)) PG_INVALID \<longleftrightarrow>
       q \<noteq> unat (PA_TO_PN pa) \<and> bit (pg_flags (pages a ! q)) PG_INVALID"
    "\<And>q. pg_virt (pages a' ! q) = pg_virt (pages a ! q)"
proof -
  let ?p = "unat (PA_TO_PN pa)"
  have inv: "run_inv a L" by (rule buddy_run_inv [OF r])
  note bo = boot_owned [OF inv p]
  have n: "32 dvd page_count a" and len: "length (pages a) = page_count a"
    using inv buddy_invD(1) [of a] by (auto simp: run_inv_def buddy_wf_def)
  obtain b where b: "u_pfree_add_pages (clear_invalid a ?p) ?p 0 = Some b"
    "free_set b = free_set (clear_invalid a ?p) \<union> blk ?p 0" "same_pages (clear_invalid a ?p) b"
    by (rule u_pfree_add_pages_correct [OF bo(1,2)]) (use n in \<open>simp add: clear_invalid_sel\<close>)
  have st: "u_mark_page_free ki (clear_invalid a ?p) pa = Some b"
    using b(1) ki by (simp add: u_mark_page_free_def)
  show thesis
  proof (rule that [OF st buddy_run.boot [OF r p ki pa st]])
    show "free_set b = insert ?p (free_set a)" "page_count b = page_count a"
      using b(2) same_pagesD(1) [OF b(3)] by (auto simp: clear_invalid_sel)
    show "bit (pg_flags (pages b ! q)) PG_INVALID \<longleftrightarrow> q \<noteq> ?p \<and> bit (pg_flags (pages a ! q)) PG_INVALID" for q
      using p len same_pagesD [OF b(3)] by (simp add: flags_clear_invalid bit_unset_bit_iff)
    show "pg_virt (pages b ! q) = pg_virt (pages a ! q)" for q
      using same_pagesD(6) [OF b(3), of q] by (simp add: clear_invalid_def pages_page_upd)
  qed
qed

section \<open>Properties of the page allocator\<close>

lemma palloc_atomic: "palloc oom me a k PAL_ATOMIC =
    (case palloc_take a k of Some (NoPage, a) \<Rightarrow> None | r \<Rightarrow> r)"
  by (simp add: palloc_def u_palloc_phys_multiple_def PAL_ATOMIC_def bit_1_iff)

lemma free_set_nonempty_list:
  assumes "buddy_inv a" and "q \<in> free_set a"
  obtains i p where "i < PALLOC_MAPS" "p \<in> set (flv a i)" "q \<in> blk p i"
proof -
  from assms(2) obtain p k where p: "p < page_count a" "ordv a p = int k" "q \<in> blk p k"
    unfolding free_set_def free_of_iff by blast
  moreover have "k < PALLOC_MAPS"
    using buddy_invD(5) [OF assms(1)] p unfolding buddy_ok_def by fastforce
  ultimately show thesis
    using that [of k p] buddy_invD(6) [OF assms(1), of k p] by blast
qed

text \<open>Coalescing leaves no aligned run of free pages split: it is inside one free block.\<close>

lemma dvd_less_add:
  assumes "m dvd a" and "m dvd b" and "a < b + (m::nat)"
  shows "a \<le> b"
proof -
  obtain i j where ij: "a = m * i" "b = m * j" using assms(1,2) by (auto elim!: dvdE)
  then have "m * i < m * Suc j" using assms(3) by simp
  then have "i \<le> j" unfolding mult_less_cancel1 by simp
  then show ?thesis by (simp add: ij)
qed

lemma blk_nested:
  assumes "2 ^ j dvd p" and "2 ^ k dvd q" and "j \<le> k" and "x \<in> blk p j" and "x \<in> blk q k"
  shows "blk p j \<subseteq> blk q k"
proof -
  have d: "(2::nat) ^ j dvd 2 ^ k" using assms(3) by (rule le_imp_power_dvd)
  then have q: "2 ^ j dvd q" using assms(2) by (rule dvd_trans)
  have "q \<le> p" using dvd_less_add [OF q assms(1)] assms(4,5) by simp
  moreover have "p + 2 ^ j \<le> q + 2 ^ k"
  proof (rule dvd_less_add)
    show "2 ^ j dvd p + 2 ^ j" "2 ^ j dvd q + 2 ^ k" using assms(1) q d by auto
    show "p + 2 ^ j < q + 2 ^ k + 2 ^ j" using assms(4,5) by simp
  qed
  ultimately show ?thesis by auto
qed

lemma coalesced_block:
  assumes wf: "buddy_wf a" and co: "coalesced a"
  shows "j < PALLOC_MAPS \<Longrightarrow> 2 ^ j dvd p \<Longrightarrow> blk p j \<subseteq> free_set a \<Longrightarrow>
    \<exists>k q. j \<le> k \<and> k < PALLOC_MAPS \<and> q \<in> set (flv a k) \<and> blk p j \<subseteq> blk q k"
proof (induction j arbitrary: p)
  case 0
  have inv: "buddy_inv a" using wf by (simp add: buddy_wf_def)
  have "p \<in> free_set a" using 0 by simp
  from free_set_nonempty_list [OF inv this] obtain i q where "i < PALLOC_MAPS" "q \<in> set (flv a i)" "p \<in> blk q i" .
  then show ?case by (intro exI [of _ i] exI [of _ q]) auto
next
  case (Suc j)
  have inv: "buddy_inv a" using wf by (simp add: buddy_wf_def)
  have d: "2 ^ j dvd p" using Suc.prems(2) by (rule dvd_trans [rotated]) simp
  have even: "even (p div 2 ^ j)"
    using Suc.prems(2) by (auto elim!: dvdE simp: mult.assoc)
  note ap = aligned_pair [OF d]
  have low: "lower p j = p" using unset_bit_aligned [OF d] even by (simp add: lower_def)
  have halves: "blk p (Suc j) = blk p j \<union> blk (buddy p j) j" using ap(3) low by simp
  have ord: "\<forall>p<page_count a. \<forall>k. ordv a p = int k \<longrightarrow> 2 ^ k dvd p \<and> p + 2 ^ k \<le> page_count a"
    using buddy_invD(5) [OF inv] unfolding buddy_ok_def by (elim conjE)
  have al: "2 ^ k dvd q" if "q \<in> set (flv a k)" "k < PALLOC_MAPS" for q k
    using ord buddy_invD(6) [OF inv that(2), of q] that(1) by simp
  obtain k1 q1 where b1: "j \<le> k1" "k1 < PALLOC_MAPS" "q1 \<in> set (flv a k1)" "blk p j \<subseteq> blk q1 k1"
    using Suc.IH [OF _ d] Suc.prems(1,3) halves by auto
  obtain k2 q2 where b2: "j \<le> k2" "k2 < PALLOC_MAPS" "q2 \<in> set (flv a k2)" "blk (buddy p j) j \<subseteq> blk q2 k2"
    using Suc.IH [OF _ ap(2)] Suc.prems(1,3) halves by auto
  have big: ?case if "Suc j \<le> k" "k < PALLOC_MAPS" "q \<in> set (flv a k)" "r \<in> blk p (Suc j)" "r \<in> blk q k" for k q r
    using blk_nested [OF Suc.prems(2) al [OF that(3,2)] that(1,4,5)] that by blast
  show ?case
  proof (cases "k1 = j \<and> k2 = j")
    case True
    have "q1 = p" "q2 = buddy p j"
      using b1(4) b2(4) True by (simp_all add: ivl_subset)
    then have "p \<in> set (flv a j)" "get_buddy_pn p j \<in> set (flv a j)"
      using True b1(3) b2(3) by (simp_all add: buddy_def get_buddy_pn_def)
    moreover have "j < PALLOC_MAPS - 1" using Suc.prems(1) by simp
    ultimately show ?thesis using co unfolding coalesced_def by blast
  next
    case False
    then consider "Suc j \<le> k1" | "Suc j \<le> k2" using b1(1) b2(1) by linarith
    then show ?thesis
    proof cases
      case 1
      have "p \<in> blk p j" by simp
      then show ?thesis using big [OF 1 b1(2,3), of p] b1(4) halves by blast
    next
      case 2
      have "buddy p j \<in> blk (buddy p j) j" by simp
      then show ?thesis using big [OF 2 b2(2,3), of "buddy p j"] b2(4) halves by blast
    qed
  qed
qed

lemma free_run_iff:
  assumes wf: "buddy_wf a" and co: "coalesced a" and k: "k < PALLOC_MAPS"
  shows "(\<exists>i\<in>{k..<PALLOC_MAPS}. flv a i \<noteq> []) \<longleftrightarrow> (\<exists>p. 2 ^ k dvd p \<and> blk p k \<subseteq> free_set a)"
proof
  assume "\<exists>i\<in>{k..<PALLOC_MAPS}. flv a i \<noteq> []"
  then obtain i where "k \<le> i" "i < PALLOC_MAPS" "flv a i \<noteq> []" by auto
  then obtain q where i: "k \<le> i" "i < PALLOC_MAPS" "q \<in> set (flv a i)"
    using last_in_set by blast
  have inv: "buddy_inv a" using wf by (simp add: buddy_wf_def)
  have q: "q < page_count a" "ordv a q = int i" using buddy_invD(6) [OF inv i(2), of q] i(3) by auto
  have "\<forall>p<page_count a. \<forall>k. ordv a p = int k \<longrightarrow> 2 ^ k dvd p \<and> p + 2 ^ k \<le> page_count a"
    using buddy_invD(5) [OF inv] unfolding buddy_ok_def by (elim conjE)
  then have "2 ^ i dvd q" using q by simp
  moreover have "(2::nat) ^ k dvd 2 ^ i" using i(1) by (rule le_imp_power_dvd)
  ultimately have "2 ^ k dvd q" by (metis dvd_trans)
  moreover have "blk q k \<subseteq> blk q i" using i(1) by (simp add: ivl_subset)
  then have "blk q k \<subseteq> free_set a"
    using free_of_head [where ord = "ordv a", OF q] unfolding free_set_def by (rule order.trans)
  ultimately show "\<exists>p. 2 ^ k dvd p \<and> blk p k \<subseteq> free_set a" by (intro exI [of _ q] conjI)
next
  assume "\<exists>p. 2 ^ k dvd p \<and> blk p k \<subseteq> free_set a"
  then obtain p where "2 ^ k dvd p" "blk p k \<subseteq> free_set a" by (elim exE conjE)
  from coalesced_block [OF wf co k this] obtain i q where "k \<le> i" "i < PALLOC_MAPS" "q \<in> set (flv a i)"
    by (elim exE conjE)
  then show "\<exists>i\<in>{k..<PALLOC_MAPS}. flv a i \<noteq> []" by (intro bexI [of _ i]) auto
qed

text \<open>
  C1. In every state that boot, allocation and release can reach, the allocator's structure is
  well formed, every free block is merged with its buddy when both are free, and the blocks that
  are handed out are aligned, lie in the page array, are pairwise disjoint and share no page with the
  free lists: no page is ever given to two holders.
\<close>

theorem palloc_no_double_allocation:
  assumes "buddy_run ki a L"
  shows "buddy_wf a \<and> coalesced a \<and>
    (\<forall>(p, k)\<in>L. 2 ^ k dvd p \<and> p + 2 ^ k \<le> page_count a \<and> blk p k \<inter> free_set a = {}) \<and>
    (\<forall>x\<in>L. \<forall>y\<in>L. x \<noteq> y \<longrightarrow> blk (fst x) (snd x) \<inter> blk (fst y) (snd y) = {})"
proof -
  have "run_inv a L" using assms by (rule buddy_run_inv)
  then show ?thesis unfolding run_inv_def allocated_def by blast
qed

definition example_image :: kern_image where
  "example_image = \<lparr>kern_start = 0xC0100000, kern_end = 0xC0400000\<rparr>"

lemma example_boot:
  obtains a where "buddy_run example_image a {}" "1 \<in> free_set a" "page_count a = 32"
proof -
  let ?a = "fst (palloc_init (\<lambda>_. zero_page) 32)"
  have r: "buddy_run example_image ?a {}" by (rule buddy_run.init) simp_all
  have pn: "unat (PA_TO_PN 0x1000) = 1"
    by (simp add: PA_TO_PN_def PG_SHIFT_def)
  have k: "\<not> in_kernel example_image 0x1000"
    by (simp add: in_kernel_def example_image_def V2P_def KMEM_KBASE_def)
  have inval: "bit (pg_flags (pages ?a ! 1)) PG_INVALID"
    by (simp add: palloc_init_pages page_init_entry_def bit_set_bit_iff)
  obtain b where "buddy_run example_image b {}" "free_set b = insert 1 (free_set ?a)" "page_count b = page_count ?a"
    by (rule buddy_boot_step [OF r _ _ k]) (use pn inval in \<open>auto simp: V2P_KMAP_START\<close>)
  then show thesis
    using that [of b] by simp
qed

lemma example_alloc:
  obtains a p a' where "buddy_run example_image a {}" "buddy_wf a"
    "\<exists>i\<in>{0..<PALLOC_MAPS}. flv a i \<noteq> []" "buddy_run example_image a' {(p, 0)}" "p < 32" "page_count a' = 32"
    "\<not> in_kernel example_image (PN_TO_PA (of_nat p))"
proof -
  obtain a where a: "buddy_run example_image a {}" "1 \<in> free_set a" "page_count a = 32"
    using example_boot by blast
  have wf: "buddy_wf a" using buddy_run_inv [OF a(1)] by (simp add: run_inv_def)
  then have ex: "\<exists>i\<in>{0..<PALLOC_MAPS}. flv a i \<noteq> []"
    using free_set_nonempty_list [OF _ a(2)] by (fastforce simp: buddy_wf_def)
  obtain p a' where p: "palloc_take a 0 = Some (Page p, a')" "same_but p a a'" "allocated a' p 0"
    by (rule palloc_take_correct [OF wf _ ex]) (simp, blast)
  then have "palloc (\<lambda>a. a) 0 a 0 PAL_ATOMIC = Some (Page p, a')"
    by (simp add: palloc_atomic)
  then have "buddy_run example_image a' {(p, 0)}"
    using buddy_run.alloc [where k = 0, OF a(1)] by fastforce
  moreover have "page_count a' = 32" "p < 32"
    using p a(3) by (auto simp: same_but_def allocated_def)
  moreover have "\<not> in_kernel example_image (PN_TO_PA (of_nat p))"
  proof -
    have "PN_TO_PA (of_nat p) = (of_nat (p * 4096) :: u32)"
      by (simp add: PN_TO_PA_def PG_SHIFT_def push_bit_eq_mult)
    then have "unat (PN_TO_PA (of_nat p)) < 0x20000"
      using \<open>p < 32\<close> by (simp only: unat_of_nat) (simp add: take_bit_eq_mod)
    then show ?thesis
      by (simp add: in_kernel_def example_image_def V2P_def KMEM_KBASE_def word_le_nat_alt)
  qed
  ultimately show thesis using a wf ex that by blast
qed

theorem palloc_no_double_allocation_witness:
  "\<exists>a p. buddy_run example_image a {(p, 0)} \<and> buddy_wf a \<and> p \<notin> free_set a \<and> p < page_count a"
proof -
  obtain a p where r: "buddy_run example_image a {(p, 0)}"
    using example_alloc by blast
  show ?thesis
    using palloc_no_double_allocation [OF r] r by (intro exI [of _ a] exI [of _ p]) auto
qed

text \<open>
  C2. On a well-formed and coalesced allocator an atomic \<^verbatim>\<open>palloc\<close> of any order below \<^verbatim>\<open>PALLOC_MAPS\<close>
  succeeds exactly when some aligned run of that many pages is entirely free. It then returns such a
  run, removes exactly these pages from the free set, leaves the structure well formed and
  coalesced, and gives the block's head its single reference. Otherwise it faults.
\<close>

theorem palloc_sound:
  assumes "buddy_wf a" and "coalesced a" and "k < PALLOC_MAPS"
  shows "if \<exists>p. 2 ^ k dvd p \<and> blk p k \<subseteq> free_set a
    then \<exists>p a'. palloc oom me a k PAL_ATOMIC = Some (Page p, a') \<and> buddy_wf a' \<and> coalesced a' \<and>
      2 ^ k dvd p \<and> blk p k \<subseteq> free_set a \<and> free_set a' = free_set a - blk p k \<and>
      free_pages a' = free_pages a - 2 ^ k \<and> use_count (pages a' ! p) = 1
    else palloc oom me a k PAL_ATOMIC = None"
  unfolding free_run_iff [OF assms, symmetric]
proof (cases "\<exists>i\<in>{k..<PALLOC_MAPS}. flv a i \<noteq> []")
  case True
  obtain p a' where p: "palloc_take a k = Some (Page p, a')" "buddy_wf a'" "allocated a' p k"
    "blk p k \<subseteq> free_set a" "free_set a' = free_set a - blk p k" "coalesced a \<Longrightarrow> coalesced a'"
    by (rule palloc_take_correct [OF assms(1,3) True]) blast
  moreover have "free_pages a' = free_pages a - 2 ^ k"
    using free_pages_remove [OF assms(1) p(4)] p(2,5) by (simp add: buddy_wf_def)
  ultimately show "if \<exists>i\<in>{k..<PALLOC_MAPS}. flv a i \<noteq> []
    then \<exists>p a'. palloc oom me a k PAL_ATOMIC = Some (Page p, a') \<and> buddy_wf a' \<and> coalesced a' \<and>
      2 ^ k dvd p \<and> blk p k \<subseteq> free_set a \<and> free_set a' = free_set a - blk p k \<and>
      free_pages a' = free_pages a - 2 ^ k \<and> use_count (pages a' ! p) = 1
    else palloc oom me a k PAL_ATOMIC = None"
    unfolding if_P [OF True] using assms(2) by (auto simp: palloc_atomic allocated_def)
next
  case False
  then have "palloc oom me a k PAL_ATOMIC = None"
    using palloc_take_none [OF assms(1,3)] by (simp add: palloc_atomic)
  then show "if \<exists>i\<in>{k..<PALLOC_MAPS}. flv a i \<noteq> []
    then \<exists>p a'. palloc oom me a k PAL_ATOMIC = Some (Page p, a') \<and> buddy_wf a' \<and> coalesced a' \<and>
      2 ^ k dvd p \<and> blk p k \<subseteq> free_set a \<and> free_set a' = free_set a - blk p k \<and>
      free_pages a' = free_pages a - 2 ^ k \<and> use_count (pages a' ! p) = 1
    else palloc oom me a k PAL_ATOMIC = None"
    using False by simp
qed

theorem palloc_sound_witness:
  "\<exists>a p a'. buddy_wf a \<and> palloc (\<lambda>a. a) 0 a 0 PAL_ATOMIC = Some (Page p, a') \<and> buddy_wf a' \<and>
     free_set a' = free_set a - {p}"
proof -
  obtain a where r: "buddy_run example_image a {}" and f: "1 \<in> free_set a"
    using example_boot by blast
  then have wf: "buddy_wf a" "coalesced a" using buddy_run_inv by (auto simp: run_inv_def)
  have ex: "\<exists>p. 2 ^ 0 dvd p \<and> blk p 0 \<subseteq> free_set a" using f by (intro exI [of _ 1]) simp
  have "0 < PALLOC_MAPS" by simp
  from palloc_sound [OF wf this, of "\<lambda>a. a" 0] obtain p a' where
    "palloc (\<lambda>a. a) 0 a 0 PAL_ATOMIC = Some (Page p, a')" "buddy_wf a'" "free_set a' = free_set a - blk p 0"
    unfolding if_P [OF ex] by blast
  with wf show ?thesis by (auto simp: atLeastLessThanSuc)
qed



text \<open>
  \<^verbatim>\<open>palloc_init\<close> leaves an empty, well-formed allocator whose pages are all marked invalid and know
  their numbers, and it touches no memory above the page array and none below index -1. Its loop
  condition lets the body run once too often: the \<^verbatim>\<open>struct page\<close> slot in front of the array (index
  -1) is overwritten with the initial page contents and page number 0xFFFFFFFF.
\<close>

theorem palloc_init_correct:
  assumes "n \<le> 2 ^ 20"
  shows "(let (a, mem') = palloc_init mem n
    in buddy_wf a \<and> free_set a = {} \<and> coalesced a \<and> page_count a = n \<and>
      (\<forall>i<n. page_number (pages a ! i) = i \<and> bit (pg_flags (pages a ! i)) PG_INVALID \<and>
        pages a ! i = mem' (int i)) \<and>
      (\<forall>j. j < -1 \<or> int n \<le> j \<longrightarrow> mem' j = mem j) \<and>
      mem' (-1) = page_init_entry (mem (-1)) (-1) \<and> page_number (mem' (-1)) = 0xFFFFFFFF)"
proof -
  have "page_number (page_init_entry zero_page (int i)) = i" if "i < n" for i
    using that assms by (simp add: page_init_entry_def)
  then show ?thesis
    using palloc_init_wf [OF assms, of mem] palloc_init_sel [of mem n]
    by (auto simp: palloc_init_def Let_def palloc_init_loop_eq) (simp_all add: page_init_entry_def bit_set_bit_iff)
qed

theorem palloc_init_correct_witness:
  "(32::nat) \<le> 2 ^ 20 \<and> page_number (snd (palloc_init (\<lambda>_. zero_page) 32) (-1)) = 0xFFFFFFFF"
  using palloc_init_correct [of 32 "\<lambda>_. zero_page"] by (auto simp: case_prod_beta Let_def)

lemma map_upd_wait:
  assumes "\<And>m. wait_for_free (f m) = wait_for_free m"
  shows "wait_for_free (maps (map_upd a k f) ! i) = wait_for_free (maps a ! i)"
  by (cases "i = k \<and> k < length (maps a)") (auto simp: map_upd_def assms list_update_beyond nth_list_update)

lemma wait_frame:
  "wait_for_free (maps (map_del a k p) ! i) = wait_for_free (maps a ! i)"
  "wait_for_free (maps (map_push a k p) ! i) = wait_for_free (maps a ! i)"
  "maps (set_order a p x) = maps a" "maps (atomic_add a p x) = maps a"
  by (simp_all add: map_del_def map_push_def set_order_def atomic_add_def map_upd_wait)

lemma u_pfree_merge_wait:
  "u_pfree_merge a cur k = Some (a', cur', k') \<Longrightarrow> wait_for_free (maps a' ! i) = wait_for_free (maps a ! i)"
proof (induction a cur k rule: u_pfree_merge.induct)
  case (1 a cur k)
  show ?case
    using "1.prems" unfolding u_pfree_merge.simps [of a cur k]
    by (auto simp: Let_def wait_frame dest!: "1.IH" [OF _ _ _ refl refl refl, simplified wait_frame, simplified] split: if_splits option.splits)
qed

lemma u_pfree_add_pages_wait:
  "u_pfree_add_pages a p k = Some a' \<Longrightarrow> wait_for_free (maps a' ! i) = wait_for_free (maps a ! i)"
  by (auto simp: u_pfree_add_pages_def Let_def wait_frame
      dest!: u_pfree_merge_wait [where i = i] split: option.splits if_splits)

lemma length_wake_maps [simp]: "length (maps (wake_maps a k)) = length (maps a)"
  by (induction k) (simp_all add: map_upd_def)

lemma wake_maps_queue:
  "k < length (maps a) \<Longrightarrow>
   wait_for_free (maps (wake_maps a k) ! i) = (if i \<le> k then [] else wait_for_free (maps a ! i))"
  by (induction k) (auto simp: map_upd_def nth_list_update)

text \<open>
  A \<^verbatim>\<open>pfree\<close> that drops the last reference of a held block wakes the waiters of exactly the orders
  up to the freed one. The queues of larger orders are left alone, although their wait condition
  (\<^verbatim>\<open>free_pages >= 1 << order\<close>) may have become true by this very release.
\<close>

theorem pfree_wakeups:
  assumes "buddy_wf a" and "allocated a p k" and "32 dvd page_count a"
    and "\<not> in_kernel ki (PN_TO_PA (of_nat p))"
  shows "\<exists>a'. pfree ki a (Some p) k = Some a' \<and>
    (\<forall>i. wait_for_free (maps a' ! i) = (if i \<le> k then [] else wait_for_free (maps a ! i)))"
proof -
  obtain a' where a': "pfree ki a (Some p) k = Some a'" "buddy_wf a'"
    by (rule pfree_correct [OF assms]) blast
  have inv: "buddy_inv a" using assms(1) by (simp add: buddy_wf_def)
  note ow = allocated_owned [OF inv assms(2)]
  have n: "page_number (pages a ! p) = p" "p < length (pages a)" "k < 6" "use_count (pages a ! p) = 1"
    using buddy_invD(1) [OF inv] buddy_invD(3) [OF inv ow(1)] ow(1) assms(2) by (simp_all add: allocated_def)
  with a' assms(4) obtain b where b: "u_pfree_add_pages (atomic_add a p (- 1)) p k = Some b" "a' = wake_maps b k"
    by (auto simp: pfree_def page_from_pn_def Let_def page_to_pa_def)
  have "length (maps b) = 6"
    using a'(2) b(2) by (auto simp: buddy_wf_def buddy_inv_def)
  then show ?thesis
    using a' b u_pfree_add_pages_wait [OF b(1)] n
    by (auto simp: wake_maps_queue wait_frame)
qed

theorem pfree_wakeups_witness:
  "\<exists>a p a'. buddy_wf a \<and> pfree example_image a (Some p) 0 = Some a' \<and>
     wait_for_free (maps a' ! 0) = [] \<and> wait_for_free (maps a' ! 1) = wait_for_free (maps a ! 1)"
proof -
  obtain a p where r: "buddy_run example_image a {(p, 0)}" and n: "page_count a = 32"
    and k: "\<not> in_kernel example_image (PN_TO_PA (of_nat p))"
    using example_alloc by blast
  have wf: "buddy_wf a" and al: "allocated a p 0"
    using buddy_run_inv [OF r] by (auto simp: run_inv_def)
  have "32 dvd page_count a" using n by simp
  from pfree_wakeups [OF wf al this k] wf show ?thesis by fastforce
qed

end
