(* ===== verification/Bootmem.thy ===== *)
theory Bootmem
  imports PallocRun
begin

text \<open>
  The boot-time allocator: \<^verbatim>\<open>src/mm/bootmem.c\<close>, and the clipping of the boot loader's 64-bit regions
  in \<^verbatim>\<open>arch/x86/init/init.c\<close>. Memory regions are registered with \<^verbatim>\<open>bootmem_add\<close>, early
  allocations are cut from their front, and \<^verbatim>\<open>bootmem_setup_palloc\<close> hands the rest to the buddy
  allocator.
\<close>

section \<open>Model\<close>

record bootmem_region =
  rg_start :: u32
  rg_end :: u32

record bootmem =
  memregions :: "bootmem_region list"
  highest_page :: u32

definition bootmem_empty :: bootmem where
  "bootmem_empty = \<lparr>memregions = replicate 64 \<lparr>rg_start = 0, rg_end = 0\<rparr>, highest_page = 0\<rparr>"

text \<open>The registration loop: the first slot whose start is 0; \<^term>\<open>None\<close> when all slots are used.\<close>

fun bootmem_register :: "bootmem_region list \<Rightarrow> u32 \<Rightarrow> u32 \<Rightarrow> bootmem_region list option" where
  "bootmem_register [] s e = None"
| "bootmem_register (r # rs) s e =
     (if rg_start r = 0 then Some (r\<lparr>rg_start := s, rg_end := e\<rparr> # rs)
      else map_option ((#) r) (bootmem_register rs s e))"

definition kern_pg_start :: "kern_image \<Rightarrow> u32" where
  "kern_pg_start ki = PG_ALIGN_DOWN (V2P (kern_start ki))"

definition kern_pg_end :: "kern_image \<Rightarrow> u32" where
  "kern_pg_end ki = PG_ALIGN (V2P (kern_end ki))"

abbreviation (input) ENOMEM :: int where
  "ENOMEM \<equiv> 12"

partial_function (option) bootmem_add :: "kern_image \<Rightarrow> bootmem \<Rightarrow> u32 \<Rightarrow> u32 \<Rightarrow> (int \<times> bootmem) option" where
  "bootmem_add ki bm start0 end0 =
     (let start = PG_ALIGN start0;
          end = PG_ALIGN_DOWN end0
      in if start = 0 \<and> PG_SIZE \<ge> end then Some (0, bm)
         else
           let start = (if start = 0 then PG_SIZE else start);
               last_page = PA_TO_PN end;
               bm = (if last_page > highest_page bm then bm\<lparr>highest_page := last_page\<rparr> else bm);
               ks = kern_pg_start ki;
               ke = kern_pg_end ki
           in if start \<ge> ks \<and> end < ke then Some (0, bm)
              else if start < ke \<and> end \<ge> ke \<or> start \<le> ks \<and> end > ks
              then do {
                (r, bm) \<leftarrow> (if start < ks then bootmem_add ki bm start ks else Some (0, bm));
                (r, bm) \<leftarrow> (if end > ke then bootmem_add ki bm ke end else Some (0, bm));
                Some (0, bm)
              }
              else
                case bootmem_register (memregions bm) start end of
                  Some rs \<Rightarrow> Some (0, bm\<lparr>memregions := rs\<rparr>)
                | None \<Rightarrow> Some (- ENOMEM, bm))"

fun bootmem_take :: "bootmem_region list \<Rightarrow> u32 \<Rightarrow> u32 \<Rightarrow> u32 \<times> bootmem_region list" where
  "bootmem_take [] len al = (0, [])"
| "bootmem_take (r # rs) len al =
     (let first_addr = ALIGN_2 (rg_start r) al;
          end_addr = ALIGN_2_DOWN (rg_end r) al
      in if first_addr < end_addr \<and> end_addr - first_addr \<ge> len
         then (P2V first_addr, r\<lparr>rg_start := first_addr + len\<rparr> # rs)
         else let (p, rs) = bootmem_take rs len al in (p, r # rs))"

definition bootmem_alloc_nopanic :: "bootmem \<Rightarrow> u32 \<Rightarrow> u32 \<Rightarrow> u32 \<times> bootmem" where
  "bootmem_alloc_nopanic bm len al =
     (let (p, rs) = bootmem_take (memregions bm) len al in (p, bm\<lparr>memregions := rs\<rparr>))"

definition bootmem_alloc :: "bootmem \<Rightarrow> u32 \<Rightarrow> u32 \<Rightarrow> (u32 \<times> bootmem) option" where
  "bootmem_alloc bm len al =
     (let (p, bm) = bootmem_alloc_nopanic bm len al in if p = 0 then None else Some (p, bm))"

text \<open>The size of \<^verbatim>\<open>struct page\<close>, 36 bytes rounded up to a cache line.\<close>

definition sizeof_page :: u32 where
  "sizeof_page = 64"

function bootmem_free_region :: "kern_image \<Rightarrow> page_buddy_alloc \<Rightarrow> u32 \<Rightarrow> u32 \<Rightarrow> page_buddy_alloc option" where
  "bootmem_free_region ki a first_page last_page =
     (if first_page < last_page
      then if page_from_pa first_page < length (pages a)
           then let a = clear_invalid a (page_from_pa first_page)
                in if first_page \<ge> V2P KMAP_START then Some a
                   else case u_mark_page_free ki a first_page of
                          None \<Rightarrow> None
                        | Some a \<Rightarrow> bootmem_free_region ki a (first_page + PG_SIZE) last_page
           else None
      else Some a)"
  by pat_completeness auto
termination
proof (relation "measure (\<lambda>(ki, a, f, l). 2 ^ 32 - unat f)")
  fix f l :: u32
  assume "f < l" "\<not> V2P KMAP_START \<le> f"
  then have "unat f < 0x30000000" by (simp add: V2P_KMAP_START)
  then have "unat (f + PG_SIZE) = unat f + 4096"
    by (simp add: unat_word_ariths PG_SIZE_eq)
  with \<open>unat f < 0x30000000\<close>
  show "((ki, b, f + PG_SIZE, l), ki', a, f, l) \<in> measure (\<lambda>(ki, a, f, l). 2 ^ 32 - unat f)" for ki b ki' a
    by simp
qed simp

declare bootmem_free_region.simps [simp del]

fun bootmem_free_regions :: "kern_image \<Rightarrow> page_buddy_alloc \<Rightarrow> bootmem_region list \<Rightarrow> page_buddy_alloc option" where
  "bootmem_free_regions ki a [] = Some a"
| "bootmem_free_regions ki a (r # rs) =
     (if rg_start r = 0 then bootmem_free_regions ki a rs
      else case bootmem_free_region ki a (PG_ALIGN (rg_start r)) (PG_ALIGN_DOWN (rg_end r)) of
             None \<Rightarrow> None
           | Some a \<Rightarrow> bootmem_free_regions ki a rs)"

text \<open>
  The page array is allocated from the regions themselves; \<open>mem\<close> is what was in memory there,
  indexed as in \<^const>\<open>palloc_init\<close>.
\<close>

definition bootmem_setup_palloc ::
  "kern_image \<Rightarrow> bootmem \<Rightarrow> (int \<Rightarrow> page) \<Rightarrow> (page_buddy_alloc \<times> bootmem) option" where
  "bootmem_setup_palloc ki bm mem =
     (case bootmem_alloc bm (highest_page bm * sizeof_page) PG_SIZE of
        None \<Rightarrow> None
      | Some (p, bm) \<Rightarrow>
          map_option (\<lambda>a. (a, bm))
            (bootmem_free_regions ki (fst (palloc_init mem (unat (highest_page bm)))) (memregions bm)))"

text \<open>The boot loader's regions are 64 bits wide and are clipped to the 32-bit address space.\<close>

definition add_multiboot_memory_region ::
  "kern_image \<Rightarrow> bootmem \<Rightarrow> 64 word \<Rightarrow> 64 word \<Rightarrow> bootmem option" where
  "add_multiboot_memory_region ki bm start len =
     (if start \<ge> 0xFFFFFFFF then Some bm
      else let len = (if start + len \<ge> 0xFFFFFFFF then 0xFFFFFFFF - start else len)
           in map_option snd (bootmem_add ki bm (ucast start) (ucast (start + len))))"

section \<open>Registered memory\<close>

definition region_set :: "bootmem_region \<Rightarrow> nat set" where
  "region_set r = (if rg_start r = 0 then {} else {unat (rg_start r)..<unat (rg_end r)})"

definition avail :: "bootmem_region list \<Rightarrow> nat set" where
  "avail rs = \<Union> (region_set ` set rs)"

text \<open>Unused slots are zero, region ends are page aligned and the regions are pairwise disjoint.\<close>

fun regions_ok :: "bootmem_region list \<Rightarrow> bool" where
  "regions_ok [] \<longleftrightarrow> True"
| "regions_ok (r # rs) \<longleftrightarrow>
     (rg_start r = 0 \<longrightarrow> rg_end r = 0) \<and> unat (rg_start r) \<le> 0xFFFFF000 \<and> 4096 dvd unat (rg_end r) \<and> region_set r \<inter> avail rs = {} \<and> regions_ok rs"

definition slots :: "bootmem_region list \<Rightarrow> nat" where
  "slots rs = length (filter (\<lambda>r. rg_start r = 0) rs)"

lemma avail_simps [simp]: "avail [] = {}" "avail (r # rs) = region_set r \<union> avail rs"
  by (simp_all add: avail_def)

lemma bootmem_register_correct:
  assumes "slots rs > 0" and "s \<noteq> 0"
  obtains rs' where "bootmem_register rs s e = Some rs'" "slots rs' = slots rs - 1"
    "avail rs' = avail rs \<union> {unat s..<unat e}" "length rs' = length rs"
    "regions_ok rs \<Longrightarrow> unat s \<le> 0xFFFFF000 \<Longrightarrow> 4096 dvd unat e \<Longrightarrow> avail rs \<inter> {unat s..<unat e} = {} \<Longrightarrow> regions_ok rs'"
proof -
  have "\<exists>rs'. bootmem_register rs s e = Some rs' \<and> slots rs' = slots rs - 1 \<and>
    avail rs' = avail rs \<union> {unat s..<unat e} \<and> length rs' = length rs \<and>
    (regions_ok rs \<longrightarrow> unat s \<le> 0xFFFFF000 \<longrightarrow> 4096 dvd unat e \<longrightarrow> avail rs \<inter> {unat s..<unat e} = {} \<longrightarrow> regions_ok rs')"
    using assms(1)
  proof (induction rs)
    case (Cons r rs)
    show ?case
    proof (cases "rg_start r = 0")
      case True
      with assms(2) show ?thesis by (auto simp: slots_def region_set_def)
    next
      case False
      with Cons.prems have "slots rs > 0" by (simp add: slots_def)
      from Cons.IH [OF this] False show ?thesis by (auto simp: slots_def)
    qed
  qed (simp add: slots_def)
  then show thesis using that by blast
qed

section \<open>Registering memory\<close>

text \<open>The effect of adding the addresses \<open>X\<close> with at most \<open>k\<close> slots, the last address below \<open>e\<close>.\<close>

definition added :: "bootmem \<Rightarrow> nat set \<Rightarrow> u32 \<Rightarrow> nat \<Rightarrow> bootmem \<Rightarrow> bool" where
  "added bm X e k bm' \<longleftrightarrow>
     avail (memregions bm') = avail (memregions bm) \<union> X \<and> slots (memregions bm') + k \<ge> slots (memregions bm) \<and>
     (regions_ok (memregions bm) \<and> avail (memregions bm) \<inter> X = {} \<longrightarrow> regions_ok (memregions bm')) \<and>
     highest_page bm' = max (highest_page bm) (PA_TO_PN e)"

lemma added_trans:
  assumes "added bm X d j bm1" and "added bm1 Y e k bm2" and "X \<inter> Y = {}" and "PA_TO_PN d \<le> PA_TO_PN e"
  shows "added bm (X \<union> Y) e (j + k) bm2"
  using assms unfolding added_def by (auto simp: max_def Un_assoc Int_Un_distrib2 Int_Un_distrib)

definition raise_highest :: "bootmem \<Rightarrow> u32 \<Rightarrow> bootmem" where
  "raise_highest bm e = (if PA_TO_PN e > highest_page bm then bm\<lparr>highest_page := PA_TO_PN e\<rparr> else bm)"

lemma raise_highest_sel [simp]:
  "memregions (raise_highest bm e) = memregions bm"
  "highest_page (raise_highest bm e) = max (highest_page bm) (PA_TO_PN e)"
  by (auto simp: raise_highest_def)

lemma added_raise: "added (raise_highest bm e) X e' k bm' \<Longrightarrow> PA_TO_PN e' \<le> PA_TO_PN e \<Longrightarrow> added bm X e k bm'"
  by (auto simp: added_def max_def)

lemma added_none: "PA_TO_PN e \<le> highest_page bm \<Longrightarrow> added bm {} e 0 bm"
  by (simp add: added_def max_absorb1)

text \<open>One round of \<^verbatim>\<open>bootmem_add\<close> on page-aligned bounds.\<close>

lemma bootmem_add_aligned:
  assumes "4096 dvd unat s" and "4096 dvd unat e" and "s \<noteq> 0"
  shows "bootmem_add ki bm s e =
    (if s \<ge> kern_pg_start ki \<and> e < kern_pg_end ki then Some (0, raise_highest bm e)
     else if s < kern_pg_end ki \<and> e \<ge> kern_pg_end ki \<or> s \<le> kern_pg_start ki \<and> e > kern_pg_start ki
     then do {
       (r, bm) \<leftarrow> (if s < kern_pg_start ki then bootmem_add ki (raise_highest bm e) s (kern_pg_start ki)
                  else Some (0, raise_highest bm e));
       (r, bm) \<leftarrow> (if e > kern_pg_end ki then bootmem_add ki bm (kern_pg_end ki) e else Some (0, bm));
       Some (0, bm)
     }
     else case bootmem_register (memregions (raise_highest bm e)) s e of
            Some rs \<Rightarrow> Some (0, (raise_highest bm e)\<lparr>memregions := rs\<rparr>)
          | None \<Rightarrow> Some (- ENOMEM, raise_highest bm e))"
  unfolding bootmem_add.simps [of ki bm s e] PG_ALIGN_id [OF assms(1)] PG_ALIGN_DOWN_id [OF assms(2)]
    Let_def raise_highest_def
  using assms(3) by (simp cong: if_cong split del: if_split)

lemma bootmem_add_plain:
  assumes "4096 dvd unat s" and "4096 dvd unat e" and "s \<noteq> 0" and "slots (memregions bm) > 0"
    and "\<not> (s \<ge> kern_pg_start ki \<and> e < kern_pg_end ki)"
    and "\<not> (s < kern_pg_end ki \<and> e \<ge> kern_pg_end ki \<or> s \<le> kern_pg_start ki \<and> e > kern_pg_start ki)"
  obtains bm' where "bootmem_add ki bm s e = Some (0, bm')" "added bm {unat s..<unat e} e 1 bm'"
proof -
  obtain rs where rs: "bootmem_register (memregions bm) s e = Some rs" "slots rs = slots (memregions bm) - 1"
    "avail rs = avail (memregions bm) \<union> {unat s..<unat e}"
    "regions_ok (memregions bm) \<Longrightarrow> unat s \<le> 0xFFFFF000 \<Longrightarrow> 4096 dvd unat e \<Longrightarrow> avail (memregions bm) \<inter> {unat s..<unat e} = {} \<Longrightarrow> regions_ok rs"
    by (rule bootmem_register_correct [OF assms(4,3)]) blast
  have "bootmem_add ki bm s e = Some (0, (raise_highest bm e)\<lparr>memregions := rs\<rparr>)"
    unfolding bootmem_add_aligned [OF assms(1-3)] if_not_P [OF assms(5)] if_not_P [OF assms(6)] raise_highest_sel rs(1) by simp
  then show thesis
    by (rule that) (use rs assms(2) page_multiple_le [OF assms(1)] in \<open>auto simp: added_def\<close>)
qed

text \<open>The part of a range below or above the kernel: empty when the range does not reach there.\<close>

lemma added_mono: "added bm X e j bm' \<Longrightarrow> j \<le> k \<Longrightarrow> added bm X e k bm'"
  by (auto simp: added_def)

lemma bootmem_add_part:
  assumes "4096 dvd unat s" and "4096 dvd unat e" and "s \<noteq> 0" and "slots (memregions bm) > 0"
    and "e \<le> kern_pg_start ki \<or> kern_pg_end ki \<le> s" and "kern_pg_start ki < kern_pg_end ki"
    and "PA_TO_PN e \<le> highest_page bm"
  obtains bm' where "(if s < e then bootmem_add ki bm s e else Some (0, bm)) = Some (0, bm')"
    "added bm {unat s..<unat e} e 1 bm'"
proof (cases "s < e")
  case True
  show thesis
    by (rule bootmem_add_plain [of s e bm ki]) (use True assms that in auto)
next
  case False
  then have "{unat s..<unat e} = {}" by (simp add: word_less_nat_alt)
  with False show thesis
    using that [of bm] added_none [OF assms(7)] added_mono by simp
qed

lemma bootmem_add_split:
  assumes al: "4096 dvd unat s" "4096 dvd unat e" "s \<noteq> 0" and sl: "slots (memregions bm) \<ge> 2"
    and k: "kern_pg_start ki < kern_pg_end ki"
    and split: "\<not> (s \<ge> kern_pg_start ki \<and> e < kern_pg_end ki)"
      "s < kern_pg_end ki \<and> e \<ge> kern_pg_end ki \<or> s \<le> kern_pg_start ki \<and> e > kern_pg_start ki"
  obtains bm' where "bootmem_add ki bm s e = Some (0, bm')"
    "added bm ({unat s..<unat e} - {unat (kern_pg_start ki)..<unat (kern_pg_end ki)}) e 2 bm'"
proof -
  let ?ks = "kern_pg_start ki" and ?ke = "kern_pg_end ki"
  let ?bm = "raise_highest bm e"
  have kal: "4096 dvd unat ?ks" "4096 dvd unat ?ke"
    by (simp_all add: kern_pg_start_def kern_pg_end_def PG_ALIGN_dvd)
  have le: "PA_TO_PN ?ks \<le> PA_TO_PN e" using split k by (auto intro!: PA_TO_PN_mono)
  obtain b1 where b1: "(if s < ?ks then bootmem_add ki ?bm s ?ks else Some (0, ?bm)) = Some (0, b1)"
    "added ?bm {unat s..<unat ?ks} ?ks 1 b1"
    by (rule bootmem_add_part [of s ?ks ?bm ki]) (use al kal sl k le in \<open>auto simp: le_max_iff_disj\<close>)
  have hp: "PA_TO_PN e \<le> highest_page b1" and sl1: "slots (memregions b1) > 0" and ke0: "?ke \<noteq> 0"
    using b1(2) sl k by (auto simp: added_def le_max_iff_disj)
  obtain b2 where b2: "(if ?ke < e then bootmem_add ki b1 ?ke e else Some (0, b1)) = Some (0, b2)"
    "added b1 {unat ?ke..<unat e} e 1 b2"
    by (rule bootmem_add_part [of ?ke e b1 ki, OF kal(2) al(2) ke0 sl1 _ k hp]) auto
  have "bootmem_add ki bm s e = Some (0, b2)"
    unfolding bootmem_add_aligned [OF al] if_not_P [OF split(1)] if_P [OF split(2)] b1(1)
    using b2(1) by simp
  moreover have "added bm ({unat s..<unat ?ks} \<union> {unat ?ke..<unat e}) e (1 + 1) b2"
    by (rule added_raise [OF added_trans [OF b1(2) b2(2)]])
      (use k le in \<open>auto simp: word_less_nat_alt\<close>)
  moreover have "{unat s..<unat ?ks} \<union> {unat ?ke..<unat e} = {unat s..<unat e} - {unat ?ks..<unat ?ke}"
    using split k by (auto simp: word_less_nat_alt word_le_nat_alt)
  ultimately show thesis
    using that by (simp add: numeral_2_eq_2)
qed

lemma bootmem_add_range:
  assumes al: "4096 dvd unat s" "4096 dvd unat e" "s \<noteq> 0" and sl: "slots (memregions bm) \<ge> 2"
    and k: "kern_pg_start ki < kern_pg_end ki"
  obtains bm' where "bootmem_add ki bm s e = Some (0, bm')"
    "added bm ({unat s..<unat e} - {unat (kern_pg_start ki)..<unat (kern_pg_end ki)}) e 2 bm'"
proof -
  let ?S = "{unat s..<unat e}" and ?K = "{unat (kern_pg_start ki)..<unat (kern_pg_end ki)}"
  let ?ks = "kern_pg_start ki" and ?ke = "kern_pg_end ki"
  consider (skip) "s \<ge> ?ks \<and> e < ?ke"
    | (split) "\<not> (s \<ge> ?ks \<and> e < ?ke)" "s < ?ke \<and> e \<ge> ?ke \<or> s \<le> ?ks \<and> e > ?ks"
    | (plain) "\<not> (s \<ge> ?ks \<and> e < ?ke)" "\<not> (s < ?ke \<and> e \<ge> ?ke \<or> s \<le> ?ks \<and> e > ?ks)"
    by blast
  then show thesis
  proof cases
    case skip
    then have "bootmem_add ki bm s e = Some (0, raise_highest bm e)"
      unfolding bootmem_add_aligned [OF al] by simp
    moreover have e: "?S - ?K = {}"
      using skip by (auto simp: word_le_nat_alt word_less_nat_alt)
    have "added bm (?S - ?K) e 2 (raise_highest bm e)"
      unfolding e by (simp add: added_def)
    ultimately show thesis by (rule that)
  next
    case plain
    then have e: "?S - ?K = ?S"
      by (auto simp: word_le_nat_alt word_less_nat_alt)
    obtain bm' where "bootmem_add ki bm s e = Some (0, bm')" "added bm ?S e 1 bm'"
      by (rule bootmem_add_plain [OF al _ plain]) (use sl in auto)
    then show thesis
      using that [unfolded e] added_mono by fastforce
  next
    case split
    show thesis by (rule bootmem_add_split [OF al sl k split that])
  qed
qed

text \<open>The usable part of a reported range: whole pages, without page 0 and without the kernel image.\<close>

definition usable :: "kern_image \<Rightarrow> u32 \<Rightarrow> u32 \<Rightarrow> nat set" where
  "usable ki s e = {x. 4096 \<le> x \<and> unat (PG_ALIGN s) \<le> x \<and> x < unat (PG_ALIGN_DOWN e)} -
     {unat (kern_pg_start ki)..<unat (kern_pg_end ki)}"

lemma PG_ALIGN_nz: "PG_ALIGN s \<noteq> 0 \<Longrightarrow> 4096 \<le> unat (PG_ALIGN s)"
  using PG_ALIGN_dvd(1) [of s] by (auto simp: word_unat_eq_iff dest: dvd_imp_le)

lemma bootmem_add_general:
  assumes "slots (memregions bm) \<ge> 2" and "kern_pg_start ki < kern_pg_end ki"
  obtains bm' where "bootmem_add ki bm s e = Some (0, bm')"
    "avail (memregions bm') = avail (memregions bm) \<union> usable ki s e"
    "slots (memregions bm') + 2 \<ge> slots (memregions bm)"
    "regions_ok (memregions bm) \<Longrightarrow> avail (memregions bm) \<inter> usable ki s e = {} \<Longrightarrow> regions_ok (memregions bm')"
    "highest_page bm \<le> highest_page bm'" "usable ki s e \<noteq> {} \<Longrightarrow> PA_TO_PN e \<le> highest_page bm'"
proof (cases "PG_ALIGN s = 0 \<and> PG_SIZE \<ge> PG_ALIGN_DOWN e")
  case True
  then have "bootmem_add ki bm s e = Some (0, bm)"
    by (subst bootmem_add.simps) simp
  moreover have "usable ki s e = {}"
    using True by (auto simp: usable_def PG_SIZE_eq word_le_nat_alt)
  ultimately show thesis using that by simp
next
  case False
  define s' where "s' = (if PG_ALIGN s = 0 then PG_SIZE else PG_ALIGN s)"
  have al: "4096 dvd unat s'" "s' \<noteq> 0" by (simp_all add: s'_def PG_ALIGN_dvd PG_SIZE_eq)
  have "bootmem_add ki bm s e = bootmem_add ki bm s' (PG_ALIGN_DOWN e)"
    unfolding bootmem_add.simps [of ki bm s e] bootmem_add.simps [of ki bm s'] PG_ALIGN_id [OF al(1)]
      PG_ALIGN_DOWN_id [OF PG_ALIGN_dvd(2)] Let_def if_not_P [OF False] s'_def [symmetric]
    by (simp only: al(2) if_False simp_thms)
  moreover obtain bm' where "bootmem_add ki bm s' (PG_ALIGN_DOWN e) = Some (0, bm')"
    "added bm ({unat s'..<unat (PG_ALIGN_DOWN e)} - {unat (kern_pg_start ki)..<unat (kern_pg_end ki)})
      (PG_ALIGN_DOWN e) 2 bm'"
    by (rule bootmem_add_range [OF al(1) PG_ALIGN_dvd(2) al(2) assms])
  moreover have "{unat s'..<unat (PG_ALIGN_DOWN e)} - {unat (kern_pg_start ki)..<unat (kern_pg_end ki)} = usable ki s e"
    using PG_ALIGN_nz [of s] by (auto simp: usable_def s'_def PG_SIZE_eq)
  moreover have "PA_TO_PN (PG_ALIGN_DOWN e) = PA_TO_PN e"
    by (simp add: word_unat_eq_iff unat_PA_TO_PN unat_PG_ALIGN_DOWN)
  ultimately show thesis
    using that [of bm'] by (auto simp: added_def)
qed

section \<open>Early allocation\<close>

lemma region_set_upd [simp]:
  "rg_start r \<noteq> 0 \<Longrightarrow> region_set r = {unat (rg_start r)..<unat (rg_end r)}"
  "region_set (r\<lparr>rg_start := s\<rparr>) = (if s = 0 then {} else {unat s..<unat (rg_end r)})"
  by (simp_all add: region_set_def)

text \<open>What is cut from a single region.\<close>

lemma bootmem_cut:
  assumes "n \<le> 12" and "4096 dvd unat (rg_end r)" and "rg_start r = 0 \<longrightarrow> rg_end r = 0"
    and f: "ALIGN_2 (rg_start r) (2 ^ n) < ALIGN_2_DOWN (rg_end r) (2 ^ n)"
    and l: "ALIGN_2_DOWN (rg_end r) (2 ^ n) - ALIGN_2 (rg_start r) (2 ^ n) \<ge> len"
    and start: "unat (rg_start r) \<le> 0xFFFFF000"
  defines "first \<equiv> ALIGN_2 (rg_start r) (2 ^ n)"
  shows "rg_start r \<noteq> 0" "unat (first + len) = unat first + unat len" "unat first + unat len \<le> unat (rg_end r)"
    "unat (rg_start r) \<le> unat first" "2 ^ n dvd unat first" "first \<noteq> 0"
proof -
  have e: "ALIGN_2_DOWN (rg_end r) (2 ^ n) \<le> rg_end r"
    using ALIGN_2_DOWN_le by (simp add: word_le_nat_alt)
  have en: "unat (rg_end r) \<le> 0xFFFFF000" using assms(2) by (rule page_multiple_le)
  show nz: "rg_start r \<noteq> 0"
    using assms(3) f e by auto
  have p: "(2::nat) ^ n \<le> 2 ^ 12" using assms(1) by (intro power_increasing) auto
  have ge: "unat (rg_start r) \<le> unat first"
    unfolding first_def by (rule ALIGN_2_ge(1)) (use assms(1) p start en in auto)
  then show "unat (rg_start r) \<le> unat first" "first \<noteq> 0"
    using nz by (auto simp: word_unat_eq_iff)
  show "2 ^ n dvd unat first" unfolding first_def by (rule ALIGN_2_dvd)
  have "unat first + unat len \<le> unat (ALIGN_2_DOWN (rg_end r) (2 ^ n))"
    using f l unfolding first_def by (simp add: word_le_nat_alt word_less_nat_alt unat_sub)
  with e show le: "unat first + unat len \<le> unat (rg_end r)" by (simp add: word_le_nat_alt)
  then show "unat (first + len) = unat first + unat len"
    using en by (simp add: unat_word_ariths)
qed

lemma bootmem_take_correct:
  assumes "regions_ok rs" and "n \<le> 12" and "bootmem_take rs len (2 ^ n) = (p, rs')" and "p \<noteq> 0"
  shows "2 ^ n dvd unat (V2P p) \<and> {unat (V2P p)..<unat (V2P p) + unat len} \<subseteq> avail rs \<and>
    avail rs' \<subseteq> avail rs - {unat (V2P p)..<unat (V2P p) + unat len} \<and> regions_ok rs'"
  using assms
proof (induction rs arbitrary: p rs')
  case (Cons r rs)
  let ?f = "ALIGN_2 (rg_start r) (2 ^ n)"
  have ok: "rg_start r = 0 \<longrightarrow> rg_end r = 0" "unat (rg_start r) \<le> 0xFFFFF000" "4096 dvd unat (rg_end r)"
    "region_set r \<inter> avail rs = {}" "regions_ok rs"
    using Cons.prems(1) by auto
  show ?case
  proof (cases "?f < ALIGN_2_DOWN (rg_end r) (2 ^ n) \<and> ALIGN_2_DOWN (rg_end r) (2 ^ n) - ?f \<ge> len")
    case True
    then have eq: "p = P2V ?f" "rs' = r\<lparr>rg_start := ?f + len\<rparr> # rs"
      using Cons.prems(3) by (auto simp: Let_def)
    note c = bootmem_cut [OF Cons.prems(2) ok(3,1) True [THEN conjunct1] True [THEN conjunct2] ok(2)]
    have in_r: "{unat ?f..<unat ?f + unat len} \<subseteq> region_set r"
      using c by auto
    have rest: "region_set (r\<lparr>rg_start := ?f + len\<rparr>) \<subseteq> region_set r - {unat ?f..<unat ?f + unat len}"
      using c by auto
    have nz: "?f + len \<noteq> 0" and le: "unat (?f + len) \<le> 0xFFFFF000"
      using c page_multiple_le [OF ok(3)] by (auto simp: word_unat_eq_iff simp del: word_unat_eq_iff [symmetric])
    show ?thesis
      using in_r rest ok c(5) nz le by (auto simp: eq)
  next
    case False
    then obtain rs'' where t: "bootmem_take rs len (2 ^ n) = (p, rs'')" "rs' = r # rs''"
      using Cons.prems(3) by (auto simp: Let_def split: prod.splits)
    from Cons.IH [OF ok(5) Cons.prems(2) t(1) Cons.prems(4)] ok show ?thesis
      by (auto simp: t(2))
  qed
qed simp

section \<open>Handing over to the buddy allocator\<close>

lemma in_kernel_pages:
  assumes "in_kernel ki pa" and "unat (V2P (kern_end ki)) \<le> 0xFFFFF000"
  shows "unat pa \<in> {unat (kern_pg_start ki)..<unat (kern_pg_end ki)}"
proof -
  have "unat (kern_pg_start ki) \<le> unat (V2P (kern_start ki))"
    by (simp add: kern_pg_start_def unat_PG_ALIGN_DOWN)
  moreover have "unat (V2P (kern_end ki)) \<le> unat (kern_pg_end ki)"
    unfolding kern_pg_end_def unat_PG_ALIGN [OF assms(2)] by simp
  ultimately show ?thesis
    using assms(1) by (simp add: in_kernel_def word_le_nat_alt word_less_nat_alt)
qed

abbreviation inval :: "page_buddy_alloc \<Rightarrow> nat \<Rightarrow> bool" where
  "inval a q \<equiv> bit (pg_flags (pages a ! q)) PG_INVALID"

text \<open>The pages below the kernel's direct mapping limit in a range of addresses.\<close>

definition mapped_pages :: "nat set \<Rightarrow> nat set" where
  "mapped_pages X = {q. q * 4096 \<in> X \<and> q * 4096 < 0x30000000}"

definition booted :: "kern_image \<Rightarrow> page_buddy_alloc \<Rightarrow> nat set \<Rightarrow> page_buddy_alloc \<Rightarrow> bool" where
  "booted ki a X a' \<longleftrightarrow> buddy_run ki a' {} \<and> page_count a' = page_count a \<and>
     free_set a' = free_set a \<union> mapped_pages X \<and> (\<forall>q. q * 4096 \<notin> X \<longrightarrow> inval a' q = inval a q)"

lemma booted_trans: "booted ki a X b \<Longrightarrow> booted ki b Y c \<Longrightarrow> booted ki a (X \<union> Y) c"
  by (auto simp: booted_def mapped_pages_def)

lemma page_range_cons:
  assumes "4096 dvd f" and "f < l"
  shows "q * 4096 \<in> {f..<l} \<longleftrightarrow> q = f div 4096 \<or> q * 4096 \<in> {f + 4096..<(l::nat)}"
  using assms by (auto elim!: dvdE)

lemma bootmem_free_region_correct:
  assumes "buddy_run ki a {}" and "4096 dvd unat f" and "unat l \<le> page_count a * 4096"
    and "\<And>q. q * 4096 \<in> {unat f..<unat l} \<Longrightarrow> inval a q"
    and "{unat f..<unat l} \<inter> {unat (kern_pg_start ki)..<unat (kern_pg_end ki)} = {}"
    and "unat (V2P (kern_end ki)) \<le> 0xFFFFF000" and "f \<noteq> 0"
  shows "\<exists>a'. bootmem_free_region ki a f l = Some a' \<and> booted ki a {unat f..<unat l} a'"
  using assms
proof (induction ki a f l rule: bootmem_free_region.induct)
  case (1 ki a f l)
  let ?p = "unat (PA_TO_PN f)"
  note unfold = bootmem_free_region.simps [of ki a f l]
  show ?case
  proof (cases "f < l")
    case False
    then have "{unat f..<unat l} = {}" by (simp add: word_less_nat_alt)
    with False "1.prems"(1) show ?thesis
      by (simp add: unfold booted_def mapped_pages_def)
  next
    case True
    then have lt: "unat f < unat l" by (simp add: word_less_nat_alt)
    have p: "?p * 4096 = unat f" using "1.prems"(2) by (simp add: unat_PA_TO_PN)
    have pc: "?p < page_count a" using lt "1.prems"(3) p by simp
    have len: "length (pages a) = page_count a"
      using buddy_run_inv [OF "1.prems"(1)] buddy_invD(1) by (auto simp: run_inv_def buddy_wf_def)
    have iv: "inval a ?p" using "1.prems"(4) [of ?p] lt p by simp
    note split = page_range_cons [OF "1.prems"(2) lt]
    show ?thesis
    proof (cases "V2P KMAP_START \<le> f")
      case high: True
      then have hi: "0x30000000 \<le> unat f"
        by (simp add: V2P_KMAP_START)
      have "booted ki a {unat f..<unat l} (clear_invalid a ?p)"
        using buddy_run.high [OF "1.prems"(1) pc iv] hi split p len pc
        by (auto simp: booted_def clear_invalid_sel mapped_pages_def flags_clear_invalid unat_PA_TO_PN)
      then show ?thesis
        using True high pc len by (simp add: unfold page_from_pa_def Let_def)
    next
      case low: False
      then have lo: "unat f < 0x30000000"
        by (simp add: V2P_KMAP_START)
      have ki: "\<not> in_kernel ki f"
        using in_kernel_pages [OF _ "1.prems"(6)] "1.prems"(5) lt by fastforce
      obtain b where b: "u_mark_page_free ki (clear_invalid a ?p) f = Some b" "buddy_run ki b {}"
        "free_set b = insert ?p (free_set a)" "page_count b = page_count a"
        "\<And>q. inval b q \<longleftrightarrow> q \<noteq> ?p \<and> inval a q"
        by (rule buddy_boot_step [OF "1.prems"(1) pc iv ki "1.prems"(2)]) (use low "1.prems"(7) in \<open>simp, simp, blast\<close>)
      have f': "unat (f + PG_SIZE) = unat f + 4096"
        using lo by (simp add: unat_word_ariths PG_SIZE_eq)
      have "\<exists>a'. bootmem_free_region ki b (f + PG_SIZE) l = Some a' \<and> booted ki b {unat (f + PG_SIZE)..<unat l} a'"
      proof (rule "1.IH" [OF True _ refl low _ b(2)])
        show "page_from_pa f < length (pages a)" using pc len by (simp add: page_from_pa_def)
        show "u_mark_page_free ki (clear_invalid a (page_from_pa f)) f = Some b"
          using b(1) by (simp add: page_from_pa_def)
        show "inval b q" if "q * 4096 \<in> {unat (f + PG_SIZE)..<unat l}" for q
          using that "1.prems"(4) [of q] b(5) p unfolding f' by auto
        show "f + PG_SIZE \<noteq> 0" using f' by (auto simp: word_unat_eq_iff)
      qed (use "1.prems" f' b(4) in auto)
      then obtain a' where a': "bootmem_free_region ki b (f + PG_SIZE) l = Some a'"
        "booted ki b {unat (f + PG_SIZE)..<unat l} a'" by blast
      have "mapped_pages {unat f..<unat l} = insert ?p (mapped_pages {unat f + 4096..<unat l})"
        using split lo p by (auto simp: mapped_pages_def unat_PA_TO_PN)
      then have "booted ki a {unat f..<unat l} a'"
        using a'(2) b split p unfolding f' by (auto simp: booted_def unat_PA_TO_PN)
      then show ?thesis
        using a'(1) True low pc len b(1) by (simp add: unfold page_from_pa_def Let_def)
    qed
  qed
qed

lemma booted_cong:
  "(\<And>q. q * 4096 \<in> X \<longleftrightarrow> q * 4096 \<in> Y) \<Longrightarrow> booted ki a X b \<longleftrightarrow> booted ki a Y b"
  by (simp add: booted_def mapped_pages_def)

lemma page_start:
  assumes "unat s \<le> 0xFFFFF000"
  shows "unat (PG_ALIGN s) \<le> q * 4096 \<longleftrightarrow> unat s \<le> q * 4096"
  unfolding unat_PG_ALIGN [OF assms] by auto

text \<open>One registered region, whose start need not be page aligned any more.\<close>

lemma bootmem_region_booted:
  assumes run: "buddy_run ki a {}" and s: "unat s \<le> 0xFFFFF000" "s \<noteq> 0" and e: "4096 dvd unat e"
    and pc: "{unat s..<unat e} \<subseteq> {..<page_count a * 4096}"
    and iv: "\<And>q. q * 4096 \<in> {unat s..<unat e} \<Longrightarrow> inval a q"
    and k: "{unat s..<unat e} \<inter> {unat (kern_pg_start ki)..<unat (kern_pg_end ki)} = {}"
      "unat (V2P (kern_end ki)) \<le> 0xFFFFF000"
  shows "\<exists>b. bootmem_free_region ki a (PG_ALIGN s) (PG_ALIGN_DOWN e) = Some b \<and> booted ki a {unat s..<unat e} b"
proof -
  let ?f = "PG_ALIGN s"
  have eq: "q * 4096 \<in> {unat ?f..<unat e} \<longleftrightarrow> q * 4096 \<in> {unat s..<unat e}" for q
    by (simp add: page_start [OF s(1)])
  have sub: "{unat ?f..<unat e} \<subseteq> {unat s..<unat e}"
    unfolding unat_PG_ALIGN [OF s(1)] by auto
  have "\<exists>b. bootmem_free_region ki a ?f e = Some b \<and> booted ki a {unat ?f..<unat e} b"
  proof (cases "?f < e")
    case False
    then have "{unat ?f..<unat e} = {}" by (simp add: word_less_nat_alt)
    then show ?thesis
      using False run by (simp add: bootmem_free_region.simps booted_def mapped_pages_def)
  next
    case True
    then have "unat e - 1 \<in> {unat s..<unat e}" using sub by (auto simp: word_less_nat_alt subset_iff)
    then have "unat e \<le> page_count a * 4096" using pc by auto
    moreover have "{unat ?f..<unat e} \<inter> {unat (kern_pg_start ki)..<unat (kern_pg_end ki)} = {}"
      using sub k(1) by blast
    moreover have "?f \<noteq> 0"
      using s(2) unfolding word_unat_eq_iff unat_PG_ALIGN [OF s(1)] by simp
    ultimately show ?thesis
      using bootmem_free_region_correct [OF run PG_ALIGN_dvd(1)] iv k(2) eq by blast
  qed
  then show ?thesis
    using booted_cong [OF eq] unfolding PG_ALIGN_DOWN_id [OF e] by blast
qed

lemma bootmem_free_regions_correct:
  assumes "buddy_run ki a {}" and "regions_ok rs" and "avail rs \<subseteq> {..<page_count a * 4096}"
    and "\<And>q. q * 4096 \<in> avail rs \<Longrightarrow> inval a q"
    and "avail rs \<inter> {unat (kern_pg_start ki)..<unat (kern_pg_end ki)} = {}"
    and "unat (V2P (kern_end ki)) \<le> 0xFFFFF000"
  shows "\<exists>a'. bootmem_free_regions ki a rs = Some a' \<and> booted ki a (avail rs) a'"
  using assms
proof (induction rs arbitrary: a)
  case (Cons r rs)
  have ok: "unat (rg_start r) \<le> 0xFFFFF000" "4096 dvd unat (rg_end r)" "region_set r \<inter> avail rs = {}" "regions_ok rs"
    using Cons.prems(2) by auto
  show ?case
  proof (cases "rg_start r = 0")
    case True
    then show ?thesis using Cons.IH [of a] Cons.prems by (simp add: region_set_def)
  next
    case False
    then have r: "region_set r = {unat (rg_start r)..<unat (rg_end r)}" by simp
    have "\<exists>b. bootmem_free_region ki a (PG_ALIGN (rg_start r)) (PG_ALIGN_DOWN (rg_end r)) = Some b \<and>
      booted ki a (region_set r) b"
      unfolding r
      by (rule bootmem_region_booted [OF Cons.prems(1) ok(1) False ok(2)])
        (use Cons.prems(3-6) in \<open>unfold avail_simps r [symmetric], blast+\<close>)
    then obtain b where b: "bootmem_free_region ki a (PG_ALIGN (rg_start r)) (PG_ALIGN_DOWN (rg_end r)) = Some b"
      "booted ki a (region_set r) b" by blast
    have "inval b q" if "q * 4096 \<in> avail rs" for q
      using b(2) that ok(3) Cons.prems(4) [of q] unfolding booted_def by auto
    then have "\<exists>c. bootmem_free_regions ki b rs = Some c \<and> booted ki b (avail rs) c"
      using Cons.IH [of b] b(2) Cons.prems(3,5,6) ok(4) by (auto simp: booted_def Int_Un_distrib2)
    then show ?thesis
      using b False booted_trans [OF b(2)] by auto
  qed
qed (simp add: booted_def mapped_pages_def)

section \<open>Properties of the boot allocator\<close>

text \<open>
  With two free slots left, \<^verbatim>\<open>bootmem_add\<close> returns (its recursion around the kernel image ends)
  and registers exactly the whole pages of the range, without page 0 and without the pages of the
  kernel image; disjoint regions stay disjoint, and the highest page covers what was registered.
\<close>

theorem bootmem_add_correct:
  assumes "slots (memregions bm) \<ge> 2" and "kern_pg_start ki < kern_pg_end ki"
  shows "\<exists>bm'. bootmem_add ki bm s e = Some (0, bm') \<and>
    avail (memregions bm') = avail (memregions bm) \<union> usable ki s e \<and>
    (regions_ok (memregions bm) \<and> avail (memregions bm) \<inter> usable ki s e = {} \<longrightarrow> regions_ok (memregions bm')) \<and>
    highest_page bm \<le> highest_page bm' \<and> (usable ki s e \<noteq> {} \<longrightarrow> PA_TO_PN e \<le> highest_page bm')"
  by (rule bootmem_add_general [OF assms]) blast

lemma example_kernel_pages:
  "kern_pg_start example_image = 0x100000" "kern_pg_end example_image = 0x400000"
  by (simp_all add: kern_pg_start_def kern_pg_end_def example_image_def V2P_def KMEM_KBASE_def PG_ALIGN_def
      PG_ALIGN_DOWN_def ALIGN_2_def ALIGN_2_DOWN_def PG_SIZE_eq)

theorem bootmem_add_correct_witness:
  "\<exists>bm'. bootmem_add example_image bootmem_empty 0 0x600800 = Some (0, bm') \<and>
     avail (memregions bm') = usable example_image 0 0x600800 \<and> 0x400000 \<in> avail (memregions bm') \<and>
     0x3FF000 \<notin> avail (memregions bm')"
proof -
  have "slots (memregions bootmem_empty) \<ge> 2" by (simp add: slots_def bootmem_empty_def)
  moreover have "kern_pg_start example_image < kern_pg_end example_image" by (simp add: example_kernel_pages)
  moreover have "avail (memregions bootmem_empty) = {}"
    by (auto simp: avail_def bootmem_empty_def region_set_def)
  moreover have "0x400000 \<in> usable example_image 0 0x600800" "0x3FF000 \<notin> usable example_image 0 0x600800"
    by (simp_all add: usable_def example_kernel_pages unat_PG_ALIGN unat_PG_ALIGN_DOWN)
  ultimately show ?thesis
    using bootmem_add_correct [of bootmem_empty example_image 0 "0x600800"] by auto
qed

text \<open>
  C24. An early allocation with an alignment of at most a page returns an aligned block that lies in
  registered memory, and takes it out: no later allocation and no page handed to the buddy allocator
  overlaps it.
\<close>

theorem bootmem_alloc_correct:
  assumes "regions_ok (memregions bm)" and "n \<le> 12" and "bootmem_alloc bm len (2 ^ n) = Some (p, bm')"
  shows "2 ^ n dvd unat (V2P p) \<and> {unat (V2P p)..<unat (V2P p) + unat len} \<subseteq> avail (memregions bm) \<and>
    avail (memregions bm') \<subseteq> avail (memregions bm) - {unat (V2P p)..<unat (V2P p) + unat len} \<and>
    regions_ok (memregions bm') \<and> highest_page bm' = highest_page bm"
proof -
  obtain rs where "bootmem_take (memregions bm) len (2 ^ n) = (p, rs)" "p \<noteq> 0" "bm' = bm\<lparr>memregions := rs\<rparr>"
    using assms(3) by (auto simp: bootmem_alloc_def bootmem_alloc_nopanic_def Let_def split: prod.splits if_splits)
  with bootmem_take_correct [OF assms(1,2)] show ?thesis by auto
qed

definition example_bootmem :: bootmem where
  "example_bootmem = \<lparr>memregions = [\<lparr>rg_start = 0x400000, rg_end = 0x600000\<rparr>], highest_page = 1536\<rparr>"

lemma example_bootmem_ok: "regions_ok (memregions example_bootmem)"
  by (simp add: example_bootmem_def)

lemma example_bootmem_alloc:
  "bootmem_alloc example_bootmem 0x18000 4096 =
     Some (0xC0400000, \<lparr>memregions = [\<lparr>rg_start = 0x418000, rg_end = 0x600000\<rparr>], highest_page = 1536\<rparr>)"
  by (simp add: bootmem_alloc_def bootmem_alloc_nopanic_def example_bootmem_def ALIGN_2_def ALIGN_2_DOWN_def
      P2V_def KMEM_KBASE_def)

theorem bootmem_alloc_correct_witness:
  "4096 dvd unat (V2P 0xC0400000) \<and>
   {unat (V2P 0xC0400000)..<unat (V2P 0xC0400000) + 0x18000} \<subseteq> avail (memregions example_bootmem)"
  using bootmem_alloc_correct [of example_bootmem 12 "0x18000", OF example_bootmem_ok, of "0xC0400000"]
    example_bootmem_alloc by simp



end
