(* ===== verification/PageProvider.thy ===== *)
theory PageProvider
  imports PallocRun
begin

text \<open>
  The contract under which other components take blocks of pages: locale \<open>page_provider\<close>. The clients
  see virtual addresses, so this theory also shows that every page the buddy allocator hands out has
  its direct-mapped virtual address. The buddy allocator is an interpretation.
\<close>

section \<open>The pages of a run\<close>

definition boot_page :: "kern_image \<Rightarrow> nat \<Rightarrow> bool" where
  "boot_page ki q \<longleftrightarrow> \<not> in_kernel ki (PN_TO_PA (of_nat q)) \<and> 0 < q \<and> q < 0x30000"

definition virt_ok :: "page_buddy_alloc \<Rightarrow> bool" where
  "virt_ok a \<longleftrightarrow> (\<forall>p<page_count a. pg_virt (pages a ! p) = P2V (PN_TO_PA (of_nat p)))"

definition held_pages :: "(nat \<times> nat) set \<Rightarrow> nat set" where
  "held_pages L = (\<Union>(p, k)\<in>L. blk p k)"

definition run_pages :: "kern_image \<Rightarrow> page_buddy_alloc \<Rightarrow> (nat \<times> nat) set \<Rightarrow> bool" where
  "run_pages ki a L \<longleftrightarrow> virt_ok a \<and> (\<forall>q\<in>free_set a \<union> held_pages L. boot_page ki q)"

lemma virt_ok_frame:
  assumes "page_count b = page_count a" and "\<And>q. pg_virt (pages b ! q) = pg_virt (pages a ! q)"
  shows "virt_ok b = virt_ok a"
  using assms by (simp add: virt_ok_def)

lemma clear_invalid_virt: "pg_virt (pages (clear_invalid a p) ! q) = pg_virt (pages a ! q)"
  by (simp add: clear_invalid_def pages_page_upd)

lemma palloc_take_pages:
  assumes "run_inv a L" and "palloc_take a k = Some (Page p, a')" and "k < PALLOC_MAPS"
  shows "same_but p a a'" "free_set a' = free_set a - blk p k" "blk p k \<subseteq> free_set a"
proof -
  have wf: "buddy_wf a" using assms(1) by (simp add: run_inv_def)
  then have "\<exists>i\<in>{k..<PALLOC_MAPS}. flv a i \<noteq> []"
    using palloc_take_none [OF _ assms(3), of a] assms(2) by auto
  then obtain p' b where "palloc_take a k = Some (Page p', b)" "blk p' k \<subseteq> free_set a"
    "free_set b = free_set a - blk p' k" "same_but p' a b"
    by (rule palloc_take_correct [OF wf assms(3)]) blast
  with assms(2) show "same_but p a a'" "free_set a' = free_set a - blk p k" "blk p k \<subseteq> free_set a"
    by auto
qed

lemma pfree_pages:
  assumes "run_inv a L" and "(p, k) \<in> L" and "\<not> in_kernel ki (PN_TO_PA (of_nat p))"
  obtains a' where "pfree ki a (Some p) k = Some a'" "same_but p a a'" "free_set a' = free_set a \<union> blk p k"
proof (rule pfree_correct)
  show "buddy_wf a" "allocated a p k" "32 dvd page_count a"
    using assms(1,2) by (auto simp: run_inv_def)
qed (use assms(3) that in auto)

lemma run_pages_boot:
  assumes r: "buddy_run ki a L" and rp: "run_pages ki a L" and p: "unat (PA_TO_PN pa) < page_count a"
    "bit (pg_flags (pages a ! unat (PA_TO_PN pa))) PG_INVALID" and ki: "\<not> in_kernel ki pa"
    and pa: "4096 dvd unat pa" "pa < V2P KMAP_START" "pa \<noteq> 0"
    and st: "u_mark_page_free ki (clear_invalid a (unat (PA_TO_PN pa))) pa = Some a'"
  shows "run_pages ki a' L"
proof -
  let ?p = "unat (PA_TO_PN pa)"
  obtain b where b: "u_mark_page_free ki (clear_invalid a ?p) pa = Some b" "free_set b = insert ?p (free_set a)"
    "page_count b = page_count a" "\<And>q. pg_virt (pages b ! q) = pg_virt (pages a ! q)"
    by (rule buddy_boot_step [OF r p ki pa]) blast
  have "0 < unat pa" using pa(3) by (simp add: unat_gt_0)
  then have "4096 \<le> unat pa" using pa(1) by (rule dvd_imp_le [rotated])
  then have "boot_page ki ?p"
    unfolding boot_page_def PN_TO_PA_PA_TO_PN [OF pa(1)]
    using ki pa(2) by (simp add: unat_PA_TO_PN V2P_KMAP_START div_greater_zero_iff less_mult_imp_div_less)
  moreover have "virt_ok b = virt_ok a" by (rule virt_ok_frame [OF b(3,4)])
  ultimately show ?thesis
    using rp b(1,2) st by (auto simp: run_pages_def)
qed

lemma buddy_run_pages: "buddy_run ki a L \<Longrightarrow> run_pages ki a L"
proof (induction rule: buddy_run.induct)
  case (init n mem)
  then have "pg_virt (pages (fst (palloc_init mem n)) ! p) = P2V (PN_TO_PA (of_nat p))" if "p < n" for p
    using that by (simp add: palloc_init_pages page_init_entry_def PN_TO_PA_def)
  with init show ?case
    using palloc_init_wf(2) [of n mem] by (simp add: run_pages_def virt_ok_def held_pages_def)
next
  case (boot a L pa a')
  show ?case by (rule run_pages_boot [OF boot.hyps(1) boot.IH boot.hyps(2-8)])
next
  case (high a L p)
  then show ?case
    by (simp add: run_pages_def clear_invalid_sel virt_ok_def clear_invalid_virt)
next
  case (alloc a L k me flags p a')
  have tk: "palloc_take a k = Some (Page p, a')"
    using palloc_cases [OF alloc.hyps(3)] by auto
  note t = palloc_take_pages [OF buddy_run_inv [OF alloc.hyps(1)] tk alloc.hyps(2)]
  then have "virt_ok a' = virt_ok a" by (intro virt_ok_frame) (auto simp: same_but_def)
  with t alloc.IH show ?case
    by (auto simp: run_pages_def held_pages_def)
next
  case (sleep a L k me flags a')
  then have a': "a' = map_upd a k (\<lambda>m. m\<lparr>wait_for_free := wait_for_free m @ [me]\<rparr>)"
    using palloc_cases [OF sleep.hyps(3)] palloc_take_not_sleeping by auto
  then have o: "ordv a' = ordv a" "pages a' = pages a" "page_count a' = page_count a"
    by (simp_all add: ordv_def map_upd_def fun_eq_iff)
  with sleep.IH show ?case
    by (simp add: run_pages_def virt_ok_def free_set_def)
next
  case (free a L p k a')
  obtain b where b: "pfree ki a (Some p) k = Some b" "same_but p a b" "free_set b = free_set a \<union> blk p k"
    by (rule pfree_pages [OF buddy_run_inv [OF free.hyps(1)] free.hyps(2,3)])
  then have "virt_ok b = virt_ok a" by (intro virt_ok_frame) (auto simp: same_but_def)
  with b free show ?case
    by (auto simp: run_pages_def held_pages_def)
qed

section \<open>The contract\<close>

text \<open>
  \<open>held p H\<close>: the provider is in a good state and the blocks at the addresses \<open>H\<close> belong to the
  client. Blocks are aligned to their size, so different addresses are disjoint blocks. The allocation may
  return the null address, or not return at all.
\<close>

locale page_provider =
  fixes held :: "'p \<Rightarrow> nat set \<Rightarrow> bool"
    and bsize :: nat
    and pal :: "'p \<Rightarrow> (nat \<times> 'p) option"
    and pfr :: "nat \<Rightarrow> 'p \<Rightarrow> 'p option"
  assumes bsize: "0 < bsize"
    and held_addr: "held p H \<Longrightarrow> v \<in> H \<Longrightarrow> bsize dvd v \<and> 0 < v \<and> v + bsize \<le> 0xF0000000"
    and pal: "held p H \<Longrightarrow> pal p = Some (v, p') \<Longrightarrow> v \<noteq> 0 \<Longrightarrow> v \<notin> H \<and> held p' (insert v H)"
    and pal_null: "held p H \<Longrightarrow> pal p = Some (0, p') \<Longrightarrow> held p' H"
    and pfr: "held p H \<Longrightarrow> v \<in> H \<Longrightarrow> \<exists>p'. pfr v p = Some p' \<and> held p' (H - {v})"
begin

lemma blocks_disjoint:
  assumes "held p H" and "u \<in> H" and "v \<in> H" and "u \<noteq> v"
  shows "{u..<u + bsize} \<inter> {v..<v + bsize} = {}"
proof -
  obtain i j where "u = bsize * i" "v = bsize * j"
    using held_addr [OF assms(1,2)] held_addr [OF assms(1,3)] by (auto elim!: dvdE)
  moreover have "bsize * i + bsize \<le> bsize * j \<or> bsize * j + bsize \<le> bsize * i" if "i \<noteq> j"
  proof (cases "i < j")
    case True
    then have "bsize * Suc i \<le> bsize * j" by (intro mult_le_mono2) simp
    then show ?thesis by simp
  next
    case False
    with that have "bsize * Suc j \<le> bsize * i" by (intro mult_le_mono2) simp
    then show ?thesis by simp
  qed
  ultimately show ?thesis using assms(4) by auto
qed

end

section \<open>The buddy allocator keeps the contract\<close>

definition SLAB_ORDER :: nat where
  "SLAB_ORDER = 5"

text \<open>\<^verbatim>\<open>palloc_va\<close> and \<^verbatim>\<open>pfree_va\<close> for blocks of the slab order, with addresses as numbers.\<close>

definition slab_palloc_va :: "nat \<Rightarrow> u32 \<Rightarrow> page_buddy_alloc \<Rightarrow> (nat \<times> page_buddy_alloc) option" where
  "slab_palloc_va me flags a = map_option (apfst unat) (palloc_va (\<lambda>a. a) me a SLAB_ORDER flags)"

definition slab_pfree_va :: "kern_image \<Rightarrow> nat \<Rightarrow> page_buddy_alloc \<Rightarrow> page_buddy_alloc option" where
  "slab_pfree_va ki v a = pfree_va ki a (of_nat v) SLAB_ORDER"

definition va_of_page :: "nat \<Rightarrow> nat" where
  "va_of_page q = 0xC0000000 + q * 4096"

definition held_frames :: "kern_image \<Rightarrow> page_buddy_alloc \<Rightarrow> nat set \<Rightarrow> bool" where
  "held_frames ki a H \<longleftrightarrow> (\<exists>L. buddy_run ki a L \<and> (\<forall>v\<in>H. \<exists>q. v = va_of_page q \<and> (q, SLAB_ORDER) \<in> L))"

lemma va_of_page_inj: "va_of_page p = va_of_page q \<longleftrightarrow> p = q"
  by (simp add: va_of_page_def)

lemma va_of_page:
  assumes "q < 0x30000"
  shows "unat (P2V (PN_TO_PA (of_nat q))) = va_of_page q" and "page_from_pa (V2P (of_nat (va_of_page q))) = q"
proof -
  have *: "P2V (PN_TO_PA (of_nat q)) = of_nat (va_of_page q)"
    by (simp add: P2V_def KMEM_KBASE_def PN_TO_PA_of_nat va_of_page_def)
  have le: "va_of_page q < 4294967296" using assms by (simp add: va_of_page_def)
  show "unat (P2V (PN_TO_PA (of_nat q))) = va_of_page q"
    unfolding * using le by (rule unat_of_nat_u32)
  have "unat (PN_TO_PA (of_nat q)) = q * 4096"
    unfolding PN_TO_PA_of_nat using assms by (intro unat_of_nat_u32) simp
  then show "page_from_pa (V2P (of_nat (va_of_page q))) = q"
    by (simp add: page_from_pa_def flip: *) (simp add: unat_PA_TO_PN)
qed

lemma held_page:
  assumes "buddy_run ki a L" and "(q, k) \<in> L"
  shows "boot_page ki q" "2 ^ k dvd q" "q + 2 ^ k \<le> 0x30000" "pg_virt (pages a ! q) = P2V (PN_TO_PA (of_nat q))"
proof -
  have al: "allocated a q k" using buddy_run_inv [OF assms(1)] assms(2) by (auto simp: run_inv_def)
  note rp = buddy_run_pages [OF assms(1), unfolded run_pages_def]
  have "blk q k \<subseteq> held_pages L" using assms(2) by (auto simp: held_pages_def)
  then have bp: "boot_page ki r" if "r \<in> blk q k" for r using rp that by blast
  from bp [of q] show "boot_page ki q" by simp
  have "(1::nat) \<le> 2 ^ k" by simp
  then have "q + 2 ^ k - 1 \<in> blk q k" by (simp only: atLeastLessThan_iff) linarith
  from bp [OF this] show "q + 2 ^ k \<le> 0x30000" unfolding boot_page_def by linarith
  show "2 ^ k dvd q" using al by (simp add: allocated_def)
  have "q < page_count a" using al by (auto simp: allocated_def intro: less_le_trans [rotated])
  then show "pg_virt (pages a ! q) = P2V (PN_TO_PA (of_nat q))" using rp by (simp add: virt_ok_def)
qed

lemma slab_palloc_cases:
  assumes "buddy_run ki a L" and "slab_palloc_va me flags a = Some (v, a')"
  obtains q where "v = va_of_page q" "(q, SLAB_ORDER) \<notin> L" "buddy_run ki a' (insert (q, SLAB_ORDER) L)"
proof -
  obtain q where q: "palloc (\<lambda>a. a) me a SLAB_ORDER flags = Some (Page q, a')" "v = unat (pg_virt (pages a' ! q))"
    using assms(2)
    by (auto simp: slab_palloc_va_def palloc_va_def palloc_def split: option.splits palloc_result.splits prod.splits)
  have tk: "palloc_take a SLAB_ORDER = Some (Page q, a')"
    using palloc_cases [OF q(1)] by auto
  have k: "SLAB_ORDER < PALLOC_MAPS" by (simp add: SLAB_ORDER_def)
  have run: "buddy_run ki a' (insert (q, SLAB_ORDER) L)"
    by (rule buddy_run.alloc [OF assms(1) k q(1)])
  note h = held_page [OF run insertI1]
  show thesis
  proof (rule that [OF _ run_inv_alloc(3) [OF buddy_run_inv [OF assms(1)] tk k] run])
    show "v = va_of_page q" using q(2) h va_of_page(1) by (simp add: boot_page_def)
  qed
qed

interpretation buddy: page_provider "held_frames ki" "4096 * 2 ^ SLAB_ORDER" "slab_palloc_va me flags" "slab_pfree_va ki"
  for ki me flags
proof
  show "0 < (4096 :: nat) * 2 ^ SLAB_ORDER" by simp
  show "4096 * 2 ^ SLAB_ORDER dvd v \<and> 0 < v \<and> v + 4096 * 2 ^ SLAB_ORDER \<le> 0xF0000000"
    if hyps: "held_frames ki p H" "v \<in> H" for p H v
  proof -
    obtain L q where "buddy_run ki p L" "v = va_of_page q" "(q, SLAB_ORDER) \<in> L"
      using hyps by (auto simp: held_frames_def)
    with held_page [of ki p L q SLAB_ORDER] show ?thesis
      by (auto simp: va_of_page_def SLAB_ORDER_def elim!: dvdE)
  qed
  show "v \<notin> H \<and> held_frames ki p' (insert v H)"
    if hyps: "held_frames ki p H" "slab_palloc_va me flags p = Some (v, p')" "v \<noteq> 0" for p H v p'
  proof -
    obtain L where L: "buddy_run ki p L" "\<forall>v\<in>H. \<exists>q. v = va_of_page q \<and> (q, SLAB_ORDER) \<in> L"
      using hyps by (auto simp: held_frames_def)
    from slab_palloc_cases [OF L(1) hyps(2)] obtain q where
      "v = va_of_page q" "(q, SLAB_ORDER) \<notin> L" "buddy_run ki p' (insert (q, SLAB_ORDER) L)" .
    then show ?thesis
      using L(2) by (fastforce simp: held_frames_def va_of_page_inj)
  qed
  show "held_frames ki p' H" if "held_frames ki p H" "slab_palloc_va me flags p = Some (0, p')" for p H p'
    using that slab_palloc_cases [of ki p _ me flags 0 p'] by (auto simp: held_frames_def va_of_page_def)
  show "\<exists>p'. slab_pfree_va ki v p = Some p' \<and> held_frames ki p' (H - {v})"
    if hyps: "held_frames ki p H" "v \<in> H" for p H v
  proof -
    obtain L q where L: "buddy_run ki p L" "\<forall>v\<in>H. \<exists>q. v = va_of_page q \<and> (q, SLAB_ORDER) \<in> L"
      "v = va_of_page q" "(q, SLAB_ORDER) \<in> L"
      using hyps unfolding held_frames_def by blast
    note h = held_page [OF L(1,4)]
    obtain a' where a': "pfree ki p (Some q) SLAB_ORDER = Some a'"
      by (rule pfree_pages [OF buddy_run_inv [OF L(1)] L(4)]) (use h in \<open>auto simp: boot_page_def\<close>)
    have "buddy_run ki a' (L - {(q, SLAB_ORDER)})"
      by (rule buddy_run.free [OF L(1,4) _ a']) (use h in \<open>simp add: boot_page_def\<close>)
    moreover have "slab_pfree_va ki v p = Some a'"
      using a' h va_of_page(2) [of q] by (simp add: slab_pfree_va_def pfree_va_def pfree_pa_def L(3) boot_page_def)
    ultimately show ?thesis
      using L(2,3) by (fastforce simp: held_frames_def va_of_page_inj)
  qed
qed

section \<open>A run with a whole free block\<close>

lemma example_block:
  "n \<le> 32 \<Longrightarrow> \<exists>a. buddy_run example_image a {} \<and> free_set a = {32..<32 + n} \<and> page_count a = 64 \<and>
     (\<forall>q. 32 + n \<le> q \<and> q < 64 \<longrightarrow> bit (pg_flags (pages a ! q)) PG_INVALID)"
proof (induction n)
  case 0
  let ?a = "fst (palloc_init (\<lambda>_. zero_page) 64)"
  have "buddy_run example_image ?a {}" by (rule buddy_run.init) simp_all
  then show ?case
    using palloc_init_wf(2) [of 64 "\<lambda>_. zero_page"]
    by (intro exI [of _ ?a]) (simp add: palloc_init_pages page_init_entry_def bit_set_bit_iff)
next
  case (Suc n)
  then obtain a where a: "buddy_run example_image a {}" "free_set a = {32..<32 + n}" "page_count a = 64"
    "\<forall>q. 32 + n \<le> q \<and> q < 64 \<longrightarrow> bit (pg_flags (pages a ! q)) PG_INVALID" by auto
  define pa :: u32 where "pa = of_nat ((32 + n) * 4096)"
  have u: "unat pa = (32 + n) * 4096" unfolding pa_def using Suc.prems by (intro unat_of_nat_u32) simp
  then have pn: "unat (PA_TO_PN pa) = 32 + n" by (simp add: unat_PA_TO_PN)
  have "\<not> in_kernel example_image pa"
    using Suc.prems u by (simp add: in_kernel_def example_image_def V2P_def KMEM_KBASE_def word_le_nat_alt)
  then have pre: "unat (PA_TO_PN pa) < page_count a" "bit (pg_flags (pages a ! unat (PA_TO_PN pa))) PG_INVALID"
    "\<not> in_kernel example_image pa" "4096 dvd unat pa" "pa < V2P KMAP_START" "pa \<noteq> 0"
    using a(3,4) Suc.prems u pn by (auto simp: V2P_KMAP_START)
  obtain b where "buddy_run example_image b {}" "free_set b = insert (32 + n) (free_set a)" "page_count b = page_count a"
    "\<And>q. bit (pg_flags (pages b ! q)) PG_INVALID \<longleftrightarrow> q \<noteq> 32 + n \<and> bit (pg_flags (pages a ! q)) PG_INVALID"
    by (rule buddy_boot_step [OF a(1) pre, unfolded pn]) blast
  with a show ?case
    by (intro exI [of _ b]) (auto simp: atLeastLessThanSuc)
qed

lemma example_frame:
  obtains a v a' where "held_frames example_image a {}" "slab_palloc_va 0 PAL_ATOMIC a = Some (v, a')" "v \<noteq> 0"
proof -
  obtain a where a: "buddy_run example_image a {}" "free_set a = {32..<32 + 32}"
    using example_block [of 32] by auto
  have wf: "buddy_wf a" "coalesced a" using buddy_run_inv [OF a(1)] by (auto simp: run_inv_def)
  have k: "SLAB_ORDER < PALLOC_MAPS" by (simp add: SLAB_ORDER_def)
  have "\<exists>p. 2 ^ SLAB_ORDER dvd p \<and> blk p SLAB_ORDER \<subseteq> free_set a"
    by (intro exI [of _ 32]) (simp add: a(2) SLAB_ORDER_def)
  then have ex: "\<exists>i\<in>{SLAB_ORDER..<PALLOC_MAPS}. flv a i \<noteq> []" using free_run_iff [OF wf k] by simp
  obtain p a' where "palloc_take a SLAB_ORDER = Some (Page p, a')"
    by (rule palloc_take_correct [OF wf(1) k ex]) blast
  then have "\<exists>v. slab_palloc_va 0 PAL_ATOMIC a = Some (v, a')"
    by (simp add: slab_palloc_va_def palloc_va_def palloc_atomic)
  then obtain v where v: "slab_palloc_va 0 PAL_ATOMIC a = Some (v, a')" by blast
  moreover obtain q where "v = va_of_page q" by (rule slab_palloc_cases [OF a(1) v])
  then have "v \<noteq> 0" by (simp add: va_of_page_def)
  moreover have "held_frames example_image a {}" using a(1) by (auto simp: held_frames_def)
  ultimately show thesis using that by blast
qed

end
