(* ===== verification/Slab.thy ===== *)
theory Slab
  imports PageProvider
begin

text \<open>
  The slab allocator: \<^verbatim>\<open>src/mm/slab.c\<close>. A slab hands out objects of one size from frames of
  \<^verbatim>\<open>1 << CONFIG_KERNEL_SLAB_ORDER\<close> pages. Free objects are poisoned and chained through their first word, so
  the free list is a linked list in memory. Addresses and memory words are natural numbers: every
  frame lies below 2 ^ 32. The frame headers are records, chained in a list; a null pointer is 0, a panic
  or a loop that does not end is \<^term>\<open>None\<close>. The lock is held throughout except around
  \<^verbatim>\<open>palloc_va\<close>, where the model lets no other task in.
\<close>

section \<open>Model\<close>

type_synonym wmem = "nat \<Rightarrow> nat"

record slab_page_frame =
  fr_addr :: nat
  first_addr :: nat
  last_addr :: nat
  page_index_size :: nat
  object_count :: nat
  free_object_count :: int
  freelist :: nat

record slab_alloc =
  slab_name :: string
  object_size :: nat
  frames :: "slab_page_frame list"

definition SLAB_ALLOC_INIT :: "string \<Rightarrow> nat \<Rightarrow> slab_alloc" where
  "SLAB_ALLOC_INIT name osize = \<lparr>slab_name = name, object_size = osize, frames = []\<rparr>"

definition SLAB_POISON :: nat where
  "SLAB_POISON = 0xDEADBEAF"

definition sizeof_slab_page_frame :: nat where
  "sizeof_slab_page_frame = 28"

definition align_addr :: "nat \<Rightarrow> nat \<Rightarrow> nat" where
  "align_addr a osize = unat (ALIGN_2 (of_nat a) (of_nat osize))"

fun slab_poison :: "wmem \<Rightarrow> nat \<Rightarrow> nat \<Rightarrow> wmem" where
  "slab_poison mem obj 0 = mem"
| "slab_poison mem obj (Suc k) = (slab_poison mem obj k)(obj + 4 * k := SLAB_POISON)"

text \<open>
  A pointer to a link, \<^verbatim>\<open>struct page_frame_obj_empty **\<close>: the frame's \<^verbatim>\<open>freelist\<close> field or the
  \<^verbatim>\<open>next\<close> word of an object. The pair is the value of the field and the memory.
\<close>

datatype link = Freelist | Next nat

fun get_link :: "link \<Rightarrow> nat \<times> wmem \<Rightarrow> nat" where
  "get_link Freelist (fl, mem) = fl"
| "get_link (Next obj) (fl, mem) = mem obj"

fun set_link :: "link \<Rightarrow> nat \<Rightarrow> nat \<times> wmem \<Rightarrow> nat \<times> wmem" where
  "set_link Freelist v (fl, mem) = (v, mem)"
| "set_link (Next obj) v (fl, mem) = (fl, mem(obj := v))"

text \<open>The loop of \<^verbatim>\<open>__slab_frame_add_new\<close> that poisons and chains the objects.\<close>

fun slab_chain :: "nat \<Rightarrow> link \<Rightarrow> nat \<Rightarrow> nat \<Rightarrow> nat \<times> wmem \<Rightarrow> nat \<times> wmem" where
  "slab_chain osize current obj 0 st = set_link current 0 st"
| "slab_chain osize current obj (Suc n) st =
     (let st = (fst st, slab_poison (snd st) obj (osize div 4));
          st = set_link current obj st
      in slab_chain osize (Next obj) (align_addr (obj + osize) osize) n st)"

definition slab_frame_init :: "nat \<Rightarrow> wmem \<Rightarrow> nat \<Rightarrow> slab_page_frame \<times> wmem" where
  "slab_frame_init osize mem addr =
     (let first = align_addr (addr + sizeof_slab_page_frame) osize;
          count = (addr + 4096 * 2 ^ SLAB_ORDER - first) div osize;
          (fl, mem) = slab_chain osize Freelist first count (0, mem)
      in (\<lparr>fr_addr = addr, first_addr = first, last_addr = first + count * osize,
           page_index_size = SLAB_ORDER, object_count = count, free_object_count = int count,
           freelist = fl\<rparr>, mem))"

text \<open>
  \<open>pal\<close> is \<^verbatim>\<open>palloc_va(CONFIG_KERNEL_SLAB_ORDER, flags)\<close> on the state of the page allocator and
  \<open>pfr\<close> is \<^verbatim>\<open>pfree_va\<close>. The boolean is false for \<^verbatim>\<open>-ENOMEM\<close>.
\<close>

definition u_slab_frame_add_new ::
  "('p \<Rightarrow> (nat \<times> 'p) option) \<Rightarrow> slab_alloc \<Rightarrow> wmem \<Rightarrow> 'p \<Rightarrow> (bool \<times> slab_alloc \<times> wmem \<times> 'p) option" where
  "u_slab_frame_add_new pal slab mem ps =
     (case pal ps of
        None \<Rightarrow> None
      | Some (newframe, ps) \<Rightarrow>
          if newframe = 0 then Some (False, slab, mem, ps)
          else let (fr, mem) = slab_frame_init (object_size slab) mem newframe
               in Some (True, slab\<lparr>frames := frames slab @ [fr]\<rparr>, mem, ps))"

definition u_slab_frame_free :: "(nat \<Rightarrow> 'p \<Rightarrow> 'p option) \<Rightarrow> slab_page_frame \<Rightarrow> 'p \<Rightarrow> 'p option" where
  "u_slab_frame_free pfr fr ps = pfr (fr_addr fr) ps"

fun slab_oom_frames ::
  "(nat \<Rightarrow> 'p \<Rightarrow> 'p option) \<Rightarrow> slab_page_frame list \<Rightarrow> 'p \<Rightarrow> (slab_page_frame list \<times> 'p) option" where
  "slab_oom_frames pfr [] ps = Some ([], ps)"
| "slab_oom_frames pfr (fr # frs) ps =
     (if free_object_count fr = int (object_count fr)
      then case u_slab_frame_free pfr fr ps of
             None \<Rightarrow> None
           | Some ps \<Rightarrow> slab_oom_frames pfr frs ps
      else map_option (apfst ((#) fr)) (slab_oom_frames pfr frs ps))"

definition u_slab_oom :: "(nat \<Rightarrow> 'p \<Rightarrow> 'p option) \<Rightarrow> slab_alloc \<Rightarrow> 'p \<Rightarrow> (slab_alloc \<times> 'p) option" where
  "u_slab_oom pfr slab ps =
     map_option (\<lambda>(frs, ps). (slab\<lparr>frames := frs\<rparr>, ps)) (slab_oom_frames pfr (frames slab) ps)"

fun poison_ok :: "wmem \<Rightarrow> nat \<Rightarrow> nat \<Rightarrow> bool" where
  "poison_ok mem p 0 \<longleftrightarrow> True"
| "poison_ok mem p (Suc k) \<longleftrightarrow> mem p = SLAB_POISON \<and> poison_ok mem (p + 4) k"

text \<open>The loop at \<^verbatim>\<open>try_again\<close> skips objects whose poison was overwritten.\<close>

partial_function (option) u_slab_frame_object_alloc ::
  "nat \<Rightarrow> wmem \<Rightarrow> slab_page_frame \<Rightarrow> (nat \<times> slab_page_frame) option" where
  "u_slab_frame_object_alloc osize mem fr =
     (if freelist fr = 0 then Some (0, fr)
      else if poison_ok mem (freelist fr + 4) ((osize - 4) div 4)
           then Some (freelist fr, fr\<lparr>freelist := mem (freelist fr), free_object_count := free_object_count fr - 1\<rparr>)
           else u_slab_frame_object_alloc osize mem (fr\<lparr>freelist := mem (freelist fr)\<rparr>))"

text \<open>
  The search of \<^verbatim>\<open>__slab_frame_object_free\<close> for the place of the object in the sorted list; the
  result is \<^term>\<open>None\<close> inside for a detected double free.
\<close>

partial_function (option) slab_insert ::
  "nat \<Rightarrow> nat \<Rightarrow> link \<Rightarrow> nat \<times> wmem \<Rightarrow> (nat \<times> wmem) option option" where
  "slab_insert osize obj current st =
     (let cur = get_link current st
      in if obj \<ge> cur \<and> obj < cur + osize then Some None
         else if obj \<le> cur \<or> cur = 0
              then let st = (fst st, slab_poison (snd st) obj (osize div 4));
                       st = set_link (Next obj) (get_link current st) st
                   in Some (Some (set_link current obj st))
              else slab_insert osize obj (Next cur) st)"

text \<open>
  \<^verbatim>\<open>__slab_frame_object_free\<close>. The frame is the one at index \<open>i\<close> of the slab; a frame that became
  unused triggers \<^verbatim>\<open>__slab_oom\<close>.
\<close>

definition u_slab_frame_object_free ::
  "(nat \<Rightarrow> 'p \<Rightarrow> 'p option) \<Rightarrow> slab_alloc \<Rightarrow> nat \<Rightarrow> nat \<Rightarrow> wmem \<Rightarrow> 'p \<Rightarrow> (slab_alloc \<times> wmem \<times> 'p) option" where
  "u_slab_frame_object_free pfr slab i obj mem ps =
     (let fr = frames slab ! i
      in case slab_insert (object_size slab) obj Freelist (freelist fr, mem) of
           None \<Rightarrow> None
         | Some None \<Rightarrow> Some (slab, mem, ps)
         | Some (Some (fl, mem)) \<Rightarrow>
             let fr = fr\<lparr>freelist := fl, free_object_count := free_object_count fr + 1\<rparr>;
                 slab = slab\<lparr>frames := (frames slab)[i := fr]\<rparr>
             in if free_object_count fr = int (object_count fr)
                then map_option (\<lambda>(slab, ps). (slab, mem, ps)) (u_slab_oom pfr slab ps)
                else Some (slab, mem, ps))"

text \<open>The scan of \<^verbatim>\<open>__slab_malloc\<close> over the frames; \<^term>\<open>Some None\<close> when no frame has a free object.\<close>

fun slab_scan :: "nat \<Rightarrow> wmem \<Rightarrow> slab_page_frame list \<Rightarrow> (nat \<times> slab_page_frame list) option option" where
  "slab_scan osize mem [] = Some None"
| "slab_scan osize mem (fr # frs) =
     (if free_object_count fr \<noteq> 0 \<and> freelist fr = 0 \<or> free_object_count fr = 0
      then map_option (map_option (apsnd ((#) fr))) (slab_scan osize mem frs)
      else map_option (\<lambda>(obj, fr). Some (obj, fr # frs)) (u_slab_frame_object_alloc osize mem fr))"

partial_function (option) u_slab_malloc ::
  "('p \<Rightarrow> (nat \<times> 'p) option) \<Rightarrow> slab_alloc \<Rightarrow> wmem \<Rightarrow> 'p \<Rightarrow> (nat \<times> slab_alloc \<times> wmem \<times> 'p) option" where
  "u_slab_malloc pal slab mem ps =
     (case slab_scan (object_size slab) mem (frames slab) of
        None \<Rightarrow> None
      | Some (Some (obj, frs)) \<Rightarrow> Some (obj, slab\<lparr>frames := frs\<rparr>, mem, ps)
      | Some None \<Rightarrow>
          do {
            (ok, slab, mem, ps) \<leftarrow> u_slab_frame_add_new pal slab mem ps;
            if ok then u_slab_malloc pal slab mem ps else Some (0, slab, mem, ps)
          })"

fun slab_find :: "slab_page_frame list \<Rightarrow> nat \<Rightarrow> nat option" where
  "slab_find [] addr = None"
| "slab_find (fr # frs) addr =
     (if first_addr fr \<le> addr \<and> addr < last_addr fr then Some 0 else map_option Suc (slab_find frs addr))"

text \<open>0 when the address belongs to the slab and 1 otherwise, as in the source.\<close>

definition u_slab_has_addr :: "slab_alloc \<Rightarrow> nat \<Rightarrow> nat" where
  "u_slab_has_addr slab addr = (case slab_find (frames slab) addr of Some _ \<Rightarrow> 0 | None \<Rightarrow> 1)"

definition u_slab_free ::
  "(nat \<Rightarrow> 'p \<Rightarrow> 'p option) \<Rightarrow> slab_alloc \<Rightarrow> nat \<Rightarrow> wmem \<Rightarrow> 'p \<Rightarrow> (slab_alloc \<times> wmem \<times> 'p) option" where
  "u_slab_free pfr slab obj mem ps =
     (case slab_find (frames slab) obj of
        None \<Rightarrow> None
      | Some i \<Rightarrow> u_slab_frame_object_free pfr slab i obj mem ps)"

text \<open>\<^verbatim>\<open>__slab_clear\<close> frees every frame and leaves the slab's chain of frames as it is.\<close>

fun slab_clear_frames :: "(nat \<Rightarrow> 'p \<Rightarrow> 'p option) \<Rightarrow> slab_page_frame list \<Rightarrow> 'p \<Rightarrow> 'p option" where
  "slab_clear_frames pfr [] ps = Some ps"
| "slab_clear_frames pfr (fr # frs) ps =
     (case u_slab_frame_free pfr fr ps of None \<Rightarrow> None | Some ps \<Rightarrow> slab_clear_frames pfr frs ps)"

definition u_slab_clear :: "(nat \<Rightarrow> 'p \<Rightarrow> 'p option) \<Rightarrow> slab_alloc \<Rightarrow> 'p \<Rightarrow> (slab_alloc \<times> 'p) option" where
  "u_slab_clear pfr slab ps = map_option (\<lambda>ps. (slab, ps)) (slab_clear_frames pfr (frames slab) ps)"

text \<open>The public operations take the slab's lock around the ones above.\<close>

definition slab_malloc ::
  "('p \<Rightarrow> (nat \<times> 'p) option) \<Rightarrow> slab_alloc \<Rightarrow> wmem \<Rightarrow> 'p \<Rightarrow> (nat \<times> slab_alloc \<times> wmem \<times> 'p) option" where
  "slab_malloc pal slab mem ps = u_slab_malloc pal slab mem ps"

definition slab_has_addr :: "slab_alloc \<Rightarrow> nat \<Rightarrow> nat" where
  "slab_has_addr slab addr = u_slab_has_addr slab addr"

definition slab_free ::
  "(nat \<Rightarrow> 'p \<Rightarrow> 'p option) \<Rightarrow> slab_alloc \<Rightarrow> nat \<Rightarrow> wmem \<Rightarrow> 'p \<Rightarrow> (slab_alloc \<times> wmem \<times> 'p) option" where
  "slab_free pfr slab obj mem ps = u_slab_free pfr slab obj mem ps"

definition slab_clear :: "(nat \<Rightarrow> 'p \<Rightarrow> 'p option) \<Rightarrow> slab_alloc \<Rightarrow> 'p \<Rightarrow> (slab_alloc \<times> 'p) option" where
  "slab_clear pfr slab ps = u_slab_clear pfr slab ps"

definition slab_oom :: "(nat \<Rightarrow> 'p \<Rightarrow> 'p option) \<Rightarrow> slab_alloc \<Rightarrow> 'p \<Rightarrow> (slab_alloc \<times> 'p) option" where
  "slab_oom pfr slab ps = u_slab_oom pfr slab ps"

end
