(* ===== verification/SlabCorrect.thy ===== *)
theory SlabCorrect
  imports Slab
begin

text \<open>
  Correctness of the slab allocator. The free list in memory is related to a sorted list of objects
  (\<open>chain\<close>), every frame satisfies \<open>frame_inv\<close>, and the whole slab refines a set of used objects
  (\<open>slab_rel\<close>): allocation adds an object that was not used, freeing removes it, and neither touches
  the contents of used objects. The page allocator is any \<open>page_provider\<close>.
\<close>

section \<open>Objects\<close>

lemma multiples_apart:
  assumes "n dvd x" and "n dvd (y::nat)" and "x \<noteq> y" and "i < n" and "j < n"
  shows "x + i \<noteq> y + j"
proof -
  have "(x + i) div n = x div n" "(y + j) div n = y div n"
    using assms by (auto elim!: dvdE)
  moreover have "x div n \<noteq> y div n"
    using assms(1-3) by (metis dvd_div_mult_self)
  ultimately show ?thesis by metis
qed

definition obj_words :: "nat \<Rightarrow> nat \<Rightarrow> nat set" where
  "obj_words osize x = {x..<x + osize}"

lemma obj_words_disjoint:
  assumes "osize dvd x" and "osize dvd y" and "x \<noteq> y"
  shows "obj_words osize x \<inter> obj_words osize y = {}"
proof (rule ccontr)
  assume "obj_words osize x \<inter> obj_words osize y \<noteq> {}"
  then obtain a where "a \<in> obj_words osize x" "a \<in> obj_words osize y" by blast
  then have a: "x \<le> a" "a < x + osize" "y \<le> a" "a < y + osize"
    by (simp_all add: obj_words_def)
  then have "a - x < osize" "a - y < osize" by linarith+
  from multiples_apart [OF assms this] a show False by simp
qed

lemma slab_poison_sel:
  "slab_poison mem obj n a = (if \<exists>k<n. a = obj + 4 * k then SLAB_POISON else mem a)"
  by (induction n) (auto simp: less_Suc_eq)

lemma slab_poison_outside:
  "a \<notin> obj_words osize obj \<Longrightarrow> slab_poison mem obj (osize div 4) a = mem a"
  by (auto simp: slab_poison_sel obj_words_def)

text \<open>The words of a free object after the first hold the poison.\<close>

definition poisoned :: "nat \<Rightarrow> wmem \<Rightarrow> nat \<Rightarrow> bool" where
  "poisoned osize mem x \<longleftrightarrow> poison_ok mem (x + 4) ((osize - 4) div 4)"

lemma poison_ok_iff: "poison_ok mem p n \<longleftrightarrow> (\<forall>k<n. mem (p + 4 * k) = SLAB_POISON)"
proof (induction n arbitrary: p)
  case (Suc n)
  show ?case
    unfolding poison_ok.simps Suc.IH
    by (auto simp: less_Suc_eq_0_disj algebra_simps)
qed simp

lemma poisoned_cong:
  assumes "\<And>a. a \<in> obj_words osize x \<Longrightarrow> a \<noteq> x \<Longrightarrow> mem' a = mem a"
  shows "poisoned osize mem' x = poisoned osize mem x"
proof -
  have "mem' (x + 4 + 4 * k) = mem (x + 4 + 4 * k)" if "k < (osize - 4) div 4" for k
    using that by (intro assms) (auto simp: obj_words_def)
  then show ?thesis by (simp add: poisoned_def poison_ok_iff)
qed

lemma poisoned_poison: "poisoned osize ((slab_poison mem x (osize div 4))(x := v)) x"
proof -
  have "Suc k < osize div 4" if "k < (osize - 4) div 4" for k
    using that by auto
  then show ?thesis
    by (fastforce simp: poisoned_def poison_ok_iff slab_poison_sel)
qed

section \<open>The free list in memory\<close>

fun chain :: "wmem \<Rightarrow> nat \<Rightarrow> nat list \<Rightarrow> bool" where
  "chain mem p [] \<longleftrightarrow> p = 0"
| "chain mem p (x # xs) \<longleftrightarrow> p = x \<and> x \<noteq> 0 \<and> chain mem (mem x) xs"

lemma chain_cong: "(\<And>x. x \<in> set xs \<Longrightarrow> mem' x = mem x) \<Longrightarrow> chain mem' p xs = chain mem p xs"
  by (induction xs arbitrary: p) auto

lemma chain_unique: "chain mem p xs \<Longrightarrow> chain mem p ys \<Longrightarrow> xs = ys"
proof (induction xs arbitrary: p ys)
  case Nil
  then show ?case by (cases ys) auto
next
  case (Cons x xs)
  then show ?case by (cases ys) auto
qed

fun link_addr :: "link \<Rightarrow> nat set" where
  "link_addr Freelist = {}"
| "link_addr (Next c) = {c}"

lemma get_set_link [simp]: "get_link l (set_link l v st) = v"
  by (cases l; cases st) auto

lemma set_link_outside: "a \<notin> link_addr l \<Longrightarrow> snd (set_link l v st) a = snd st a"
  by (cases l; cases st) auto

lemma set_link_fst: "fst (set_link (Next c) v st) = fst st"
  by (cases st) auto

lemma get_link_cong:
  "(\<And>a. a \<in> link_addr l \<Longrightarrow> mem' a = mem a) \<Longrightarrow> get_link l (fl, mem') = get_link l (fl, mem)"
  by (cases l) auto

text \<open>Chaining \<open>n\<close> fresh objects behind a link.\<close>

definition obj_list :: "nat \<Rightarrow> nat \<Rightarrow> nat \<Rightarrow> nat list" where
  "obj_list osize obj n = map (\<lambda>i. obj + i * osize) [0..<n]"

lemma obj_list_simps:
  "obj_list osize obj 0 = []" "obj_list osize obj (Suc n) = obj # obj_list osize (obj + osize) n"
  by (simp_all add: obj_list_def map_upt_Suc algebra_simps del: upt_Suc)

lemma set_obj_list: "set (obj_list osize obj n) = (\<lambda>i. obj + i * osize) ` {..<n}"
  by (auto simp: obj_list_def)

lemma sorted_obj_list: "0 < osize \<Longrightarrow> sorted_wrt (<) (obj_list osize obj n)"
  by (simp add: obj_list_def sorted_wrt_iff_nth_less)

lemma align_addr_id:
  assumes "osize = 2 ^ e" "e < 32" and "osize dvd a" and "a + osize \<le> 2 ^ 32"
  shows "align_addr a osize = a"
proof -
  have "0 < osize" using assms(1) by simp
  then have a: "unat (of_nat a :: u32) = a"
    using assms(4) by (intro unat_of_nat_u32) simp
  have "unat (ALIGN_2 (of_nat a :: u32) (2 ^ e)) = (a + (2 ^ e - 1)) div 2 ^ e * 2 ^ e"
    using assms a by (subst unat_ALIGN_2) auto
  also have "\<dots> = a"
  proof -
    obtain k where k: "a = 2 ^ e * k" using assms(1,3) by auto
    have "(2 ^ e * k + (2 ^ e - 1)) div 2 ^ e = k + (2 ^ e - 1) div 2 ^ e"
      by (rule div_mult_self4) simp
    then show ?thesis by (simp add: k)
  qed
  finally show ?thesis by (simp add: align_addr_def assms(1))
qed

lemma slab_chain_correct:
  assumes "osize = 2 ^ e" "4 \<le> osize" "e < 32" and "osize dvd obj" and "obj + Suc n * osize \<le> 2 ^ 32" and "0 < obj"
    and "\<And>c. cur = Next c \<Longrightarrow> c < obj"
    and "slab_chain osize cur obj n (fl, mem) = (fl', mem')"
  shows "chain mem' (get_link cur (fl', mem')) (obj_list osize obj n) \<and>
    (\<forall>x\<in>set (obj_list osize obj n). poisoned osize mem' x) \<and>
    (\<forall>a. a \<notin> {obj..<obj + n * osize} \<union> link_addr cur \<longrightarrow> mem' a = mem a) \<and>
    (cur \<noteq> Freelist \<longrightarrow> fl' = fl)"
  using assms
proof (induction n arbitrary: cur obj fl mem)
  case 0
  then show ?case
    by (cases cur) (auto simp: obj_list_simps)
next
  case (Suc n)
  let ?m = "slab_poison mem obj (osize div 4)"
  obtain f1 m1 where st: "set_link cur obj (fl, ?m) = (f1, m1)" by (cases "set_link cur obj (fl, ?m)")
  have al: "align_addr (obj + osize) osize = obj + osize"
    using Suc.prems(1-5) by (intro align_addr_id) auto
  have ch: "slab_chain osize (Next obj) (obj + osize) n (f1, m1) = (fl', mem')"
    using Suc.prems(8) st al by (simp add: Let_def)
  have IH: "chain mem' (mem' obj) (obj_list osize (obj + osize) n)"
    "\<forall>x\<in>set (obj_list osize (obj + osize) n). poisoned osize mem' x"
    "\<And>a. a \<notin> {obj + osize..<obj + osize + n * osize} \<union> {obj} \<Longrightarrow> mem' a = m1 a" "fl' = f1"
    using Suc.IH [OF Suc.prems(1-3) _ _ _ _ ch] Suc.prems(2,4-6) by (auto simp: algebra_simps)
  have m1: "m1 a = ?m a" if "a \<notin> link_addr cur" for a
    using set_link_outside [OF that, of obj "(fl, ?m)"] st by simp
  have cur: "link_addr cur \<inter> {obj..<obj + Suc n * osize} = {}"
    using Suc.prems(7) by (cases cur) auto
  have sub: "{obj + osize..<obj + osize + n * osize} \<union> {obj} \<subseteq> {obj..<obj + Suc n * osize}"
    "obj_words osize obj \<subseteq> {obj..<obj + Suc n * osize}"
    using Suc.prems(2) by (auto simp: obj_words_def)
  have "get_link cur (fl', mem') = get_link cur (f1, m1)"
    unfolding IH(4) using cur sub by (intro get_link_cong IH(3)) blast
  then have g: "get_link cur (fl', mem') = obj"
    using get_set_link [of cur obj "(fl, ?m)"] st by simp
  have "poisoned osize mem' obj"
  proof -
    have "poisoned osize mem' obj = poisoned osize (?m(obj := 0)) obj"
    proof (rule poisoned_cong)
      fix a assume a: "a \<in> obj_words osize obj" "a \<noteq> obj"
      then have "a \<notin> link_addr cur" using cur sub(2) by blast
      with a IH(3) [of a] m1 [of a] show "mem' a = (?m(obj := 0)) a"
        by (auto simp: obj_words_def)
    qed
    then show ?thesis using poisoned_poison by simp
  qed
  moreover have "mem' a = mem a" if a: "a \<notin> {obj..<obj + Suc n * osize} \<union> link_addr cur" for a
  proof -
    have "a \<notin> obj_words osize obj" using a sub(2) by blast
    moreover have "mem' a = m1 a" using a sub(1) by (intro IH(3)) blast
    ultimately show ?thesis using m1 [of a] a slab_poison_outside by simp
  qed
  moreover have "cur \<noteq> Freelist \<Longrightarrow> fl' = fl"
    using st IH(4) set_link_fst by (cases cur) auto
  ultimately show ?case
    using IH(1,2) g Suc.prems(6) by (simp add: obj_list_simps)
qed

text \<open>Taking an object: the first one whose poison is intact; the ones before it are dropped.\<close>

lemma slab_object_alloc_eq:
  "chain mem (freelist fr) xs \<Longrightarrow>
   u_slab_frame_object_alloc osize mem fr =
     Some (case dropWhile (\<lambda>x. \<not> poisoned osize mem x) xs of
             [] \<Rightarrow> (0, fr\<lparr>freelist := 0\<rparr>)
           | x # ys \<Rightarrow> (x, fr\<lparr>freelist := mem x, free_object_count := free_object_count fr - 1\<rparr>))"
proof (induction xs arbitrary: fr)
  case Nil
  then show ?case by (simp add: u_slab_frame_object_alloc.simps)
next
  case (Cons x xs)
  then have fl: "freelist fr = x" "x \<noteq> 0" "chain mem (mem x) xs" by auto
  have "u_slab_frame_object_alloc osize mem fr =
    (if poisoned osize mem x then Some (x, fr\<lparr>freelist := mem x, free_object_count := free_object_count fr - 1\<rparr>)
     else u_slab_frame_object_alloc osize mem (fr\<lparr>freelist := mem x\<rparr>))"
    using fl by (subst u_slab_frame_object_alloc.simps) (simp add: poisoned_def)
  then show ?case
    using Cons.IH [of "fr\<lparr>freelist := mem x\<rparr>"] fl(3) by (simp cong: list.case_cong)
qed

lemma multiple_in_object:
  assumes "osize dvd x" and "osize dvd y" and "x \<le> y" and "y < x + (osize::nat)"
  shows "y = x"
  using multiples_apart [of osize x y "y - x" 0] assms by force

text \<open>Returning an object: it is put in its place of the sorted list.\<close>

lemma slab_place:
  assumes al: "osize dvd obj" "\<forall>x\<in>set xs. osize dvd x" "4 \<le> osize" and new: "obj \<notin> set xs" "0 < obj"
    and ch: "chain mem (get_link cur (fl, mem)) xs"
    and cur: "\<And>c. cur = Next c \<Longrightarrow> osize dvd c \<and> c \<noteq> obj \<and> c \<notin> set xs"
  defines "st1 \<equiv> (fl, slab_poison mem obj (osize div 4))"
  defines "st2 \<equiv> set_link cur obj (set_link (Next obj) (get_link cur st1) st1)"
  shows "chain (snd st2) (get_link cur st2) (obj # xs)" "poisoned osize (snd st2) obj"
    "\<And>a. a \<notin> obj_words osize obj \<union> link_addr cur \<Longrightarrow> snd st2 a = mem a" "cur \<noteq> Freelist \<Longrightarrow> fst st2 = fl"
proof -
  let ?m = "slab_poison mem obj (osize div 4)"
  let ?p = "get_link cur (fl, mem)"
  have out: "x \<notin> obj_words osize obj" if "osize dvd x" "x \<noteq> obj" for x
    using obj_words_disjoint [OF al(1) that(1)] that(2) al(3) by (auto simp: obj_words_def)
  have obj: "obj \<notin> link_addr cur" using cur by (cases cur) auto
  have "get_link cur st1 = ?p"
    unfolding st1_def using cur out by (intro get_link_cong) (cases cur; auto simp: slab_poison_outside)
  then have st2: "st2 = set_link cur obj (fl, ?m(obj := ?p))"
    by (simp add: st2_def st1_def)
  have mem2: "snd st2 a = (?m(obj := ?p)) a" if "a \<notin> link_addr cur" for a
    using set_link_outside [OF that, of obj "(fl, ?m(obj := ?p))"] by (simp add: st2)
  show same: "snd st2 a = mem a" if "a \<notin> obj_words osize obj \<union> link_addr cur" for a
    using that mem2 [of a] al(3) slab_poison_outside [of a osize obj] by (auto simp: obj_words_def)
  have "snd st2 x = mem x" if "x \<in> set xs" for x
    using that out [of x] al(2) new cur by (intro same) (cases cur; auto)
  then have "chain (snd st2) ?p xs"
    using ch chain_cong by blast
  moreover have "snd st2 obj = ?p" using mem2 [OF obj] by simp
  ultimately show "chain (snd st2) (get_link cur st2) (obj # xs)"
    using new(2) by (simp add: st2)
  have "poisoned osize (snd st2) obj = poisoned osize (?m(obj := ?p)) obj"
  proof (rule poisoned_cong)
    fix a assume a: "a \<in> obj_words osize obj" "a \<noteq> obj"
    then have "a \<notin> link_addr cur" using cur out by (cases cur) auto
    then show "snd st2 a = (?m(obj := ?p)) a" by (rule mem2)
  qed
  then show "poisoned osize (snd st2) obj" using poisoned_poison by simp
  show "fst st2 = fl" if "cur \<noteq> Freelist"
    using that by (cases cur) (simp_all add: st2)
qed

lemma slab_insert_correct:
  assumes "osize dvd obj" "\<forall>x\<in>set xs. osize dvd x" "4 \<le> osize" and "obj \<notin> set xs" "osize \<le> obj"
    and "sorted_wrt (<) xs" and "chain mem (get_link cur (fl, mem)) xs"
    and "\<And>c. cur = Next c \<Longrightarrow> osize dvd c \<and> c \<noteq> obj \<and> c \<notin> set xs"
  shows "\<exists>fl' mem'. slab_insert osize obj cur (fl, mem) = Some (Some (fl', mem')) \<and>
    chain mem' (get_link cur (fl', mem')) (insort obj xs) \<and> poisoned osize mem' obj \<and>
    (\<forall>a. a \<notin> obj_words osize obj \<union> set xs \<union> link_addr cur \<longrightarrow> mem' a = mem a) \<and>
    (cur \<noteq> Freelist \<longrightarrow> fl' = fl)"
  using assms
proof (induction xs arbitrary: cur)
  case Nil
  have "\<not> obj < osize" "0 < obj" using Nil.prems(3,5) by auto
  then show ?case
    using slab_place [OF Nil.prems(1-4) _ Nil.prems(7,8)] Nil.prems(7)
    by (subst slab_insert.simps) (simp add: Let_def case_prod_beta prod_eq_iff)
next
  case (Cons x xs)
  have p: "get_link cur (fl, mem) = x" "x \<noteq> 0" using Cons.prems(7) by auto
  have miss: "\<not> (x \<le> obj \<and> obj < x + osize)"
    using multiple_in_object [of osize x obj] Cons.prems(1,2,4) by auto
  show ?case
  proof (cases "obj \<le> x")
    case True
    have "0 < obj" using Cons.prems(3,5) by auto
    from True p miss slab_place [OF Cons.prems(1-4) this Cons.prems(7,8)] show ?thesis
      by (subst slab_insert.simps) (simp add: Let_def case_prod_beta prod_eq_iff)
  next
    case False
    have "\<exists>fl' mem'. slab_insert osize obj (Next x) (fl, mem) = Some (Some (fl', mem')) \<and>
      chain mem' (mem' x) (insort obj xs) \<and> poisoned osize mem' obj \<and>
      (\<forall>a. a \<notin> obj_words osize obj \<union> set xs \<union> {x} \<longrightarrow> mem' a = mem a) \<and> fl' = fl"
      using Cons.IH [of "Next x"] Cons.prems by auto
    then obtain mem' where m: "slab_insert osize obj (Next x) (fl, mem) = Some (Some (fl, mem'))"
      "chain mem' (mem' x) (insort obj xs)" "poisoned osize mem' obj"
      "\<And>a. a \<notin> obj_words osize obj \<union> set (x # xs) \<Longrightarrow> mem' a = mem a" by auto
    have "get_link cur (fl, mem') = get_link cur (fl, mem)"
    proof (rule get_link_cong)
      fix a assume "a \<in> link_addr cur"
      then have "osize dvd a" "a \<noteq> obj" "a \<notin> set (x # xs)" using Cons.prems(8) by (cases cur; auto)+
      moreover have "a \<notin> obj_words osize obj"
        using obj_words_disjoint [OF Cons.prems(1) \<open>osize dvd a\<close>] \<open>a \<noteq> obj\<close> Cons.prems(3)
        by (auto simp: obj_words_def)
      ultimately show "mem' a = mem a" by (intro m(4)) auto
    qed
    moreover have "slab_insert osize obj cur (fl, mem) = Some (Some (fl, mem'))"
      using False p miss m(1) by (subst slab_insert.simps) (simp add: Let_def)
    ultimately show ?thesis
      using False p m(2-4) by auto
  qed
qed

lemma slab_insert_double:
  assumes "\<forall>x\<in>set xs. osize dvd x" "4 \<le> osize" and "obj \<in> set xs" and "sorted_wrt (<) xs"
    and "chain mem (get_link cur (fl, mem)) xs"
  shows "slab_insert osize obj cur (fl, mem) = Some None"
  using assms
proof (induction xs arbitrary: cur)
  case (Cons x xs)
  have p: "get_link cur (fl, mem) = x" "x \<noteq> 0" using Cons.prems(5) by auto
  show ?case
  proof (cases "obj = x")
    case True
    then show ?thesis using p Cons.prems(2) by (subst slab_insert.simps) (simp add: Let_def)
  next
    case False
    then have "x < obj" "osize dvd obj" using Cons.prems by auto
    moreover from this have "\<not> obj < x + osize"
      using multiple_in_object [of osize x obj] Cons.prems(1) by auto
    ultimately show ?thesis
      using p False Cons.IH [of "Next x"] Cons.prems by (subst slab_insert.simps) (auto simp: Let_def)
  qed
qed simp

section \<open>Frames\<close>

abbreviation frame_bytes :: nat where
  "frame_bytes \<equiv> 4096 * 2 ^ SLAB_ORDER"

definition frame_block :: "slab_page_frame \<Rightarrow> nat set" where
  "frame_block fr = {fr_addr fr..<fr_addr fr + frame_bytes}"

definition objs :: "nat \<Rightarrow> slab_page_frame \<Rightarrow> nat set" where
  "objs osize fr = set (obj_list osize (first_addr fr) (object_count fr))"

definition frame_geom :: "nat \<Rightarrow> slab_page_frame \<Rightarrow> bool" where
  "frame_geom osize fr \<longleftrightarrow>
     fr_addr fr < first_addr fr \<and> osize dvd first_addr fr \<and> osize \<le> first_addr fr \<and>
     last_addr fr = first_addr fr + object_count fr * osize \<and> last_addr fr \<le> fr_addr fr + frame_bytes \<and>
     0 < object_count fr"

definition frame_inv :: "nat \<Rightarrow> wmem \<Rightarrow> slab_page_frame \<Rightarrow> nat list \<Rightarrow> bool" where
  "frame_inv osize mem fr xs \<longleftrightarrow>
     frame_geom osize fr \<and> chain mem (freelist fr) xs \<and> sorted_wrt (<) xs \<and> set xs \<subseteq> objs osize fr \<and>
     free_object_count fr = int (length xs) \<and> (\<forall>x\<in>set xs. poisoned osize mem x)"

lemma objs_member:
  assumes "frame_geom osize fr" and "x \<in> objs osize fr"
  shows "osize dvd x" "first_addr fr \<le> x" "x + osize \<le> last_addr fr" "obj_words osize x \<subseteq> frame_block fr" "osize \<le> x"
proof -
  obtain i where i: "i < object_count fr" "x = first_addr fr + i * osize"
    using assms(2) by (auto simp: objs_def set_obj_list)
  then have "Suc i * osize \<le> object_count fr * osize" by (intro mult_le_mono1) simp
  then show "osize dvd x" "first_addr fr \<le> x" "x + osize \<le> last_addr fr" "osize \<le> x"
    using assms(1) i by (auto simp: frame_geom_def)
  then show "obj_words osize x \<subseteq> frame_block fr"
    using assms(1) by (auto simp: frame_geom_def obj_words_def frame_block_def)
qed

lemma objs_dvd: "frame_inv osize mem fr xs \<Longrightarrow> \<forall>x\<in>set xs. osize dvd x"
  using objs_member(1) by (auto simp: frame_inv_def)

lemma objs_words_apart:
  assumes "frame_geom osize fr" "x \<in> objs osize fr" "y \<in> objs osize fr" "x \<noteq> y"
  shows "obj_words osize x \<inter> obj_words osize y = {}"
  using assms by (intro obj_words_disjoint objs_member(1))

lemma card_objs: "0 < osize \<Longrightarrow> card (objs osize fr) = object_count fr" "finite (objs osize fr)"
  using distinct_card [of "obj_list osize (first_addr fr) (object_count fr)"]
  by (simp_all add: objs_def obj_list_def distinct_map inj_on_def)

lemma full_frame:
  assumes "frame_inv osize mem fr xs" and "0 < osize" and "free_object_count fr = int (object_count fr)"
  shows "set xs = objs osize fr"
proof (rule card_subset_eq)
  show "set xs \<subseteq> objs osize fr" "finite (objs osize fr)"
    using assms(1) card_objs(2) by (auto simp: frame_inv_def)
  have "distinct xs" using assms(1) strict_sorted_iff by (auto simp: frame_inv_def)
  then show "card (set xs) = card (objs osize fr)"
    using assms card_objs(1) by (simp add: frame_inv_def distinct_card)
qed

lemma frame_inv_cong:
  assumes inv: "frame_inv osize mem fr xs" and "0 < osize"
    and eq: "\<And>a. a \<in> frame_block fr \<Longrightarrow> \<forall>y\<in>objs osize fr - set xs. a \<notin> obj_words osize y \<Longrightarrow> mem' a = mem a"
  shows "frame_inv osize mem' fr xs"
proof -
  have geom: "frame_geom osize fr" and sub: "set xs \<subseteq> objs osize fr"
    using inv by (auto simp: frame_inv_def)
  have same: "mem' a = mem a" if "x \<in> set xs" "a \<in> obj_words osize x" for x a
  proof (rule eq)
    show "a \<in> frame_block fr" using objs_member(4) [OF geom] that sub by blast
    show "\<forall>y\<in>objs osize fr - set xs. a \<notin> obj_words osize y"
      using objs_words_apart [OF geom, of x] that sub by blast
  qed
  have "x \<in> obj_words osize x" for x using assms(2) by (simp add: obj_words_def)
  then have "chain mem' (freelist fr) xs = chain mem (freelist fr) xs"
    using same by (intro chain_cong) blast
  moreover have "poisoned osize mem' x = poisoned osize mem x" if "x \<in> set xs" for x
    using same that by (intro poisoned_cong) blast
  ultimately show ?thesis using inv by (simp add: frame_inv_def)
qed

text \<open>A fresh frame: all its objects are free.\<close>

definition obj_size_ok :: "nat \<Rightarrow> bool" where
  "obj_size_ok osize \<longleftrightarrow> (\<exists>e. osize = 2 ^ e \<and> 5 \<le> e \<and> e \<le> 12)"

lemma obj_size_okD:
  assumes "obj_size_ok osize"
  shows "32 \<le> osize" "osize \<le> 4096" "0 < osize" "4 \<le> osize"
proof -
  obtain e where e: "osize = 2 ^ e" "5 \<le> e" "e \<le> 12" using assms by (auto simp: obj_size_ok_def)
  have "(2::nat) ^ 5 \<le> 2 ^ e" "(2::nat) ^ e \<le> 2 ^ 12" using e by (intro power_increasing; simp)+
  then show "32 \<le> osize" "osize \<le> 4096" "0 < osize" "4 \<le> osize" using e(1) by auto
qed

lemma slab_frame_init_correct:
  assumes ok: "obj_size_ok osize" and v: "frame_bytes dvd v" "0 < v" "v + frame_bytes \<le> 0xF0000000"
    and i: "slab_frame_init osize mem v = (fr, mem')"
  shows "frame_inv osize mem' fr (obj_list osize (first_addr fr) (object_count fr))" "fr_addr fr = v"
    "\<And>a. a \<notin> frame_block fr \<Longrightarrow> mem' a = mem a"
proof -
  obtain e where e: "osize = 2 ^ e" "5 \<le> e" "e \<le> 12" using ok by (auto simp: obj_size_ok_def)
  note os = obj_size_okD [OF ok]
  have fb: "frame_bytes = 131072" by (simp add: SLAB_ORDER_def)
  define first where "first = align_addr (v + 28) osize"
  have u: "unat (of_nat (v + 28) :: u32) = v + 28" using v(3) by (intro unat_of_nat_u32) (simp add: fb)
  have "first = unat (ALIGN_2 (of_nat (v + 28)) (2 ^ e))"
    by (simp add: first_def align_addr_def e(1))
  moreover have "unat (of_nat (v + 28) :: u32) + (2 ^ e - 1) < umax32"
    unfolding u using os(2) v(3) e(1) by (simp add: fb)
  ultimately have first: "v + 28 \<le> first" "first < v + 28 + osize" "osize dvd first"
    using ALIGN_2_ge [of e "of_nat (v + 28)"] ALIGN_2_dvd [of e "of_nat (v + 28)"] e u by auto
  define count where "count = (v + frame_bytes - first) div osize"
  have "count * osize \<le> v + 131072 - first"
    unfolding count_def fb by (rule div_times_less_eq_dividend)
  then have last: "first + count * osize \<le> v + frame_bytes"
    using first os(2) unfolding fb by linarith
  have pos: "0 < count"
    using first os unfolding count_def fb div_greater_zero_iff by linarith
  obtain fl where c: "slab_chain osize Freelist first count (0, mem) = (fl, mem')"
    and fr: "fr = \<lparr>fr_addr = v, first_addr = first, last_addr = first + count * osize, page_index_size = SLAB_ORDER,
      object_count = count, free_object_count = int count, freelist = fl\<rparr>"
    using i by (auto simp: slab_frame_init_def Let_def sizeof_slab_page_frame_def first_def count_def split: prod.splits)
  have "first + Suc count * osize \<le> 2 ^ 32" using last v(3) os(2) by (simp add: fb)
  then have sc: "chain mem' fl (obj_list osize first count)"
    "\<forall>x\<in>set (obj_list osize first count). poisoned osize mem' x"
    "\<And>a. a \<notin> {first..<first + count * osize} \<Longrightarrow> mem' a = mem a"
    using slab_chain_correct [OF e(1) os(4) _ first(3) _ _ _ c] e first(1) by auto
  show "fr_addr fr = v" by (simp add: fr)
  show "frame_inv osize mem' fr (obj_list osize (first_addr fr) (object_count fr))"
    using sc first last pos sorted_obj_list [OF os(3)] v(2) os
    by (auto simp: frame_inv_def frame_geom_def fr objs_def obj_list_def dest: dvd_imp_le)
  show "mem' a = mem a" if "a \<notin> frame_block fr" for a
    using that last first(1) by (intro sc(3)) (auto simp: frame_block_def fr)
qed

section \<open>The slab as a set of used objects\<close>

fun slab_rel :: "nat \<Rightarrow> wmem \<Rightarrow> slab_page_frame list \<Rightarrow> nat set \<Rightarrow> bool" where
  "slab_rel osize mem [] U \<longleftrightarrow> U = {}"
| "slab_rel osize mem (fr # frs) U \<longleftrightarrow>
     (\<exists>xs V. frame_inv osize mem fr xs \<and> slab_rel osize mem frs V \<and> U = (objs osize fr - set xs) \<union> V \<and>
       (\<forall>g\<in>set frs. frame_block fr \<inter> frame_block g = {}))"

lemma slab_rel_append:
  "slab_rel osize mem (as @ bs) U \<longleftrightarrow>
     (\<exists>V W. slab_rel osize mem as V \<and> slab_rel osize mem bs W \<and> U = V \<union> W \<and>
       (\<forall>f\<in>set as. \<forall>g\<in>set bs. frame_block f \<inter> frame_block g = {}))"
proof (induction as arbitrary: U)
  case (Cons a as)
  show ?case
    by (simp add: Cons.IH) (blast intro: Un_assoc [symmetric] Un_assoc)
qed simp

lemma slab_rel_used:
  assumes "slab_rel osize mem frs U" and "x \<in> U"
  obtains fr where "fr \<in> set frs" "x \<in> objs osize fr" "frame_geom osize fr" "obj_words osize x \<subseteq> frame_block fr"
  using assms
proof (induction frs arbitrary: U thesis)
  case (Cons fr frs)
  from Cons.prems(2) obtain xs V where h: "frame_inv osize mem fr xs" "slab_rel osize mem frs V"
    "U = (objs osize fr - set xs) \<union> V" by auto
  show ?case
  proof (cases "x \<in> V")
    case True
    show ?thesis by (rule Cons.IH [OF _ h(2) True]) (use Cons.prems(1) in auto)
  next
    case False
    then have "x \<in> objs osize fr" using h(3) Cons.prems(3) by auto
    then show ?thesis
      using Cons.prems(1) [of fr] h(1) objs_member(4) by (auto simp: frame_inv_def)
  qed
qed simp

lemma slab_rel_cong:
  assumes "slab_rel osize mem frs U" and "0 < osize"
    and "\<And>fr a. fr \<in> set frs \<Longrightarrow> a \<in> frame_block fr \<Longrightarrow> \<forall>y\<in>U. a \<notin> obj_words osize y \<Longrightarrow> mem' a = mem a"
  shows "slab_rel osize mem' frs U"
  using assms
proof (induction frs arbitrary: U)
  case (Cons fr frs)
  from Cons.prems(1) obtain xs V where h: "frame_inv osize mem fr xs" "slab_rel osize mem frs V"
    "U = (objs osize fr - set xs) \<union> V" "\<forall>g\<in>set frs. frame_block fr \<inter> frame_block g = {}" by auto
  have "frame_inv osize mem' fr xs"
  proof (rule frame_inv_cong [OF h(1) Cons.prems(2)])
    fix a assume a: "a \<in> frame_block fr" "\<forall>y\<in>objs osize fr - set xs. a \<notin> obj_words osize y"
    have "a \<notin> obj_words osize y" if y: "y \<in> V" for y
    proof -
      obtain g where "g \<in> set frs" "obj_words osize y \<subseteq> frame_block g"
        using slab_rel_used [OF h(2) y] by blast
      then show ?thesis using a(1) h(4) by blast
    qed
    then show "mem' a = mem a" using a h(3) by (intro Cons.prems(3) [of fr]) auto
  qed
  moreover have "slab_rel osize mem' frs V"
  proof (rule Cons.IH [OF h(2) Cons.prems(2)])
    fix g a assume a: "g \<in> set frs" "a \<in> frame_block g" "\<forall>y\<in>V. a \<notin> obj_words osize y"
    have "a \<notin> obj_words osize y" if "y \<in> objs osize fr" for y
      using objs_member(4) [of osize fr y] that a(1,2) h(1,4) by (auto simp: frame_inv_def)
    then show "mem' a = mem a" using a h(3) by (intro Cons.prems(3) [of g]) auto
  qed
  ultimately show ?case using h(3,4) by auto
qed simp

text \<open>Any write of a client into a used object keeps the relation.\<close>

lemma slab_rel_client_write:
  "slab_rel osize mem frs U \<Longrightarrow> 0 < osize \<Longrightarrow> x \<in> U \<Longrightarrow> a \<in> obj_words osize x \<Longrightarrow> slab_rel osize (mem(a := v)) frs U"
  by (erule slab_rel_cong) auto

lemma slab_rel_other_frame:
  assumes "slab_rel osize mem frs V" and "frame_geom osize fr" and "x \<in> objs osize fr" and "0 < osize"
    and "\<forall>g\<in>set frs. frame_block fr \<inter> frame_block g = {}"
  shows "x \<notin> V"
proof
  assume "x \<in> V"
  then obtain g where "g \<in> set frs" "obj_words osize x \<subseteq> frame_block g"
    using slab_rel_used [OF assms(1)] by blast
  moreover have "x \<in> obj_words osize x" using assms(4) by (simp add: obj_words_def)
  ultimately show False
    using objs_member(4) [OF assms(2,3)] assms(5) by blast
qed

lemma blocks_by_addr:
  assumes "map fr_addr frs' = map fr_addr frs" and "\<forall>g\<in>set frs. B \<inter> frame_block g = {}"
  shows "\<forall>g\<in>set frs'. B \<inter> frame_block g = {}"
proof -
  have "frame_block ` set frs' = frame_block ` set frs"
    using arg_cong [OF assms(1), of "\<lambda>vs. (\<lambda>v. {v..<v + frame_bytes}) ` set vs"]
    by (simp add: frame_block_def image_image)
  then show ?thesis using assms(2) by (metis (no_types, lifting) image_iff)
qed

lemma frame_take:
  assumes "frame_inv osize mem fr (x # xs)"
  shows "u_slab_frame_object_alloc osize mem fr =
      Some (x, fr\<lparr>freelist := mem x, free_object_count := free_object_count fr - 1\<rparr>)"
    and "frame_inv osize mem (fr\<lparr>freelist := mem x, free_object_count := free_object_count fr - 1\<rparr>) xs"
    and "x \<in> objs osize fr" "x \<notin> set xs"
  using assms slab_object_alloc_eq [of mem fr "x # xs" osize]
  by (auto simp: frame_inv_def frame_geom_def objs_def)

lemma frame_upd_block [simp]:
  "frame_block (fr\<lparr>freelist := p, free_object_count := c\<rparr>) = frame_block fr"
  "objs osize (fr\<lparr>freelist := p, free_object_count := c\<rparr>) = objs osize fr"
  by (simp_all add: frame_block_def objs_def)

lemma slab_scan_correct:
  assumes "slab_rel osize mem frs U" and "0 < osize"
  shows "slab_scan osize mem frs = Some None \<and> U = \<Union> (objs osize ` set frs) \<or>
    (\<exists>x frs'. slab_scan osize mem frs = Some (Some (x, frs')) \<and> x \<notin> U \<and> slab_rel osize mem frs' (insert x U) \<and>
      map fr_addr frs' = map fr_addr frs)"
  using assms(1)
proof (induction frs arbitrary: U)
  case (Cons fr frs)
  from Cons.prems obtain xs V where h: "frame_inv osize mem fr xs" "slab_rel osize mem frs V"
    "U = (objs osize fr - set xs) \<union> V" "\<forall>g\<in>set frs. frame_block fr \<inter> frame_block g = {}" by auto
  have geom: "frame_geom osize fr" using h(1) by (simp add: frame_inv_def)
  show ?case
  proof (cases xs)
    case Nil
    then have e: "free_object_count fr = 0" using h(1) by (simp add: frame_inv_def)
    from Cons.IH [OF h(2)] show ?thesis
    proof (elim disjE exE conjE)
      assume "slab_scan osize mem frs = Some None" "V = \<Union> (objs osize ` set frs)"
      then show ?thesis using h(3) Nil e by simp
    next
      fix x frs' assume s: "slab_scan osize mem frs = Some (Some (x, frs'))" "x \<notin> V"
        "slab_rel osize mem frs' (insert x V)" "map fr_addr frs' = map fr_addr frs"
      note blocks = blocks_by_addr [OF s(4) h(4)]
      have "x \<notin> objs osize fr"
        using slab_rel_other_frame [OF s(3) geom _ assms(2) blocks] by blast
      then show ?thesis
        using s h Nil e blocks by (auto intro!: exI [of _ "[]"] exI [of _ "insert x V"])
    qed
  next
    case (Cons x ys)
    note t = frame_take [OF h(1) [unfolded Cons]]
    have x: "x \<notin> V" by (rule slab_rel_other_frame [OF h(2) geom t(3) assms(2) h(4)])
    have "free_object_count fr \<noteq> 0" "freelist fr \<noteq> 0"
      using h(1) Cons by (auto simp: frame_inv_def)
    then have "slab_scan osize mem (fr # frs) = Some (Some (x, fr\<lparr>freelist := mem x,
        free_object_count := free_object_count fr - 1\<rparr> # frs))"
      using t(1) by simp
    moreover have "x \<notin> U" using h(3) x Cons by auto
    moreover have "insert x U = (objs osize fr - set ys) \<union> V"
      using h(3) t(3,4) Cons by auto
    ultimately show ?thesis
      using t(2) h(2,4) by (auto intro!: exI [of _ ys] exI [of _ V])
  qed
qed simp

text \<open>Looking up the frame of an object, and returning the object to it.\<close>

lemma slab_find_correct:
  assumes "slab_rel osize mem frs U" and "0 < osize" and "fr \<in> set frs" and "x \<in> objs osize fr"
  obtains as bs where "frs = as @ fr # bs" "slab_find frs x = Some (length as)"
proof -
  obtain as bs where frs: "frs = as @ fr # bs" using assms(3) split_list by metis
  then obtain V W where rel: "slab_rel osize mem as V" "slab_rel osize mem (fr # bs) W"
    and dj: "\<forall>f\<in>set as. frame_block f \<inter> frame_block fr = {}"
    using assms(1) unfolding frs slab_rel_append by auto
  have geom: "frame_geom osize fr" using rel(2) by (auto simp: frame_inv_def)
  note m = objs_member [OF geom assms(4)]
  have "x \<in> frame_block fr" using m(4) assms(2) by (auto simp: obj_words_def)
  then have out: "\<not> (first_addr f \<le> x \<and> x < last_addr f)" if "f \<in> set as" "frame_geom osize f" for f
    using dj that by (fastforce simp: frame_geom_def frame_block_def)
  have "slab_find (as @ fr # bs) x = Some (length as)"
    using rel(1) out
  proof (induction as arbitrary: V)
    case Nil
    then show ?case using m assms(2) by simp
  next
    case (Cons f as)
    then have "frame_geom osize f" by (auto simp: frame_inv_def)
    moreover obtain V' where "slab_rel osize mem as V'" using Cons.prems(1) by auto
    ultimately show ?case using Cons.IH [of V'] Cons.prems(2) by auto
  qed
  then show thesis using that frs by blast
qed

lemma frame_put:
  assumes inv: "frame_inv osize mem fr xs" and os: "4 \<le> osize" and x: "x \<in> objs osize fr" "x \<notin> set xs"
  obtains fl' mem' where "slab_insert osize x Freelist (freelist fr, mem) = Some (Some (fl', mem'))"
    "frame_inv osize mem' (fr\<lparr>freelist := fl', free_object_count := free_object_count fr + 1\<rparr>) (insort x xs)"
    "\<And>a. a \<notin> obj_words osize x \<union> set xs \<Longrightarrow> mem' a = mem a"
proof -
  have geom: "frame_geom osize fr" and sub: "set xs \<subseteq> objs osize fr" and so: "sorted_wrt (<) xs"
    and ch: "chain mem (freelist fr) xs"
    using inv by (auto simp: frame_inv_def)
  note m = objs_member [OF geom]
  have "\<exists>fl' mem'. slab_insert osize x Freelist (freelist fr, mem) = Some (Some (fl', mem')) \<and>
    chain mem' fl' (insort x xs) \<and> poisoned osize mem' x \<and>
    (\<forall>a. a \<notin> obj_words osize x \<union> set xs \<longrightarrow> mem' a = mem a)"
    using slab_insert_correct [OF m(1) [OF x(1)] objs_dvd [OF inv] os x(2) m(5) [OF x(1)] so, of mem Freelist "freelist fr"] ch
    by auto
  then obtain fl' mem' where ins: "slab_insert osize x Freelist (freelist fr, mem) = Some (Some (fl', mem'))"
    "chain mem' fl' (insort x xs)" "poisoned osize mem' x"
    "\<And>a. a \<notin> obj_words osize x \<union> set xs \<Longrightarrow> mem' a = mem a" by blast
  have self: "y \<in> obj_words osize y" for y using os by (simp add: obj_words_def)
  have "poisoned osize mem' y" if y: "y \<in> set xs" for y
  proof -
    have "poisoned osize mem' y = poisoned osize mem y"
    proof (rule poisoned_cong, rule ins(4))
      fix a assume a: "a \<in> obj_words osize y" "a \<noteq> y"
      have "a \<notin> obj_words osize x"
        using objs_words_apart [OF geom, of x y] x y a(1) sub by blast
      moreover have "a \<notin> set xs"
        using objs_words_apart [OF geom, of a y] a y sub self by blast
      ultimately show "a \<notin> obj_words osize x \<union> set xs" by simp
    qed
    then show ?thesis using inv y by (simp add: frame_inv_def)
  qed
  moreover have "sorted_wrt (<) (insort x xs)"
    using so x(2) by (simp add: strict_sorted_iff sorted_insort distinct_insort)
  ultimately have "frame_inv osize mem' (fr\<lparr>freelist := fl', free_object_count := free_object_count fr + 1\<rparr>) (insort x xs)"
    using inv ins(2,3) x(1) by (auto simp: frame_inv_def frame_geom_def objs_def set_insort_key)
  then show thesis using that ins(1,4) by blast
qed

text \<open>Freeing an object that is already free changes nothing.\<close>

lemma slab_free_twice:
  assumes rel: "slab_rel (object_size slab) mem (frames slab) U" and os: "4 \<le> object_size slab"
    and x: "x \<in> \<Union> (objs (object_size slab) ` set (frames slab))" "x \<notin> U"
  shows "u_slab_free pfr slab x mem ps = Some (slab, mem, ps)"
proof -
  let ?o = "object_size slab"
  obtain fr where fr: "fr \<in> set (frames slab)" "x \<in> objs ?o fr" using x(1) by blast
  have pos: "0 < ?o" using os by simp
  obtain as bs where f: "frames slab = as @ fr # bs" "slab_find (frames slab) x = Some (length as)"
    by (rule slab_find_correct [OF rel pos fr])
  obtain V W xs where r: "frame_inv ?o mem fr xs" "U = V \<union> ((objs ?o fr - set xs) \<union> W)"
    using rel unfolding f(1) slab_rel_append slab_rel.simps by auto
  then have "x \<in> set xs" using fr(2) x(2) by blast
  then have "slab_insert ?o x Freelist (freelist fr, mem) = Some None"
    using r(1) objs_dvd [OF r(1)] os by (intro slab_insert_double [where xs = xs]) (auto simp: frame_inv_def)
  then show ?thesis
    using f by (simp add: u_slab_free_def u_slab_frame_object_free_def Let_def)
qed

lemma slab_rel_put:
  assumes rel: "slab_rel osize mem (as @ fr # bs) U" and inv: "frame_inv osize mem fr xs" and os: "4 \<le> osize"
    and x: "x \<in> objs osize fr" "x \<in> U" and inv': "frame_inv osize mem' fr' (insort x xs)"
    and fr': "frame_block fr' = frame_block fr" "objs osize fr' = objs osize fr"
    and same: "\<And>a. a \<notin> obj_words osize x \<union> set xs \<Longrightarrow> mem' a = mem a"
  shows "slab_rel osize mem' (as @ fr' # bs) (U - {x})"
proof -
  have pos: "0 < osize" using os by simp
  obtain V W xs' where h: "slab_rel osize mem as V" "slab_rel osize mem bs W" "frame_inv osize mem fr xs'"
    "U = V \<union> ((objs osize fr - set xs') \<union> W)"
    "\<forall>f\<in>set as. \<forall>g\<in>set (fr # bs). frame_block f \<inter> frame_block g = {}"
    "\<forall>g\<in>set bs. frame_block fr \<inter> frame_block g = {}"
    using rel unfolding slab_rel_append slab_rel.simps by blast
  have geom: "frame_geom osize fr" using inv by (simp add: frame_inv_def)
  have "chain mem (freelist fr) xs" "chain mem (freelist fr) xs'" using inv h(3) by (auto simp: frame_inv_def)
  then have xs': "xs' = xs" by (rule chain_unique [rotated])
  have self: "y \<in> obj_words osize y" for y using pos by (simp add: obj_words_def)
  have "set xs \<subseteq> objs osize fr" using inv by (simp add: frame_inv_def)
  then have in_fr: "a \<in> frame_block fr" if "a \<in> obj_words osize x \<union> set xs" for a
    using that objs_member(4) [OF geom] x(1) self [of a] by blast
  have "slab_rel osize mem' as V"
    using h(5) in_fr by (intro slab_rel_cong [OF h(1) pos] same) auto
  moreover have "slab_rel osize mem' bs W"
    using h(6) in_fr by (intro slab_rel_cong [OF h(2) pos] same) auto
  moreover have "x \<notin> V" "x \<notin> W"
    using slab_rel_other_frame [OF h(1) geom x(1) pos] slab_rel_other_frame [OF h(2) geom x(1) pos] h(5,6)
    by (auto simp: Int_commute)
  then have "U - {x} = V \<union> ((objs osize fr' - set (insort x xs)) \<union> W)"
    unfolding h(4) xs' fr' set_insort_key by blast
  moreover have "\<forall>f\<in>set as. \<forall>g\<in>set (fr' # bs). frame_block f \<inter> frame_block g = {}"
    "\<forall>g\<in>set bs. frame_block fr' \<inter> frame_block g = {}"
    using h(5,6) fr' by auto
  ultimately show ?thesis
    using inv' unfolding slab_rel_append slab_rel.simps by blast
qed

section \<open>The operations over a provider of pages\<close>

text \<open>
  A slab whose frames are blocks that the provider handed out: \<open>held\<close> is the predicate of the
  provider, \<open>H\<close> the addresses of all blocks of its client and \<open>U\<close> the used objects.
\<close>

definition slab_ok :: "('p \<Rightarrow> nat set \<Rightarrow> bool) \<Rightarrow> slab_alloc \<Rightarrow> wmem \<Rightarrow> 'p \<Rightarrow> nat set \<Rightarrow> nat set \<Rightarrow> bool" where
  "slab_ok held slab mem ps H U \<longleftrightarrow>
     obj_size_ok (object_size slab) \<and> slab_rel (object_size slab) mem (frames slab) U \<and>
     held ps H \<and> fr_addr ` set (frames slab) \<subseteq> H"

locale frame_provider = page_provider held "4096 * 2 ^ SLAB_ORDER" pal pfr
  for held :: "'p \<Rightarrow> nat set \<Rightarrow> bool" and pal pfr
begin

lemma new_frame_rel:
  assumes ok: "slab_ok held slab mem ps H U" and new: "pal ps = Some (v, ps')" "v \<noteq> 0"
    and i: "slab_frame_init (object_size slab) mem v = (fr, mem')"
  shows "slab_ok held (slab\<lparr>frames := frames slab @ [fr]\<rparr>) mem' ps' (insert v H) U" "v \<notin> H"
    "\<And>a. a \<notin> {v..<v + frame_bytes} \<Longrightarrow> mem' a = mem a" "fr_addr fr = v"
    "objs (object_size slab) fr \<noteq> {}" "objs (object_size slab) fr \<inter> U = {}"
proof -
  let ?o = "object_size slab"
  have o: "obj_size_ok ?o" "slab_rel ?o mem (frames slab) U" "held ps H" "fr_addr ` set (frames slab) \<subseteq> H"
    using ok by (auto simp: slab_ok_def)
  have v: "v \<notin> H" "held ps' (insert v H)" using pal [OF o(3) new] by auto
  note f = slab_frame_init_correct [OF o(1) _ _ _ i]
  have fi: "frame_inv ?o mem' fr (obj_list ?o (first_addr fr) (object_count fr))" "fr_addr fr = v"
    "\<And>a. a \<notin> frame_block fr \<Longrightarrow> mem' a = mem a"
    using f held_addr [OF v(2), of v] by auto
  have dj: "frame_block g \<inter> frame_block fr = {}" if "g \<in> set (frames slab)" for g
  proof -
    have "fr_addr g \<in> insert v H" "fr_addr g \<noteq> v" using that o(4) v(1) by auto
    then show ?thesis
      using blocks_disjoint [OF v(2), of "fr_addr g" v] fi(2) by (simp add: frame_block_def)
  qed
  have "slab_rel ?o mem' (frames slab) U"
    using dj fi(3) by (intro slab_rel_cong [OF o(2) obj_size_okD(3) [OF o(1)]]) blast
  moreover have "slab_rel ?o mem' [fr] {}"
    using fi(1) by (auto simp: objs_def)
  ultimately have "slab_rel ?o mem' (frames slab @ [fr]) (U \<union> {})"
    unfolding slab_rel_append using dj by fastforce
  then show "slab_ok held (slab\<lparr>frames := frames slab @ [fr]\<rparr>) mem' ps' (insert v H) U"
    using o v(2) fi(2) by (auto simp: slab_ok_def)
  show "objs ?o fr \<inter> U = {}"
    using slab_rel_other_frame [OF o(2) _ _ obj_size_okD(3) [OF o(1)], of fr] dj fi(1)
    by (auto simp: frame_inv_def Int_commute)
  have "0 < object_count fr" using fi(1) by (simp add: frame_inv_def frame_geom_def)
  then show "objs ?o fr \<noteq> {}" by (auto simp: objs_def set_obj_list)
  show "v \<notin> H" "fr_addr fr = v" by fact+
  show "mem' a = mem a" if "a \<notin> {v..<v + frame_bytes}" for a
    using fi(2,3) that by (simp add: frame_block_def)
qed

lemma slab_malloc_scan:
  assumes ok: "slab_ok held slab mem ps H U"
  shows "slab_scan (object_size slab) mem (frames slab) = Some None \<and> U = \<Union> (objs (object_size slab) ` set (frames slab)) \<or>
    (\<exists>x slab'. u_slab_malloc pal slab mem ps = Some (x, slab', mem, ps) \<and> x \<notin> U \<and> x \<noteq> 0 \<and>
      slab_ok held slab' mem ps H (insert x U) \<and> object_size slab' = object_size slab \<and>
      fr_addr ` set (frames slab') = fr_addr ` set (frames slab))"
proof -
  let ?o = "object_size slab"
  have o: "obj_size_ok ?o" "slab_rel ?o mem (frames slab) U" using ok by (auto simp: slab_ok_def)
  from slab_scan_correct [OF o(2) obj_size_okD(3) [OF o(1)]] show ?thesis
  proof (elim disjE exE conjE)
    fix x frs' assume s: "slab_scan ?o mem (frames slab) = Some (Some (x, frs'))" "x \<notin> U"
      "slab_rel ?o mem frs' (insert x U)" "map fr_addr frs' = map fr_addr (frames slab)"
    obtain g where "x \<in> objs ?o g" "frame_geom ?o g" using slab_rel_used [OF s(3)] by blast
    then have "x \<noteq> 0" using objs_member(5) [of ?o g x] obj_size_okD(3) [OF o(1)] by simp
    moreover have "fr_addr ` set frs' = fr_addr ` set (frames slab)"
      using arg_cong [OF s(4), of set] by simp
    moreover have "u_slab_malloc pal slab mem ps = Some (x, slab\<lparr>frames := frs'\<rparr>, mem, ps)"
      using s(1) by (simp add: u_slab_malloc.simps)
    ultimately show ?thesis
      using s(2,3) ok by (auto simp: slab_ok_def)
  qed simp
qed

text \<open>The whole allocation: at most one new frame is needed.\<close>

lemma slab_malloc_correct:
  assumes ok: "slab_ok held slab mem ps H U"
  shows "case u_slab_malloc pal slab mem ps of
      None \<Rightarrow> pal ps = None
    | Some (x, slab', mem', ps') \<Rightarrow>
        (x = 0 \<and> slab' = slab \<and> mem' = mem \<and> pal ps = Some (0, ps') \<and> slab_ok held slab mem ps' H U) \<or>
        (x \<noteq> 0 \<and> x \<notin> U \<and> object_size slab' = object_size slab \<and>
          (\<exists>H'. H \<subseteq> H' \<and> slab_ok held slab' mem' ps' H' (insert x U) \<and>
            fr_addr ` set (frames slab') \<subseteq> fr_addr ` set (frames slab) \<union> (H' - H) \<and>
            (\<forall>a. (\<forall>v\<in>H' - H. a \<notin> {v..<v + frame_bytes}) \<longrightarrow> mem' a = mem a)))"
proof -
  let ?o = "object_size slab"
  consider (old) x slab' where "u_slab_malloc pal slab mem ps = Some (x, slab', mem, ps)" "x \<notin> U" "x \<noteq> 0"
      "slab_ok held slab' mem ps H (insert x U)" "object_size slab' = ?o"
      "fr_addr ` set (frames slab') = fr_addr ` set (frames slab)"
    | (full) "slab_scan ?o mem (frames slab) = Some None" "U = \<Union> (objs ?o ` set (frames slab))"
    using slab_malloc_scan [OF ok] by blast
  then show ?thesis
  proof cases
    case old
    then show ?thesis by auto
  next
    case full
    note unf = u_slab_malloc.simps [of pal slab mem ps] u_slab_frame_add_new_def full(1)
    have held: "held ps H" using ok by (simp add: slab_ok_def)
    consider (no) "pal ps = None" | (null) ps' where "pal ps = Some (0, ps')"
      | (new) v ps' where "pal ps = Some (v, ps')" "v \<noteq> 0"
      by (metis option.exhaust surj_pair)
    then show ?thesis
    proof cases
      case no
      then show ?thesis by (simp add: unf)
    next
      case null
      then have "slab_ok held slab mem ps' H U" using ok pal_null [OF held null] by (simp add: slab_ok_def)
      with null show ?thesis by (simp add: unf)
    next
      case new
      obtain fr mem' where i: "slab_frame_init ?o mem v = (fr, mem')" by (cases "slab_frame_init ?o mem v")
      let ?s = "slab\<lparr>frames := frames slab @ [fr]\<rparr>"
      note n = new_frame_rel [OF ok new i]
      have "u_slab_malloc pal slab mem ps = u_slab_malloc pal ?s mem' ps'"
        using new i by (simp add: unf)
      moreover have "\<exists>x slab'. u_slab_malloc pal ?s mem' ps' = Some (x, slab', mem', ps') \<and> x \<notin> U \<and> x \<noteq> 0 \<and>
          slab_ok held slab' mem' ps' (insert v H) (insert x U) \<and> object_size slab' = ?o \<and>
          fr_addr ` set (frames slab') = insert v (fr_addr ` set (frames slab))"
      proof -
        have "U \<noteq> \<Union> (objs ?o ` set (frames ?s))" using n(5,6) by auto
        then show ?thesis using slab_malloc_scan [OF n(1)] n(4) by auto
      qed
      ultimately show ?thesis
        using n(2,3) by (auto intro!: exI [of _ "insert v H"])
    qed
  qed
qed

text \<open>Giving back the unused frames.\<close>

lemma slab_oom_frames_correct:
  assumes "slab_rel osize mem frs U" and "0 < osize" and "held ps H" and "fr_addr ` set frs \<subseteq> H"
  shows "\<exists>frs' ps'. slab_oom_frames pfr frs ps = Some (frs', ps') \<and> slab_rel osize mem frs' U \<and> set frs' \<subseteq> set frs \<and>
    held ps' (H - (fr_addr ` set frs - fr_addr ` set frs'))"
  using assms
proof (induction frs arbitrary: U ps H)
  case (Cons fr frs)
  from Cons.prems(1) obtain xs V where h: "frame_inv osize mem fr xs" "slab_rel osize mem frs V"
    "U = (objs osize fr - set xs) \<union> V" "\<forall>g\<in>set frs. frame_block fr \<inter> frame_block g = {}" by auto
  have addr: "\<forall>g\<in>set frs. fr_addr g \<noteq> fr_addr fr"
    using h(4) by (auto simp: frame_block_def)
  show ?case
  proof (cases "free_object_count fr = int (object_count fr)")
    case True
    then have U: "U = V" using full_frame [OF h(1) Cons.prems(2)] h(3) by simp
    obtain ps1 where p1: "pfr (fr_addr fr) ps = Some ps1" "held ps1 (H - {fr_addr fr})"
      using pfr [OF Cons.prems(3), of "fr_addr fr"] Cons.prems(4) by auto
    have "fr_addr ` set frs \<subseteq> H - {fr_addr fr}" using Cons.prems(4) addr by auto
    from Cons.IH [OF h(2) Cons.prems(2) p1(2) this] obtain frs' ps' where
      "slab_oom_frames pfr frs ps1 = Some (frs', ps')" "slab_rel osize mem frs' V" "set frs' \<subseteq> set frs"
      "held ps' (H - {fr_addr fr} - (fr_addr ` set frs - fr_addr ` set frs'))" by auto
    moreover have "H - {fr_addr fr} - (fr_addr ` set frs - fr_addr ` set frs') =
        H - (fr_addr ` set (fr # frs) - fr_addr ` set frs')"
      using \<open>set frs' \<subseteq> set frs\<close> addr by auto
    ultimately show ?thesis
      using True p1(1) U by (auto simp: u_slab_frame_free_def)
  next
    case False
    from Cons.IH [OF h(2) Cons.prems(2,3)] Cons.prems(4) obtain frs' ps' where c:
      "slab_oom_frames pfr frs ps = Some (frs', ps')" "slab_rel osize mem frs' V" "set frs' \<subseteq> set frs"
      "held ps' (H - (fr_addr ` set frs - fr_addr ` set frs'))" by auto
    moreover have "fr_addr ` set (fr # frs) - fr_addr ` set (fr # frs') = fr_addr ` set frs - fr_addr ` set frs'"
      using addr by auto
    moreover have "slab_rel osize mem (fr # frs') U"
      using h c(2,3) by auto
    ultimately show ?thesis
      using False by auto
  qed
qed simp

lemma slab_free_correct:
  assumes ok: "slab_ok held slab mem ps H U" and x: "x \<in> U"
  shows "\<exists>slab' mem' ps' H'. u_slab_free pfr slab x mem ps = Some (slab', mem', ps') \<and> H' \<subseteq> H \<and>
    slab_ok held slab' mem' ps' H' (U - {x}) \<and> object_size slab' = object_size slab \<and>
    H - H' \<subseteq> fr_addr ` set (frames slab) \<and> fr_addr ` set (frames slab') \<subseteq> fr_addr ` set (frames slab) \<and>
    (\<forall>y\<in>U - {x}. \<forall>a\<in>obj_words (object_size slab) y. mem' a = mem a) \<and>
    (\<forall>a. (\<forall>v\<in>fr_addr ` set (frames slab). a \<notin> {v..<v + frame_bytes}) \<longrightarrow> mem' a = mem a)"
proof -
  let ?o = "object_size slab"
  have o: "obj_size_ok ?o" "slab_rel ?o mem (frames slab) U" "held ps H" "fr_addr ` set (frames slab) \<subseteq> H"
    using ok by (auto simp: slab_ok_def)
  note os = obj_size_okD [OF o(1)]
  obtain fr where fr: "fr \<in> set (frames slab)" "x \<in> objs ?o fr" "frame_geom ?o fr"
    using slab_rel_used [OF o(2) x] by blast
  obtain as bs where f: "frames slab = as @ fr # bs" "slab_find (frames slab) x = Some (length as)"
    by (rule slab_find_correct [OF o(2) os(3) fr(1,2)])
  obtain V W xs where r: "slab_rel ?o mem as V" "slab_rel ?o mem bs W" "frame_inv ?o mem fr xs"
    "U = V \<union> ((objs ?o fr - set xs) \<union> W)"
    "\<forall>f\<in>set as. frame_block f \<inter> frame_block fr = {}" "\<forall>g\<in>set bs. frame_block fr \<inter> frame_block g = {}"
    using o(2) unfolding f(1) slab_rel_append slab_rel.simps by auto
  have xs: "x \<notin> set xs"
    using slab_rel_other_frame [OF r(1) fr(3,2) os(3)] slab_rel_other_frame [OF r(2) fr(3,2) os(3)] r(4-6) x
    by (auto simp: Int_commute)
  obtain fl' mem' where p: "slab_insert ?o x Freelist (freelist fr, mem) = Some (Some (fl', mem'))"
    "frame_inv ?o mem' (fr\<lparr>freelist := fl', free_object_count := free_object_count fr + 1\<rparr>) (insort x xs)"
    "\<And>a. a \<notin> obj_words ?o x \<union> set xs \<Longrightarrow> mem' a = mem a"
    by (rule frame_put [OF r(3) os(4) fr(2) xs]) blast
  define fr' where "fr' = fr\<lparr>freelist := fl', free_object_count := free_object_count fr + 1\<rparr>"
  let ?s = "slab\<lparr>frames := as @ fr' # bs\<rparr>"
  have rel': "slab_rel ?o mem' (as @ fr' # bs) (U - {x})"
    by (rule slab_rel_put [OF o(2) [unfolded f(1)] r(3) os(4) fr(2) x p(2) [folded fr'_def] _ _ p(3)])
      (simp_all add: fr'_def)
  have addrs: "fr_addr ` set (as @ fr' # bs) = fr_addr ` set (frames slab)" by (simp add: f(1) fr'_def)
  have free_eq: "u_slab_free pfr slab x mem ps =
    (if free_object_count fr' = int (object_count fr') then map_option (\<lambda>(s, ps). (s, mem', ps)) (u_slab_oom pfr ?s ps)
     else Some (?s, mem', ps))"
    using f p(1) by (simp add: u_slab_free_def u_slab_frame_object_free_def Let_def fr'_def)
  have keep: "mem' a = mem a" if y: "y \<in> U - {x}" and a: "a \<in> obj_words ?o y" for y a
  proof (rule p(3))
    obtain g where g: "g \<in> set (frames slab)" "y \<in> objs ?o g" "frame_geom ?o g"
      by (rule slab_rel_used [OF o(2)]) (use y in auto)
    have "y \<notin> set xs"
      using slab_rel_other_frame [OF r(1) fr(3) _ os(3), of y] slab_rel_other_frame [OF r(2) fr(3) _ os(3), of y]
        r(3-6) y by (auto simp: Int_commute frame_inv_def)
    moreover have "?o dvd y" "?o dvd x" "\<And>z. z \<in> set xs \<Longrightarrow> ?o dvd z"
      using objs_member(1) [OF g(3,2)] objs_member(1) [OF fr(3,2)] objs_dvd [OF r(3)] by auto
    moreover have "z \<in> obj_words ?o z" for z using os(3) by (simp add: obj_words_def)
    ultimately show "a \<notin> obj_words ?o x \<union> set xs"
      using obj_words_disjoint [of ?o x y] obj_words_disjoint [of ?o a y] y a by blast
  qed
  have outside: "mem' a = mem a" if "\<forall>v\<in>fr_addr ` set (frames slab). a \<notin> {v..<v + frame_bytes}" for a
  proof (rule p(3))
    have "a \<notin> frame_block fr" using that fr(1) by (simp add: frame_block_def)
    moreover have "set xs \<subseteq> frame_block fr"
      using objs_member(4) [OF fr(3)] r(3) os(3) by (fastforce simp: frame_inv_def obj_words_def)
    ultimately show "a \<notin> obj_words ?o x \<union> set xs"
      using objs_member(4) [OF fr(3,2)] by blast
  qed
  show ?thesis
  proof (cases "free_object_count fr' = int (object_count fr')")
    case False
    then show ?thesis
      using free_eq o rel' addrs keep outside by (intro exI [of _ ?s] exI [of _ mem'] exI [of _ ps] exI [of _ H])
        (auto simp: slab_ok_def)
  next
    case True
    obtain frs' ps' where q: "slab_oom_frames pfr (as @ fr' # bs) ps = Some (frs', ps')"
      "slab_rel ?o mem' frs' (U - {x})" "set frs' \<subseteq> set (as @ fr' # bs)"
      "held ps' (H - (fr_addr ` set (frames slab) - fr_addr ` set frs'))"
      using slab_oom_frames_correct [OF rel' os(3) o(3), unfolded addrs, OF o(4)] by blast
    let ?H = "H - (fr_addr ` set (frames slab) - fr_addr ` set frs')"
    have sub: "fr_addr ` set frs' \<subseteq> fr_addr ` set (frames slab)"
      unfolding addrs [symmetric] using q(3) by (rule image_mono)
    then have "slab_ok held (slab\<lparr>frames := frs'\<rparr>) mem' ps' ?H (U - {x})"
      using o q(2,4) by (auto simp: slab_ok_def)
    moreover have "u_slab_free pfr slab x mem ps = Some (slab\<lparr>frames := frs'\<rparr>, mem', ps')"
      using free_eq True q(1) by (simp add: u_slab_oom_def)
    ultimately show ?thesis
      using keep outside sub by (intro exI [of _ "slab\<lparr>frames := frs'\<rparr>"] exI [of _ mem'] exI [of _ ps'] exI [of _ ?H]) auto
  qed
qed

end

end
