(* ===== verification/Kmalloc.thy ===== *)
theory Kmalloc
  imports SlabCorrect
begin

text \<open>
  The kernel's general allocator: \<^verbatim>\<open>src/mm/kmalloc.c\<close>. Requests up to 4096 bytes go to the first of eight
  slabs whose objects are large enough, larger ones to the page allocator directly with a descriptor on
  \<open>large_alloc_list\<close>; the descriptor is itself a small allocation. Freeing looks the address up in
  the slabs first and then in the list.
\<close>

section \<open>Model\<close>

record large_alloc_desc =
  ld_addr :: nat
  ld_pages :: nat
  ld_order :: nat

record kmalloc_state =
  kmalloc_slabs :: "slab_alloc list"
  large_alloc_list :: "large_alloc_desc list"
  k_mem :: wmem
  k_pages :: page_buddy_alloc

definition kmalloc_slabs_init :: "slab_alloc list" where
  "kmalloc_slabs_init =
     [SLAB_ALLOC_INIT ''kmalloc_32'' 32, SLAB_ALLOC_INIT ''kmalloc_64'' 64,
      SLAB_ALLOC_INIT ''kmalloc_128'' 128, SLAB_ALLOC_INIT ''kmalloc_256'' 256,
      SLAB_ALLOC_INIT ''kmalloc_512'' 512, SLAB_ALLOC_INIT ''kmalloc_1024'' 1024,
      SLAB_ALLOC_INIT ''kmalloc_2048'' 2048, SLAB_ALLOC_INIT ''kmalloc_4096'' 4096]"

text \<open>\<^verbatim>\<open>bsr\<close>: the index of the highest set bit.\<close>

fun log2 :: "nat \<Rightarrow> nat" where
  "log2 n = (if n \<le> 1 then 0 else Suc (log2 (n div 2)))"

declare log2.simps [simp del]

definition pages_to_order :: "nat \<Rightarrow> nat" where
  "pages_to_order n = (if n > 1 then log2 (n - 1) + 1 else 0)"

definition sizeof_large_alloc_desc :: nat where
  "sizeof_large_alloc_desc = 16"

text \<open>The slab loops of the three operations, as an index into the slabs.\<close>

fun slab_for_size :: "slab_alloc list \<Rightarrow> nat \<Rightarrow> nat option" where
  "slab_for_size [] n = None"
| "slab_for_size (s # ss) n = (if n \<le> object_size s then Some 0 else map_option Suc (slab_for_size ss n))"

fun slab_for_addr :: "slab_alloc list \<Rightarrow> nat \<Rightarrow> nat option" where
  "slab_for_addr [] p = None"
| "slab_for_addr (s # ss) p = (if slab_has_addr s p = 0 then Some 0 else map_option Suc (slab_for_addr ss p))"

fun kmalloc_oom_slabs ::
  "kern_image \<Rightarrow> slab_alloc list \<Rightarrow> page_buddy_alloc \<Rightarrow> (slab_alloc list \<times> page_buddy_alloc) option" where
  "kmalloc_oom_slabs ki [] a = Some ([], a)"
| "kmalloc_oom_slabs ki (s # ss) a =
     (case slab_oom (slab_pfree_va ki) s a of
        None \<Rightarrow> None
      | Some (s, a) \<Rightarrow> map_option (apfst ((#) s)) (kmalloc_oom_slabs ki ss a))"

definition kmalloc_oom :: "kern_image \<Rightarrow> kmalloc_state \<Rightarrow> kmalloc_state option" where
  "kmalloc_oom ki st =
     map_option (\<lambda>(ss, a). st\<lparr>kmalloc_slabs := ss, k_pages := a\<rparr>) (kmalloc_oom_slabs ki (kmalloc_slabs st) (k_pages st))"

text \<open>
  Sizes are 32-bit, so \<^verbatim>\<open>PG_ALIGN(size)\<close> is computed on words. \<open>me\<close> is the calling task, which
  may have to sleep for pages; the address 0 is the null pointer.
\<close>

partial_function (option) kmalloc ::
  "nat \<Rightarrow> kmalloc_state \<Rightarrow> u32 \<Rightarrow> u32 \<Rightarrow> (nat \<times> kmalloc_state) option" where
  "kmalloc me st n flags =
     (case slab_for_size (kmalloc_slabs st) (unat n) of
        Some i \<Rightarrow>
          (case slab_malloc (slab_palloc_va me flags) (kmalloc_slabs st ! i) (k_mem st) (k_pages st) of
             None \<Rightarrow> None
           | Some (p, s, mem, a) \<Rightarrow>
               Some (p, st\<lparr>kmalloc_slabs := (kmalloc_slabs st)[i := s], k_mem := mem, k_pages := a\<rparr>))
      | None \<Rightarrow>
          do {
            let order = pages_to_order (unat (PG_ALIGN n) div 4096);
            (desc, st) \<leftarrow> kmalloc me st (of_nat sizeof_large_alloc_desc) flags;
            if desc = 0 then Some (0, st)
            else case palloc (\<lambda>a. a) me (k_pages st) order flags of
                   Some (Page p, a) \<Rightarrow>
                     Some (unat (pg_virt (pages a ! p)),
                       st\<lparr>k_pages := a,
                          large_alloc_list := large_alloc_list st @ [\<lparr>ld_addr = desc, ld_pages = p, ld_order = order\<rparr>]\<rparr>)
                 | _ \<Rightarrow> None
          })"

text \<open>The address range the descriptor is compared with; the upper bound is included.\<close>

definition desc_start :: "kmalloc_state \<Rightarrow> large_alloc_desc \<Rightarrow> nat" where
  "desc_start st d = unat (pg_virt (pages (k_pages st) ! ld_pages d))"

definition desc_bytes :: "large_alloc_desc \<Rightarrow> nat" where
  "desc_bytes d = 2 ^ ld_order d * 4096"

definition desc_matches :: "kmalloc_state \<Rightarrow> nat \<Rightarrow> large_alloc_desc \<Rightarrow> bool" where
  "desc_matches st p d \<longleftrightarrow> desc_start st d \<le> p \<and> p \<le> desc_start st d + desc_bytes d"

definition ksize :: "kmalloc_state \<Rightarrow> nat \<Rightarrow> nat" where
  "ksize st p =
     (case slab_for_addr (kmalloc_slabs st) p of
        Some i \<Rightarrow> object_size (kmalloc_slabs st ! i)
      | None \<Rightarrow> (case find (desc_matches st p) (large_alloc_list st) of
                  Some d \<Rightarrow> desc_bytes d
                | None \<Rightarrow> 0))"

partial_function (option) kfree :: "kern_image \<Rightarrow> kmalloc_state \<Rightarrow> nat \<Rightarrow> kmalloc_state option" where
  "kfree ki st p =
     (case slab_for_addr (kmalloc_slabs st) p of
        Some i \<Rightarrow>
          (case slab_free (slab_pfree_va ki) (kmalloc_slabs st ! i) p (k_mem st) (k_pages st) of
             None \<Rightarrow> None
           | Some (s, mem, a) \<Rightarrow>
               Some (st\<lparr>kmalloc_slabs := (kmalloc_slabs st)[i := s], k_mem := mem, k_pages := a\<rparr>))
      | None \<Rightarrow>
          (case find (desc_matches st p) (large_alloc_list st) of
             None \<Rightarrow> None
           | Some d \<Rightarrow>
               do {
                 a \<leftarrow> pfree ki (k_pages st) (Some (ld_pages d)) (ld_order d);
                 kfree ki (st\<lparr>large_alloc_list := remove1 d (large_alloc_list st), k_pages := a\<rparr>) (ld_addr d)
               }))"

text \<open>
  \<^verbatim>\<open>kstrdup\<close> and \<^verbatim>\<open>kstrndup\<close> return the block and the bytes that are written to it from its start: strings
  are character lists without the terminating zero byte, and copying to a null block faults. \<^verbatim>\<open>strncpy\<close>
  always writes \<open>n\<close> bytes.
\<close>

definition strncpy :: "string \<Rightarrow> nat \<Rightarrow> string" where
  "strncpy s n = take n s @ replicate (n - length s) (CHR 0x00)"

definition kstrdup :: "nat \<Rightarrow> kmalloc_state \<Rightarrow> string \<Rightarrow> u32 \<Rightarrow> (nat \<times> string \<times> kmalloc_state) option" where
  "kstrdup me st s flags =
     (case kmalloc me st (of_nat (length s + 1)) flags of
        None \<Rightarrow> None
      | Some (buf, st) \<Rightarrow> if buf = 0 then None else Some (buf, s @ [CHR 0x00], st))"

definition kstrndup :: "nat \<Rightarrow> kmalloc_state \<Rightarrow> string \<Rightarrow> nat \<Rightarrow> u32 \<Rightarrow> (nat \<times> string \<times> kmalloc_state) option" where
  "kstrndup me st s n flags =
     (let len = (if length s > n then n else length s)
      in case kmalloc me st (of_nat (len + 1)) flags of
           None \<Rightarrow> None
         | Some (buf, st) \<Rightarrow>
             if buf = 0 then None
             else let bytes = strncpy s n
                  in Some (buf, if len < n then bytes[len := CHR 0x00] else bytes @ [CHR 0x00], st))"

end
