(* ===== verification/KmallocCorrect.thy ===== *)
theory KmallocCorrect
  imports Kmalloc
begin

text \<open>
  Correctness of \<^verbatim>\<open>kmalloc\<close> and \<^verbatim>\<open>kfree\<close> over the slabs and the buddy allocator: the slabs' contracts are
  used through the interpretation of \<open>frame_provider\<close> on the buddy allocator. The reachable states
  carry the live objects of each slab as a ghost component.
\<close>

interpretation bframes: frame_provider "held_frames ki" "slab_palloc_va me flags" "slab_pfree_va ki"
  for ki me flags
  by unfold_locales

section \<open>The invariant over all slabs\<close>

definition slab_addrs :: "slab_alloc \<Rightarrow> nat set" where
  "slab_addrs s = fr_addr ` set (frames s)"

definition kmalloc_ok :: "kern_image \<Rightarrow> kmalloc_state \<Rightarrow> nat set \<Rightarrow> nat set list \<Rightarrow> bool" where
  "kmalloc_ok ki st H Us \<longleftrightarrow>
     map object_size (kmalloc_slabs st) = map object_size kmalloc_slabs_init \<and>
     length Us = length (kmalloc_slabs st) \<and>
     (\<forall>i<length Us. slab_ok (held_frames ki) (kmalloc_slabs st ! i) (k_mem st) (k_pages st) H (Us ! i)) \<and>
     (\<forall>i<length Us. \<forall>j<length Us. i \<noteq> j \<longrightarrow>
        slab_addrs (kmalloc_slabs st ! i) \<inter> slab_addrs (kmalloc_slabs st ! j) = {})"

lemma kmalloc_okD:
  assumes "kmalloc_ok ki st H Us"
  shows "length (kmalloc_slabs st) = 8" "length Us = 8"
    "i < 8 \<Longrightarrow> slab_ok (held_frames ki) (kmalloc_slabs st ! i) (k_mem st) (k_pages st) H (Us ! i)"
    "i < 8 \<Longrightarrow> j < 8 \<Longrightarrow> i \<noteq> j \<Longrightarrow> slab_addrs (kmalloc_slabs st ! i) \<inter> slab_addrs (kmalloc_slabs st ! j) = {}"
    "i < 8 \<Longrightarrow> object_size (kmalloc_slabs st ! i) = object_size (kmalloc_slabs_init ! i)"
proof -
  have "length (kmalloc_slabs st) = 8"
    using arg_cong [of _ _ length] assms by (fastforce simp: kmalloc_ok_def kmalloc_slabs_init_def)
  then show "length (kmalloc_slabs st) = 8" "length Us = 8"
    "i < 8 \<Longrightarrow> slab_ok (held_frames ki) (kmalloc_slabs st ! i) (k_mem st) (k_pages st) H (Us ! i)"
    "i < 8 \<Longrightarrow> j < 8 \<Longrightarrow> i \<noteq> j \<Longrightarrow> slab_addrs (kmalloc_slabs st ! i) \<inter> slab_addrs (kmalloc_slabs st ! j) = {}"
    using assms by (auto simp: kmalloc_ok_def)
  have "length kmalloc_slabs_init = 8" by (simp add: kmalloc_slabs_init_def)
  then show "i < 8 \<Longrightarrow> object_size (kmalloc_slabs st ! i) = object_size (kmalloc_slabs_init ! i)"
    using assms \<open>length (kmalloc_slabs st) = 8\<close> by (metis kmalloc_ok_def nth_map)
qed

text \<open>The frames of different slabs are different blocks, hence disjoint.\<close>

lemma slab_blocks_disjoint:
  assumes ok: "kmalloc_ok ki st H Us" and ij: "i < 8" "j < 8" "i \<noteq> j"
    and f: "f \<in> set (frames (kmalloc_slabs st ! i))" and g: "g \<in> set (frames (kmalloc_slabs st ! j))"
  shows "frame_block f \<inter> frame_block g = {}"
proof -
  have h: "held_frames ki (k_pages st) H" "fr_addr f \<in> H" "fr_addr g \<in> H"
    using kmalloc_okD(3) [OF ok ij(1)] kmalloc_okD(3) [OF ok ij(2)] f g by (auto simp: slab_ok_def)
  have "fr_addr f \<noteq> fr_addr g"
    using kmalloc_okD(4) [OF ok ij] f g by (auto simp: slab_addrs_def)
  then show ?thesis
    using buddy.blocks_disjoint [OF h] by (simp add: frame_block_def)
qed

lemma live_disjoint:
  assumes ok: "kmalloc_ok ki st H Us" and ij: "i < 8" "j < 8" and x: "x \<in> Us ! i" and y: "y \<in> Us ! j"
    and ne: "(i, x) \<noteq> (j, y)"
  shows "obj_words (object_size (kmalloc_slabs st ! i)) x \<inter> obj_words (object_size (kmalloc_slabs st ! j)) y = {}"
proof -
  let ?o = "\<lambda>i. object_size (kmalloc_slabs st ! i)"
  have rel: "slab_rel (?o k) (k_mem st) (frames (kmalloc_slabs st ! k)) (Us ! k)" if "k < 8" for k
    using kmalloc_okD(3) [OF ok that] by (simp add: slab_ok_def)
  obtain f where f: "f \<in> set (frames (kmalloc_slabs st ! i))" "x \<in> objs (?o i) f" "frame_geom (?o i) f"
    "obj_words (?o i) x \<subseteq> frame_block f" by (rule slab_rel_used [OF rel [OF ij(1)] x])
  obtain g where g: "g \<in> set (frames (kmalloc_slabs st ! j))" "y \<in> objs (?o j) g" "frame_geom (?o j) g"
    "obj_words (?o j) y \<subseteq> frame_block g" by (rule slab_rel_used [OF rel [OF ij(2)] y])
  show ?thesis
  proof (cases "i = j")
    case True
    then show ?thesis
      using obj_words_disjoint objs_member(1) [OF f(3,2)] objs_member(1) [OF g(3,2)] ne by simp
  next
    case False
    then show ?thesis
      using slab_blocks_disjoint [OF ok ij False f(1) g(1)] f(4) g(4) by blast
  qed
qed

section \<open>Updating one slab\<close>

text \<open>
  One slab changes while the memory stays as it is outside of the blocks \<open>D\<close>, which no other slab has.
\<close>

lemma kmalloc_ok_upd:
  assumes ok: "kmalloc_ok ki st H Us" and i: "i < 8"
    and s: "slab_ok (held_frames ki) s mem a H' U" "object_size s = object_size (kmalloc_slabs st ! i)"
    and keep: "\<And>j. j < 8 \<Longrightarrow> j \<noteq> i \<Longrightarrow> slab_addrs (kmalloc_slabs st ! j) \<subseteq> H' \<and> slab_addrs (kmalloc_slabs st ! j) \<inter> D = {} \<and>
      slab_addrs s \<inter> slab_addrs (kmalloc_slabs st ! j) = {}"
    and D: "D \<subseteq> H \<union> H'" "H \<subseteq> H' \<or> H' \<subseteq> H"
    and same: "\<And>b. \<forall>v\<in>D. b \<notin> {v..<v + frame_bytes} \<Longrightarrow> mem b = k_mem st b"
  shows "kmalloc_ok ki (st\<lparr>kmalloc_slabs := (kmalloc_slabs st)[i := s], k_mem := mem, k_pages := a\<rparr>) H' (Us[i := U])"
proof -
  have held: "held_frames ki (k_pages st) H" "held_frames ki a H'"
    using kmalloc_okD(3) [OF ok i] s(1) by (auto simp: slab_ok_def)
  have other: "slab_ok (held_frames ki) (kmalloc_slabs st ! j) mem a H' (Us ! j)" if j: "j < 8" "j \<noteq> i" for j
  proof -
    let ?s = "kmalloc_slabs st ! j"
    have o: "obj_size_ok (object_size ?s)" "slab_rel (object_size ?s) (k_mem st) (frames ?s) (Us ! j)"
      "slab_addrs ?s \<subseteq> H" using kmalloc_okD(3) [OF ok j(1)] by (auto simp: slab_ok_def slab_addrs_def)
    note k = keep [OF j]
    have "slab_rel (object_size ?s) mem (frames ?s) (Us ! j)"
    proof (rule slab_rel_cong [OF o(2) obj_size_okD(3) [OF o(1)]], rule same)
      fix f b assume f: "f \<in> set (frames ?s)" "b \<in> frame_block f"
      show "\<forall>v\<in>D. b \<notin> {v..<v + frame_bytes}"
      proof
        fix v assume v: "v \<in> D"
        have fa: "fr_addr f \<in> slab_addrs ?s" using f(1) by (simp add: slab_addrs_def)
        then have ne: "fr_addr f \<noteq> v" using k v by blast
        have "{fr_addr f..<fr_addr f + frame_bytes} \<inter> {v..<v + frame_bytes} = {}"
        proof (cases "v \<in> H")
          case True
          show ?thesis by (rule buddy.blocks_disjoint [OF held(1) _ True ne]) (use fa o(3) in blast)
        next
          case False
          then have "v \<in> H'" using v D(1) by blast
          from buddy.blocks_disjoint [OF held(2) _ this ne] fa k show ?thesis by blast
        qed
        then show "b \<notin> {v..<v + frame_bytes}" using f(2) by (auto simp: frame_block_def)
      qed
    qed
    then show ?thesis
      using o(1) held(2) k by (simp add: slab_ok_def slab_addrs_def)
  qed
  have len: "length (kmalloc_slabs st) = 8" "length Us = 8" using kmalloc_okD [OF ok] by auto
  have sizes: "map object_size ((kmalloc_slabs st)[i := s]) = map object_size (kmalloc_slabs st)"
    using s(2) i len by (simp add: map_update list_update_same_conv)
  show ?thesis
    unfolding kmalloc_ok_def
    using ok i len sizes s(1) other keep kmalloc_okD(4) [OF ok]
    by (auto simp: kmalloc_ok_def nth_list_update Int_commute)
qed

lemma slab_for_size_sound:
  "slab_for_size ss n = Some i \<Longrightarrow> i < length ss \<and> n \<le> object_size (ss ! i) \<and> (\<forall>j<i. object_size (ss ! j) < n)"
proof (induction ss arbitrary: i)
  case (Cons s ss)
  then show ?case by (auto simp: less_Suc_eq_0_disj split: if_splits)
qed simp

lemma slab_for_size_cong: "map object_size ss = map object_size ts \<Longrightarrow> slab_for_size ss n = slab_for_size ts n"
proof (induction ss arbitrary: ts)
  case (Cons s ss)
  then show ?case by (cases ts) auto
qed simp

lemma slab_for_size_small:
  assumes "kmalloc_ok ki st H Us" and "n \<le> 4096"
  obtains i where "slab_for_size (kmalloc_slabs st) n = Some i" "i < 8"
proof -
  have "slab_for_size (kmalloc_slabs st) n = slab_for_size kmalloc_slabs_init n"
    using assms(1) by (intro slab_for_size_cong) (simp add: kmalloc_ok_def)
  then have "slab_for_size (kmalloc_slabs st) n \<noteq> None"
    using assms(2) by (simp add: kmalloc_slabs_init_def SLAB_ALLOC_INIT_def)
  then show thesis
    using that slab_for_size_sound kmalloc_okD(1) [OF assms(1)] by (metis not_None_eq)
qed

lemma slab_rel_geom: "slab_rel osize mem frs U \<Longrightarrow> g \<in> set frs \<Longrightarrow> frame_geom osize g"
  by (induction frs arbitrary: U) (auto simp: frame_inv_def)

lemma slab_find_none: "\<forall>g\<in>set frs. \<not> (first_addr g \<le> x \<and> x < last_addr g) \<Longrightarrow> slab_find frs x = None"
  by (induction frs) auto

lemma slab_for_addr_eq:
  "i < length ss \<Longrightarrow> slab_has_addr (ss ! i) x = 0 \<Longrightarrow> \<forall>j<i. slab_has_addr (ss ! j) x \<noteq> 0 \<Longrightarrow>
   slab_for_addr ss x = Some i"
proof (induction ss arbitrary: i)
  case (Cons s ss)
  show ?case
  proof (cases i)
    case 0
    with Cons.prems(2) show ?thesis by simp
  next
    case (Suc k)
    have "slab_has_addr s x \<noteq> 0" using Cons.prems(3) [rule_format, of 0] Suc by simp
    moreover have "slab_has_addr (ss ! j) x \<noteq> 0" if "j < k" for j
      using Cons.prems(3) [rule_format, of "Suc j"] Suc that by simp
    moreover have "k < length ss" "slab_has_addr (ss ! k) x = 0" using Cons.prems(1,2) Suc by simp_all
    ultimately show ?thesis using Cons.IH Suc by simp
  qed
qed simp

lemma slab_for_addr_live:
  assumes ok: "kmalloc_ok ki st H Us" and i: "i < 8" and x: "x \<in> Us ! i"
  shows "slab_for_addr (kmalloc_slabs st) x = Some i"
proof -
  let ?ss = "kmalloc_slabs st" and ?o = "\<lambda>i. object_size (kmalloc_slabs st ! i)"
  have rel: "slab_rel (?o k) (k_mem st) (frames (?ss ! k)) (Us ! k)" "obj_size_ok (?o k)" if "k < 8" for k
    using kmalloc_okD(3) [OF ok that] by (simp_all add: slab_ok_def)
  obtain f where f: "f \<in> set (frames (?ss ! i))" "x \<in> objs (?o i) f" "frame_geom (?o i) f"
    "obj_words (?o i) x \<subseteq> frame_block f" by (rule slab_rel_used [OF rel(1) [OF i] x])
  have pos: "0 < ?o i" using obj_size_okD(3) [OF rel(2) [OF i]] .
  obtain as bs where "frames (?ss ! i) = as @ f # bs" "slab_find (frames (?ss ! i)) x = Some (length as)"
    by (rule slab_find_correct [OF rel(1) [OF i] pos f(1,2)])
  then have yes: "slab_has_addr (?ss ! i) x = 0"
    by (simp add: slab_has_addr_def u_slab_has_addr_def)
  have no: "slab_has_addr (?ss ! j) x \<noteq> 0" if j: "j < 8" "j \<noteq> i" for j
  proof -
    have "\<not> (first_addr g \<le> x \<and> x < last_addr g)" if g: "g \<in> set (frames (?ss ! j))" for g
    proof -
      have "frame_geom (?o j) g" by (rule slab_rel_geom [OF rel(1) [OF j(1)] g])
      then have "{first_addr g..<last_addr g} \<subseteq> frame_block g" by (auto simp: frame_geom_def frame_block_def)
      moreover have "x \<in> frame_block f" using f(4) pos by (auto simp: obj_words_def)
      moreover have "frame_block f \<inter> frame_block g = {}"
        by (rule slab_blocks_disjoint [OF ok i j(1) _ f(1) g]) (use j(2) in simp)
      ultimately have "x \<notin> {first_addr g..<last_addr g}" by blast
      then show ?thesis by simp
    qed
    then have "slab_find (frames (?ss ! j)) x = None" by (intro slab_find_none) blast
    then show ?thesis by (simp add: slab_has_addr_def u_slab_has_addr_def)
  qed
  show ?thesis
    using yes no i kmalloc_okD(1) [OF ok] by (intro slab_for_addr_eq) auto
qed

section \<open>Small requests\<close>

lemma kmalloc_small_eq:
  assumes "slab_for_size (kmalloc_slabs st) (unat n) = Some i"
  shows "kmalloc me st n flags =
    (case u_slab_malloc (slab_palloc_va me flags) (kmalloc_slabs st ! i) (k_mem st) (k_pages st) of
       None \<Rightarrow> None
     | Some (p, s, mem, a) \<Rightarrow> Some (p, st\<lparr>kmalloc_slabs := (kmalloc_slabs st)[i := s], k_mem := mem, k_pages := a\<rparr>))"
  unfolding kmalloc.simps [of me st n flags] assms slab_malloc_def by simp

lemma kmalloc_small:
  assumes ok: "kmalloc_ok ki st H Us" and i: "slab_for_size (kmalloc_slabs st) (unat n) = Some i" "i < 8"
  shows "case kmalloc me st n flags of
      None \<Rightarrow> slab_palloc_va me flags (k_pages st) = None
    | Some (p, st') \<Rightarrow>
        (p = 0 \<and> kmalloc_ok ki st' H Us \<and> k_mem st' = k_mem st \<and>
          slab_palloc_va me flags (k_pages st) = Some (0, k_pages st')) \<or>
        (p \<noteq> 0 \<and> p \<notin> Us ! i \<and> (\<exists>H'. kmalloc_ok ki st' H' (Us[i := insert p (Us ! i)]) \<and> H \<subseteq> H' \<and>
          (\<forall>b. (\<forall>v\<in>H' - H. b \<notin> {v..<v + frame_bytes}) \<longrightarrow> k_mem st' b = k_mem st b)))"
proof -
  let ?s = "kmalloc_slabs st ! i"
  have so: "slab_ok (held_frames ki) ?s (k_mem st) (k_pages st) H (Us ! i)" using kmalloc_okD(3) [OF ok i(2)] .
  have others: "slab_addrs (kmalloc_slabs st ! j) \<subseteq> H" if "j < 8" for j
    using kmalloc_okD(3) [OF ok that] by (simp add: slab_ok_def slab_addrs_def)
  note m = bframes.slab_malloc_correct [OF so, of me flags]
  show ?thesis
  proof (cases "u_slab_malloc (slab_palloc_va me flags) ?s (k_mem st) (k_pages st)")
    case None
    with m show ?thesis by (simp add: kmalloc_small_eq [OF i(1)])
  next
    case (Some r)
    obtain p s mem a where r: "r = (p, s, mem, a)" by (cases r)
    let ?st = "st\<lparr>kmalloc_slabs := (kmalloc_slabs st)[i := s], k_mem := mem, k_pages := a\<rparr>"
    have k: "kmalloc me st n flags = Some (p, ?st)" using Some r by (simp add: kmalloc_small_eq [OF i(1)])
    from m [unfolded Some r] consider
      (null) "p = 0" "s = ?s" "mem = k_mem st" "slab_ok (held_frames ki) ?s (k_mem st) a H (Us ! i)"
        "slab_palloc_va me flags (k_pages st) = Some (0, a)"
      | (obj) H' where "p \<noteq> 0" "p \<notin> Us ! i" "object_size s = object_size ?s" "H \<subseteq> H'"
        "slab_ok (held_frames ki) s mem a H' (insert p (Us ! i))"
        "slab_addrs s \<subseteq> slab_addrs ?s \<union> (H' - H)"
        "\<And>b. \<forall>v\<in>H' - H. b \<notin> {v..<v + frame_bytes} \<Longrightarrow> mem b = k_mem st b"
      unfolding slab_addrs_def by auto
    then show ?thesis
    proof cases
      case null
      have "kmalloc_ok ki ?st H (Us[i := Us ! i])"
        by (rule kmalloc_ok_upd [OF ok i(2), where D = "{}"])
          (use null others kmalloc_okD(4) [OF ok i(2)] in auto)
      with null k show ?thesis by simp
    next
      case obj
      have "kmalloc_ok ki ?st H' (Us[i := insert p (Us ! i)])"
      proof (rule kmalloc_ok_upd [OF ok i(2) obj(5,3), where D = "H' - H"])
        fix j assume j: "j < 8" "j \<noteq> i"
        show "slab_addrs (kmalloc_slabs st ! j) \<subseteq> H' \<and> slab_addrs (kmalloc_slabs st ! j) \<inter> (H' - H) = {} \<and>
          slab_addrs s \<inter> slab_addrs (kmalloc_slabs st ! j) = {}"
          using others [OF j(1)] obj(4,6) kmalloc_okD(4) [OF ok i(2) j(1)] j(2) by blast
      qed (use obj(4,7) in auto)
      with obj k show ?thesis by auto
    qed
  qed
qed

lemma kfree_small:
  assumes ok: "kmalloc_ok ki st H Us" and i: "i < 8" and p: "p \<in> Us ! i"
  shows "\<exists>st' H'. kfree ki st p = Some st' \<and> kmalloc_ok ki st' H' (Us[i := Us ! i - {p}]) \<and>
    (\<forall>j<8. \<forall>y\<in>Us ! j. (j, y) \<noteq> (i, p) \<longrightarrow>
      (\<forall>b\<in>obj_words (object_size (kmalloc_slabs st ! j)) y. k_mem st' b = k_mem st b))"
proof -
  let ?s = "kmalloc_slabs st ! i"
  have so: "slab_ok (held_frames ki) ?s (k_mem st) (k_pages st) H (Us ! i)" using kmalloc_okD(3) [OF ok i] .
  have others: "slab_addrs (kmalloc_slabs st ! j) \<subseteq> H" if "j < 8" for j
    using kmalloc_okD(3) [OF ok that] by (simp add: slab_ok_def slab_addrs_def)
  from bframes.slab_free_correct [OF so p, folded slab_addrs_def]
  obtain s mem a H' where f: "u_slab_free (slab_pfree_va ki) ?s p (k_mem st) (k_pages st) = Some (s, mem, a)"
    "H' \<subseteq> H" "slab_ok (held_frames ki) s mem a H' (Us ! i - {p})" "object_size s = object_size ?s"
    "H - H' \<subseteq> slab_addrs ?s" "slab_addrs s \<subseteq> slab_addrs ?s"
    "\<forall>y\<in>Us ! i - {p}. \<forall>b\<in>obj_words (object_size ?s) y. mem b = k_mem st b"
    "\<forall>b. (\<forall>v\<in>slab_addrs ?s. b \<notin> {v..<v + frame_bytes}) \<longrightarrow> mem b = k_mem st b"
    by (elim exE conjE)
  let ?st = "st\<lparr>kmalloc_slabs := (kmalloc_slabs st)[i := s], k_mem := mem, k_pages := a\<rparr>"
  have "kfree ki st p = Some ?st"
    by (simp add: kfree.simps slab_for_addr_live [OF ok i p] slab_free_def f(1))
  moreover have "kmalloc_ok ki ?st H' (Us[i := Us ! i - {p}])"
  proof (rule kmalloc_ok_upd [OF ok i f(3,4), where D = "slab_addrs ?s"])
    fix j assume j: "j < 8" "j \<noteq> i"
    show "slab_addrs (kmalloc_slabs st ! j) \<subseteq> H' \<and> slab_addrs (kmalloc_slabs st ! j) \<inter> slab_addrs ?s = {} \<and>
      slab_addrs s \<inter> slab_addrs (kmalloc_slabs st ! j) = {}"
      using others [OF j(1)] f(5,6) kmalloc_okD(4) [OF ok i j(1)] j(2) by blast
  qed (use f(2,8) others [OF i] in auto)
  moreover have "mem b = k_mem st b"
    if y: "j < 8" "y \<in> Us ! j" "(j, y) \<noteq> (i, p)" and b: "b \<in> obj_words (object_size (kmalloc_slabs st ! j)) y" for j y b
  proof (cases "j = i")
    case True
    then show ?thesis using f(7) y b by auto
  next
    case False
    have rel: "slab_rel (object_size (kmalloc_slabs st ! j)) (k_mem st) (frames (kmalloc_slabs st ! j)) (Us ! j)"
      using kmalloc_okD(3) [OF ok y(1)] by (simp add: slab_ok_def)
    obtain g where g: "g \<in> set (frames (kmalloc_slabs st ! j))"
      "obj_words (object_size (kmalloc_slabs st ! j)) y \<subseteq> frame_block g"
      by (rule slab_rel_used [OF rel y(2)])
    have "b \<notin> {v..<v + frame_bytes}" if v: "v \<in> slab_addrs ?s" for v
    proof -
      obtain f where "f \<in> set (frames ?s)" "v = fr_addr f" using v by (auto simp: slab_addrs_def)
      with slab_blocks_disjoint [OF ok y(1) i False g(1)] g(2) b show ?thesis
        by (fastforce simp: frame_block_def)
    qed
    then show ?thesis using f(8) by blast
  qed
  ultimately show ?thesis by (intro exI [of _ ?st] exI [of _ H']) auto
qed

section \<open>Reachable states\<close>

text \<open>
  Clients allocate small objects, free live ones and write into live ones; other components change
  the page allocator only through steps that keep the slabs' frames, so they are left out here.
\<close>

definition kmalloc_start :: "wmem \<Rightarrow> page_buddy_alloc \<Rightarrow> kmalloc_state" where
  "kmalloc_start mem a =
     \<lparr>kmalloc_slabs = kmalloc_slabs_init, large_alloc_list = [], k_mem = mem, k_pages = a\<rparr>"

inductive kmalloc_run :: "kern_image \<Rightarrow> kmalloc_state \<Rightarrow> nat set list \<Rightarrow> bool" for ki where
  init: "buddy_run ki a L \<Longrightarrow> kmalloc_run ki (kmalloc_start mem a) (replicate 8 {})"
| malloc: "kmalloc_run ki st Us \<Longrightarrow> kmalloc me st n flags = Some (p, st') \<Longrightarrow> p \<noteq> 0 \<Longrightarrow>
     slab_for_size (kmalloc_slabs st) (unat n) = Some i \<Longrightarrow> i < 8 \<Longrightarrow> kmalloc_run ki st' (Us[i := insert p (Us ! i)])"
| fail: "kmalloc_run ki st Us \<Longrightarrow> kmalloc me st n flags = Some (0, st') \<Longrightarrow>
     slab_for_size (kmalloc_slabs st) (unat n) = Some i \<Longrightarrow> i < 8 \<Longrightarrow> kmalloc_run ki st' Us"
| free: "kmalloc_run ki st Us \<Longrightarrow> i < 8 \<Longrightarrow> p \<in> Us ! i \<Longrightarrow> kfree ki st p = Some st' \<Longrightarrow>
     kmalloc_run ki st' (Us[i := Us ! i - {p}])"
| store: "kmalloc_run ki st Us \<Longrightarrow> i < 8 \<Longrightarrow> p \<in> Us ! i \<Longrightarrow> b \<in> obj_words (object_size (kmalloc_slabs st ! i)) p \<Longrightarrow>
     kmalloc_run ki (st\<lparr>k_mem := (k_mem st)(b := v)\<rparr>) Us"

lemma obj_size_okI: "5 \<le> e \<Longrightarrow> e \<le> 12 \<Longrightarrow> obj_size_ok (2 ^ e)"
  unfolding obj_size_ok_def by (intro exI [of _ e]) simp

lemma kmalloc_ok_start: "buddy_run ki a L \<Longrightarrow> kmalloc_ok ki (kmalloc_start mem a) {} (replicate 8 {})"
proof -
  assume "buddy_run ki a L"
  then have "held_frames ki a {}" by (auto simp: held_frames_def)
  moreover have "obj_size_ok (object_size (kmalloc_slabs_init ! i)) \<and> frames (kmalloc_slabs_init ! i) = []" if "i < 8" for i
  proof -
    have "obj_size_ok 32" "obj_size_ok 64" "obj_size_ok 128" "obj_size_ok 256" "obj_size_ok 512"
      "obj_size_ok 1024" "obj_size_ok 2048" "obj_size_ok 4096"
      using obj_size_okI [of 5] obj_size_okI [of 6] obj_size_okI [of 7] obj_size_okI [of 8] obj_size_okI [of 9]
        obj_size_okI [of 10] obj_size_okI [of 11] obj_size_okI [of 12] by simp_all
    moreover have "i \<in> {0, 1, 2, 3, 4, 5, 6, 7}" using that by auto
    ultimately show ?thesis by (auto simp: kmalloc_slabs_init_def SLAB_ALLOC_INIT_def)
  qed
  moreover have "length kmalloc_slabs_init = 8" by (simp add: kmalloc_slabs_init_def)
  ultimately show ?thesis
    by (auto simp: kmalloc_ok_def kmalloc_start_def slab_ok_def slab_addrs_def)
qed

lemma kmalloc_ok_write:
  assumes ok: "kmalloc_ok ki st H Us" and i: "i < 8" and p: "p \<in> Us ! i"
    and b: "b \<in> obj_words (object_size (kmalloc_slabs st ! i)) p"
  shows "kmalloc_ok ki (st\<lparr>k_mem := (k_mem st)(b := v)\<rparr>) H Us"
proof -
  have "slab_ok (held_frames ki) (kmalloc_slabs st ! j) ((k_mem st)(b := v)) (k_pages st) H (Us ! j)" if j: "j < 8" for j
  proof -
    let ?o = "object_size (kmalloc_slabs st ! j)"
    have o: "slab_rel ?o (k_mem st) (frames (kmalloc_slabs st ! j)) (Us ! j)" "obj_size_ok ?o"
      using kmalloc_okD(3) [OF ok j] by (auto simp: slab_ok_def)
    have rel_i: "slab_rel (object_size (kmalloc_slabs st ! i)) (k_mem st) (frames (kmalloc_slabs st ! i)) (Us ! i)"
      using kmalloc_okD(3) [OF ok i] by (auto simp: slab_ok_def)
    have "slab_rel ?o ((k_mem st)(b := v)) (frames (kmalloc_slabs st ! j)) (Us ! j)"
    proof (rule slab_rel_cong [OF o(1) obj_size_okD(3) [OF o(2)]])
      fix g c assume g: "g \<in> set (frames (kmalloc_slabs st ! j))" "c \<in> frame_block g" "\<forall>y\<in>Us ! j. c \<notin> obj_words ?o y"
      obtain f where f: "f \<in> set (frames (kmalloc_slabs st ! i))"
        "obj_words (object_size (kmalloc_slabs st ! i)) p \<subseteq> frame_block f"
        by (rule slab_rel_used [OF rel_i p])
      have "c \<noteq> b"
      proof (cases "j = i")
        case True
        then show ?thesis using g(3) p b by auto
      next
        case False
        then show ?thesis using slab_blocks_disjoint [OF ok j i False g(1) f(1)] g(2) f(2) b by blast
      qed
      then show "((k_mem st)(b := v)) c = k_mem st c" by simp
    qed
    then show ?thesis using kmalloc_okD(3) [OF ok j] by (simp add: slab_ok_def)
  qed
  with ok kmalloc_okD(2) [OF ok] show ?thesis by (simp add: kmalloc_ok_def)
qed

lemma kmalloc_run_ok: "kmalloc_run ki st Us \<Longrightarrow> \<exists>H. kmalloc_ok ki st H Us"
proof (induction rule: kmalloc_run.induct)
  case (init a L mem)
  then show ?case using kmalloc_ok_start by blast
next
  case (malloc st Us me n flags p st' i)
  then obtain H where "kmalloc_ok ki st H Us" by blast
  from kmalloc_small [OF this malloc.hyps(4,5), of me flags] malloc.hyps(2,3) show ?case by auto
next
  case (fail st Us me n flags st' i)
  then obtain H where "kmalloc_ok ki st H Us" by blast
  from kmalloc_small [OF this fail.hyps(3,4), of me flags] fail.hyps(2) show ?case by auto
next
  case (free st Us i p st')
  then obtain H where "kmalloc_ok ki st H Us" by blast
  from kfree_small [OF this free.hyps(2,3)] free.hyps(4) show ?case by auto
next
  case (store st Us i p b v)
  then show ?case using kmalloc_ok_write by blast
qed

section \<open>Properties of the slab allocator and of kmalloc\<close>

text \<open>
  C12. In every reachable state the live small objects, of whatever slabs, occupy pairwise disjoint
  memory. Each of them can be freed: \<^verbatim>\<open>kfree\<close> finds its slab, returns, keeps the contents of all other live objects
  and leads to a reachable state in which exactly this object is gone.
\<close>

theorem kmalloc_live_objects:
  assumes "kmalloc_run ki st Us"
  shows "(\<forall>i<8. \<forall>j<8. \<forall>x\<in>Us ! i. \<forall>y\<in>Us ! j. (i, x) \<noteq> (j, y) \<longrightarrow>
      obj_words (object_size (kmalloc_slabs st ! i)) x \<inter> obj_words (object_size (kmalloc_slabs st ! j)) y = {}) \<and>
    (\<forall>i<8. \<forall>x\<in>Us ! i. \<exists>st'. kfree ki st x = Some st' \<and> kmalloc_run ki st' (Us[i := Us ! i - {x}]) \<and>
      (\<forall>j<8. \<forall>y\<in>Us ! j. (j, y) \<noteq> (i, x) \<longrightarrow>
        (\<forall>b\<in>obj_words (object_size (kmalloc_slabs st ! j)) y. k_mem st' b = k_mem st b)))"
proof -
  obtain H where ok: "kmalloc_ok ki st H Us" using kmalloc_run_ok [OF assms] by blast
  have "\<exists>st'. kfree ki st x = Some st' \<and> kmalloc_run ki st' (Us[i := Us ! i - {x}]) \<and>
      (\<forall>j<8. \<forall>y\<in>Us ! j. (j, y) \<noteq> (i, x) \<longrightarrow>
        (\<forall>b\<in>obj_words (object_size (kmalloc_slabs st ! j)) y. k_mem st' b = k_mem st b))"
    if "i < 8" "x \<in> Us ! i" for i x
    using kfree_small [OF ok that] kmalloc_run.free [OF assms that] by blast
  then show ?thesis using live_disjoint [OF ok] by blast
qed

lemma example_kmalloc:
  obtains st p where "kmalloc_run example_image st ((replicate 8 {})[0 := {p}])" "p \<noteq> 0"
proof -
  obtain a v a' where a: "held_frames example_image a {}" "slab_palloc_va 0 PAL_ATOMIC a = Some (v, a')" "v \<noteq> 0"
    by (rule example_frame)
  then obtain L where L: "buddy_run example_image a L" by (auto simp: held_frames_def)
  let ?st = "kmalloc_start (\<lambda>_. 0) a"
  have i: "slab_for_size (kmalloc_slabs ?st) (unat (32 :: u32)) = Some 0"
    by (simp add: kmalloc_start_def kmalloc_slabs_init_def SLAB_ALLOC_INIT_def)
  have pg: "k_pages ?st = a" by (simp add: kmalloc_start_def)
  from kmalloc_small [OF kmalloc_ok_start [OF L] i, of 0 PAL_ATOMIC] a(2,3)
  obtain p st' where "kmalloc 0 ?st 32 PAL_ATOMIC = Some (p, st')" "p \<noteq> 0"
    by (auto simp: pg split: option.splits)
  then have "kmalloc_run example_image st' ((replicate 8 {})[0 := {p}])"
    using kmalloc_run.malloc [OF kmalloc_run.init [OF L] _ _ i] by force
  with \<open>p \<noteq> 0\<close> show thesis using that by blast
qed

theorem kmalloc_live_objects_witness:
  "\<exists>st p st'. kmalloc_run example_image st ((replicate 8 {})[0 := {p}]) \<and> kfree example_image st p = Some st'"
proof -
  obtain st p where r: "kmalloc_run example_image st ((replicate 8 {})[0 := {p}])" "p \<noteq> 0"
    by (rule example_kmalloc)
  have p: "p \<in> (replicate 8 {})[0 := {p}] ! 0" by simp
  from conjunct2 [OF kmalloc_live_objects [OF r(1)], rule_format, OF _ p]
  have "\<exists>st'. kfree example_image st p = Some st'" by fastforce
  with r(1) show ?thesis by blast
qed

text \<open>
  A request of at most 4096 bytes is served by the smallest slab whose objects hold it, with an
  object that was not live; if pages run out it returns the null pointer without any change to memory.
\<close>

theorem kmalloc_best_fit:
  assumes "kmalloc_run ki st Us" and "unat n \<le> 4096" and "kmalloc me st n flags = Some (p, st')"
  shows "\<exists>i<8. unat n \<le> object_size (kmalloc_slabs st ! i) \<and> (\<forall>j<i. object_size (kmalloc_slabs st ! j) < unat n) \<and>
    (if p = 0 then kmalloc_run ki st' Us \<and> k_mem st' = k_mem st
     else p \<notin> Us ! i \<and> kmalloc_run ki st' (Us[i := insert p (Us ! i)]))"
proof -
  obtain H where ok: "kmalloc_ok ki st H Us" using kmalloc_run_ok [OF assms(1)] by blast
  obtain i where i: "slab_for_size (kmalloc_slabs st) (unat n) = Some i" "i < 8"
    by (rule slab_for_size_small [OF ok assms(2)])
  have "if p = 0 then kmalloc_run ki st' Us \<and> k_mem st' = k_mem st
     else p \<notin> Us ! i \<and> kmalloc_run ki st' (Us[i := insert p (Us ! i)])"
    using kmalloc_small [OF ok i, of me flags] assms(3) kmalloc_run.malloc [OF assms(1,3) _ i]
      kmalloc_run.fail [OF assms(1) _ i, of me flags st'] by auto
  with i slab_for_size_sound [OF i(1)] show ?thesis by blast
qed

theorem kmalloc_best_fit_witness:
  "\<exists>st st' p i. kmalloc 0 st 40 PAL_ATOMIC = Some (p, st') \<and> i < 8 \<and> 40 \<le> object_size (kmalloc_slabs st ! i)"
proof -
  obtain a v a' where a: "held_frames example_image a {}" "slab_palloc_va 0 PAL_ATOMIC a = Some (v, a')" "v \<noteq> 0"
    by (rule example_frame)
  then obtain L where L: "buddy_run example_image a L" by (auto simp: held_frames_def)
  let ?st = "kmalloc_start (\<lambda>_. 0) a"
  have i: "slab_for_size (kmalloc_slabs ?st) (unat (40 :: u32)) = Some 1"
    by (simp add: kmalloc_start_def kmalloc_slabs_init_def SLAB_ALLOC_INIT_def)
  have pg: "k_pages ?st = a" by (simp add: kmalloc_start_def)
  from kmalloc_small [OF kmalloc_ok_start [OF L] i, of 0 PAL_ATOMIC] a(2,3)
  obtain p st' where k: "kmalloc 0 ?st 40 PAL_ATOMIC = Some (p, st')"
    by (auto simp: pg split: option.splits)
  from kmalloc_best_fit [OF kmalloc_run.init [OF L] _ k] k show ?thesis by fastforce
qed

text \<open>
  C13. Freeing an object that is free already is noticed: the sorted free list meets the object again and
  neither the slab, nor memory, nor the page allocator changes.
\<close>

theorem slab_double_free:
  assumes "slab_ok held slab mem ps H U"
    and "x \<in> \<Union> (objs (object_size slab) ` set (frames slab))" and "x \<notin> U"
  shows "slab_free pfr slab x mem ps = Some (slab, mem, ps)"
proof -
  have "slab_rel (object_size slab) mem (frames slab) U" "4 \<le> object_size slab"
    using assms(1) obj_size_okD(4) by (auto simp: slab_ok_def)
  from slab_free_twice [OF this assms(2,3)] show ?thesis by (simp add: slab_free_def)
qed

theorem slab_double_free_witness:
  "\<exists>slab x mem ps U. slab_ok (held_frames example_image) slab mem ps U {} \<and> frames slab \<noteq> [] \<and>
     slab_free (slab_pfree_va example_image) slab x mem ps = Some (slab, mem, ps)"
proof -
  obtain a v a' where a: "held_frames example_image a {}" "slab_palloc_va 0 PAL_ATOMIC a = Some (v, a')" "v \<noteq> 0"
    by (rule example_frame)
  let ?s = "SLAB_ALLOC_INIT ''kmalloc_32'' 32"
  have ok: "slab_ok (held_frames example_image) ?s (\<lambda>_. 0) a {} {}"
    using a(1) obj_size_okI [of 5] by (simp add: slab_ok_def SLAB_ALLOC_INIT_def)
  obtain fr mem where i: "slab_frame_init (object_size ?s) (\<lambda>_. 0) v = (fr, mem)" by fastforce
  note n = bframes.new_frame_rel [OF ok a(2,3) i]
  let ?t = "?s\<lparr>frames := frames ?s @ [fr]\<rparr>"
  obtain x where x: "x \<in> objs (object_size ?s) fr" using n(5) by blast
  then have "x \<in> \<Union> (objs (object_size ?t) ` set (frames ?t))" by simp
  from slab_double_free [OF n(1) this] n(1)
  have "slab_free (slab_pfree_va example_image) ?t x mem a' = Some (?t, mem, a')" by blast
  with n(1) show ?thesis by (intro exI conjI) auto
qed

lemma chain_nonzero: "chain mem p xs \<Longrightarrow> 0 \<notin> set xs"
  by (induction xs arbitrary: p) auto

text \<open>
  Objects whose poison was overwritten while they were free are never handed out: taking an
  object from a free list returns the first intact one. When none is left it returns null and empties the
  free list, but it keeps the count of free objects, so that the frame looks usable forever.
\<close>

theorem slab_corrupt_objects_skipped:
  assumes "chain mem (freelist fr) xs"
  shows "\<exists>x fr'. u_slab_frame_object_alloc osize mem fr = Some (x, fr') \<and>
    (x = 0 \<longleftrightarrow> (\<forall>y\<in>set xs. \<not> poisoned osize mem y)) \<and>
    (x \<noteq> 0 \<longrightarrow> x \<in> set xs \<and> poisoned osize mem x \<and> free_object_count fr' = free_object_count fr - 1) \<and>
    (x = 0 \<longrightarrow> freelist fr' = 0 \<and> free_object_count fr' = free_object_count fr)"
proof -
  have z: "0 \<notin> set xs" using chain_nonzero [OF assms] .
  show ?thesis
  proof (cases "dropWhile (\<lambda>x. \<not> poisoned osize mem x) xs")
    case Nil
    then have "\<forall>y\<in>set xs. \<not> poisoned osize mem y" by (simp add: dropWhile_eq_Nil_conv)
    with Nil show ?thesis unfolding slab_object_alloc_eq [OF assms] Nil by simp
  next
    case (Cons x ys)
    then have "x \<in> set xs" "poisoned osize mem x"
      using set_dropWhileD [of x "\<lambda>x. \<not> poisoned osize mem x" xs] hd_dropWhile [of "\<lambda>x. \<not> poisoned osize mem x" xs]
      by simp_all
    moreover from this(1) z have "x \<noteq> 0" by metis
    ultimately show ?thesis unfolding slab_object_alloc_eq [OF assms] Cons by auto
  qed
qed

theorem slab_corrupt_objects_skipped_witness:
  "\<exists>fr'. u_slab_frame_object_alloc 8 ((\<lambda>_. 0)(64 := 72, 76 := SLAB_POISON))
     \<lparr>fr_addr = 0, first_addr = 64, last_addr = 80, page_index_size = 32, object_count = 2, free_object_count = 2, freelist = 64\<rparr> = Some (72, fr')"
proof -
  let ?m = "(\<lambda>_. 0)(64 := 72, 76 := SLAB_POISON)"
  let ?fr = "\<lparr>fr_addr = 0, first_addr = 64, last_addr = 80, page_index_size = 32, object_count = 2, free_object_count = 2, freelist = 64\<rparr>"
  have "chain ?m (freelist ?fr) [64, 72]" by simp
  moreover have "poisoned 8 ?m 72" "\<not> poisoned 8 ?m 64" by (simp_all add: poisoned_def poison_ok_iff SLAB_POISON_def)
  ultimately show ?thesis using slab_corrupt_objects_skipped [of ?m ?fr "[64, 72]" 8] by auto
qed

lemma log2_bounds:
  assumes "0 < n"
  shows "2 ^ log2 n \<le> n" "n < 2 ^ Suc (log2 n)"
proof -
  have "2 ^ log2 n \<le> n \<and> n < 2 ^ Suc (log2 n)" using assms
  proof (induction n rule: log2.induct)
    case (1 n)
    show ?case
    proof (cases "n \<le> 1")
      case False
      then have "0 < n div 2" by simp
      with 1 False have "2 ^ log2 (n div 2) \<le> n div 2 \<and> n div 2 < 2 ^ Suc (log2 (n div 2))" by blast
      then have "2 * 2 ^ log2 (n div 2) \<le> n" "n < 2 * 2 ^ Suc (log2 (n div 2))" by linarith+
      then show ?thesis using False by (simp add: log2.simps [of n])
    qed (use 1 in \<open>simp add: log2.simps [of n]\<close>)
  qed
  then show "2 ^ log2 n \<le> n" "n < 2 ^ Suc (log2 n)" by auto
qed

text \<open>
  \<^verbatim>\<open>pages_to_order\<close> returns the least order whose block holds \<open>n\<close> pages.
\<close>

theorem pages_to_order_least:
  assumes "0 < n"
  shows "n \<le> 2 ^ pages_to_order n \<and> (\<forall>k. n \<le> 2 ^ k \<longrightarrow> pages_to_order n \<le> k)"
proof (cases "n = 1")
  case False
  then have m: "0 < n - 1" and n: "1 < n" using assms by auto
  have "n \<le> 2 ^ Suc (log2 (n - 1))" using log2_bounds [OF m] by simp
  moreover have "Suc (log2 (n - 1)) \<le> k" if "n \<le> 2 ^ k" for k
  proof -
    have "(2::nat) ^ log2 (n - 1) < 2 ^ k" using log2_bounds(1) [OF m] that n by linarith
    then show ?thesis by simp
  qed
  ultimately show ?thesis using n by (simp add: pages_to_order_def)
qed (simp add: pages_to_order_def)

theorem pages_to_order_least_witness: "(5::nat) \<le> 2 ^ pages_to_order 5 \<and> pages_to_order 5 \<le> 3"
  using pages_to_order_least [of 5] by simp

text \<open>
  The range test of \<^verbatim>\<open>kfree\<close> and \<^verbatim>\<open>ksize\<close> includes the end of the block. A large block that directly
  follows another one on the list is therefore taken for its predecessor: \<^verbatim>\<open>ksize\<close> returns the size of the
  predecessor, and \<^verbatim>\<open>kfree\<close> releases the pages of the predecessor, which is still in use.
\<close>

theorem kfree_adjacent_block:
  assumes "slab_for_addr (kmalloc_slabs st) (desc_start st e) = None"
    and "large_alloc_list st = d # ds" and "e \<in> set ds" and "desc_start st e = desc_start st d + desc_bytes d"
  shows "ksize st (desc_start st e) = desc_bytes d \<and>
    kfree ki st (desc_start st e) =
      Option.bind (pfree ki (k_pages st) (Some (ld_pages d)) (ld_order d))
        (\<lambda>a. kfree ki (st\<lparr>large_alloc_list := ds, k_pages := a\<rparr>) (ld_addr d))"
proof -
  have "desc_matches st (desc_start st e) d" using assms(4) by (simp add: desc_matches_def)
  with assms(1,2) show ?thesis
    unfolding kfree.simps [of ki st "desc_start st e"] by (simp add: ksize_def)
qed

theorem kfree_adjacent_block_witness:
  "\<exists>st d e. large_alloc_list st = [d, e] \<and> ld_order e = 1 \<and> ksize st (desc_start st e) = 4096"
proof -
  let ?pg = "\<lambda>n v. \<lparr>use_count = 1, page_number = n, pg_order = 0, startb = 0, lenb = 0, pg_flags = 0, pg_virt = v\<rparr>"
  let ?a = "\<lparr>pages = [?pg 0 0xC0000000, ?pg 1 0xC0001000, ?pg 2 0xC0002000], page_count = 3, maps = [], map_count = 0, free_pages = 0\<rparr>"
  let ?d = "\<lparr>ld_addr = 64, ld_pages = 0, ld_order = 0\<rparr>" and ?e = "\<lparr>ld_addr = 96, ld_pages = 1, ld_order = 1\<rparr>"
  let ?st = "\<lparr>kmalloc_slabs = [], large_alloc_list = [?d, ?e], k_mem = \<lambda>_. 0, k_pages = ?a\<rparr>"
  have "desc_start ?st ?e = desc_start ?st ?d + desc_bytes ?d" by (simp add: desc_start_def desc_bytes_def)
  from kfree_adjacent_block [of ?st ?e ?d "[?e]", OF _ _ _ this]
  have "ksize ?st (desc_start ?st ?e) = 4096" by (simp add: desc_bytes_def)
  then show ?thesis by (intro exI [of _ ?st] exI [of _ ?d] exI [of _ ?e]) simp
qed

end
