(* ===== verification/Errno.thy ===== *)
theory Errno
  imports Prelude
begin

text \<open>
  The error numbers of \<^verbatim>\<open>include/protura/errors.h\<close> that the modelled code uses. A kernel function that returns
  a negative error number or a result is modelled with the result type \<open>kresult\<close>; \<open>errno_no\<close>
  gives the number itself.
\<close>

datatype errno =
  EPERM | ENOENT | ESRCH | EINTR | EIO | ENXIO | E2BIG | ENOEXEC | EBADF | ECHILD | EAGAIN | ENOMEM
  | EACCES | EFAULT | ENOTBLK | EBUSY | EEXIST | EXDEV | ENODEV | ENOTDIR | EISDIR | EINVAL | ENFILE
  | EMFILE | ENOTTY | ETXTBSY | EFBIG | ENOSPC | ESPIPE | EROFS | EMLINK | EPIPE | ENOSYS | ENOTEMPTY
  | ENAMETOOLONG | ELOOP | ECONNRESET | EAFNOSUPPORT | ECONNREFUSED | EADDRINUSE | ENETUNREACH
  | ETIMEDOUT | EDESTADDRREQ | EPROTONOSUPPORT | EISCONN | ENOTCONN | ENOTSUP | ERESTARTSYS
  | ERESTARTNOHAND | ERESTARTNOINTR

primrec errno_no :: "errno \<Rightarrow> nat" where
  "errno_no EPERM = 1"
| "errno_no ENOENT = 2"
| "errno_no ESRCH = 3"
| "errno_no EINTR = 4"
| "errno_no EIO = 5"
| "errno_no ENXIO = 6"
| "errno_no E2BIG = 7"
| "errno_no ENOEXEC = 8"
| "errno_no EBADF = 9"
| "errno_no ECHILD = 10"
| "errno_no EAGAIN = 11"
| "errno_no ENOMEM = 12"
| "errno_no EACCES = 13"
| "errno_no EFAULT = 14"
| "errno_no ENOTBLK = 15"
| "errno_no EBUSY = 16"
| "errno_no EEXIST = 17"
| "errno_no EXDEV = 18"
| "errno_no ENODEV = 19"
| "errno_no ENOTDIR = 20"
| "errno_no EISDIR = 21"
| "errno_no EINVAL = 22"
| "errno_no ENFILE = 23"
| "errno_no EMFILE = 24"
| "errno_no ENOTTY = 25"
| "errno_no ETXTBSY = 26"
| "errno_no EFBIG = 27"
| "errno_no ENOSPC = 28"
| "errno_no ESPIPE = 29"
| "errno_no EROFS = 30"
| "errno_no EMLINK = 31"
| "errno_no EPIPE = 32"
| "errno_no ENOSYS = 88"
| "errno_no ENOTEMPTY = 90"
| "errno_no ENAMETOOLONG = 91"
| "errno_no ELOOP = 92"
| "errno_no ECONNRESET = 104"
| "errno_no EAFNOSUPPORT = 106"
| "errno_no ECONNREFUSED = 111"
| "errno_no EADDRINUSE = 112"
| "errno_no ENETUNREACH = 114"
| "errno_no ETIMEDOUT = 116"
| "errno_no EDESTADDRREQ = 121"
| "errno_no EPROTONOSUPPORT = 123"
| "errno_no EISCONN = 127"
| "errno_no ENOTCONN = 128"
| "errno_no ENOTSUP = 134"
| "errno_no ERESTARTSYS = 512"
| "errno_no ERESTARTNOHAND = 513"
| "errno_no ERESTARTNOINTR = 514"

type_synonym 'a kresult = "errno + 'a"

abbreviation Err :: "errno \<Rightarrow> 'a kresult" where
  "Err \<equiv> Inl"

abbreviation Ok :: "'a \<Rightarrow> 'a kresult" where
  "Ok \<equiv> Inr"

end
