(* ===== verification/UserMem.thy ===== *)
theory UserMem
  imports Errno
begin

text \<open>
  Access to user memory: \<^verbatim>\<open>src/mm/user_check.c\<close>, \<^verbatim>\<open>include/protura/mm/user_check.h\<close> and the copy routines of
  \<^verbatim>\<open>arch/x86/include/arch/user_check.h\<close>. The current address space maps an address to a byte, or
  to \<^term>\<open>None\<close> where an access faults; the fault handler makes the copy routine return \<open>EFAULT\<close>.
\<close>

type_synonym umem = "u32 \<Rightarrow> u8 option"

record user_buffer =
  ub_ptr :: u32
  is_user :: bool

definition make_user_buffer :: "u32 \<Rightarrow> user_buffer" where
  "make_user_buffer p = \<lparr>ub_ptr = p, is_user = True\<rparr>"

definition make_kernel_buffer :: "u32 \<Rightarrow> user_buffer" where
  "make_kernel_buffer p = \<lparr>ub_ptr = p, is_user = False\<rparr>"

definition user_buffer_index :: "user_buffer \<Rightarrow> nat \<Rightarrow> user_buffer" where
  "user_buffer_index buf idx = buf\<lparr>ub_ptr := ub_ptr buf + of_nat idx\<rparr>"

section \<open>Model\<close>

definition user_check_access :: "user_buffer \<Rightarrow> nat \<Rightarrow> unit kresult" where
  "user_check_access data n =
     (if \<not> is_user data then Ok ()
      else if ub_ptr data + of_nat n - 1 < KMEM_KBASE then Ok () else Err EFAULT)"

primrec read_bytes :: "umem \<Rightarrow> u32 \<Rightarrow> nat \<Rightarrow> u8 list option" where
  "read_bytes m p 0 = Some []"
| "read_bytes m p (Suc n) =
     (case m p of None \<Rightarrow> None | Some b \<Rightarrow> map_option ((#) b) (read_bytes m (p + 1) n))"

text \<open>
  \<^verbatim>\<open>rep movsb\<close> stores byte by byte up to the first fault. The sizes 1, 2 and 4 are a single store,
  which happens completely or not at all.
\<close>

primrec write_bytes :: "umem \<Rightarrow> u32 \<Rightarrow> u8 list \<Rightarrow> umem \<times> bool" where
  "write_bytes m p [] = (m, True)"
| "write_bytes m p (b # bs) =
     (case m p of None \<Rightarrow> (m, False) | Some _ \<Rightarrow> write_bytes (m(p \<mapsto> b)) (p + 1) bs)"

definition user_memcpy_from_kernel :: "umem \<Rightarrow> user_buffer \<Rightarrow> u8 list \<Rightarrow> umem \<times> unit kresult" where
  "user_memcpy_from_kernel m data krnl =
     (case user_check_access data (length krnl) of
        Inl e \<Rightarrow> (m, Err e)
      | Inr _ \<Rightarrow>
          (case write_bytes m (ub_ptr data) krnl of
             (m', True) \<Rightarrow> (m', Ok ())
           | (m', False) \<Rightarrow> (if length krnl \<in> {1, 2, 4} then m else m', Err EFAULT)))"

definition user_memcpy_to_kernel :: "umem \<Rightarrow> user_buffer \<Rightarrow> nat \<Rightarrow> u8 list kresult" where
  "user_memcpy_to_kernel m data n =
     (case user_check_access data n of
        Inl e \<Rightarrow> Err e
      | Inr _ \<Rightarrow> (case read_bytes m (ub_ptr data) n of None \<Rightarrow> Err EFAULT | Some bs \<Rightarrow> Ok bs))"

definition user_memset_from_kernel :: "umem \<Rightarrow> user_buffer \<Rightarrow> u8 \<Rightarrow> nat \<Rightarrow> umem \<times> unit kresult" where
  "user_memset_from_kernel m data ch n =
     (case user_check_access data n of
        Inl e \<Rightarrow> (m, Err e)
      | Inr _ \<Rightarrow>
          (case write_bytes m (ub_ptr data) (replicate n ch) of
             (m', True) \<Rightarrow> (m', Ok ())
           | (m', False) \<Rightarrow> (m', Err EFAULT)))"

text \<open>Values of type \<^verbatim>\<open>gid_t\<close> and the like are copied as four bytes, the lowest first.\<close>

definition bytes_of_u32 :: "u32 \<Rightarrow> u8 list" where
  "bytes_of_u32 w = map (\<lambda>i. ucast (drop_bit (8 * i) w)) [0, 1, 2, 3]"

definition u32_of_bytes :: "u8 list \<Rightarrow> u32" where
  "u32_of_bytes bs = foldr (\<lambda>b w. ucast b OR push_bit 8 w) bs 0"

definition user_copy_to_kernel_indexed :: "umem \<Rightarrow> user_buffer \<Rightarrow> nat \<Rightarrow> u32 kresult" where
  "user_copy_to_kernel_indexed m buf i =
     (case user_memcpy_to_kernel m (user_buffer_index buf (4 * i)) 4 of
        Inl e \<Rightarrow> Err e | Inr bs \<Rightarrow> Ok (u32_of_bytes bs))"

definition user_copy_from_kernel_indexed :: "umem \<Rightarrow> user_buffer \<Rightarrow> u32 \<Rightarrow> nat \<Rightarrow> umem \<times> unit kresult" where
  "user_copy_from_kernel_indexed m buf v i =
     user_memcpy_from_kernel m (user_buffer_index buf (i * 4)) (bytes_of_u32 v)"

text \<open>
  \<^verbatim>\<open>user_strncpy_to_kernel\<close> returns the contents of the kernel buffer with the result. The loop runs from index
  \<open>i\<close> for at most \<open>n\<close> more bytes.
\<close>

fun user_strncpy_loop :: "umem \<Rightarrow> user_buffer \<Rightarrow> u8 list \<Rightarrow> nat \<Rightarrow> nat \<Rightarrow> (nat \<times> u8 list) kresult" where
  "user_strncpy_loop m data krnl i 0 = Ok (i, krnl)"
| "user_strncpy_loop m data krnl i (Suc n) =
     (case user_memcpy_to_kernel m (user_buffer_index data i) 1 of
        Inl e \<Rightarrow> Err e
      | Inr bs \<Rightarrow>
          let krnl = krnl[i := hd bs]
          in if krnl ! i = 0 then Ok (i, krnl) else user_strncpy_loop m data krnl (i + 1) n)"

definition user_strncpy_to_kernel_inner :: "umem \<Rightarrow> u8 list \<Rightarrow> user_buffer \<Rightarrow> nat \<Rightarrow> u8 list kresult" where
  "user_strncpy_to_kernel_inner m krnl data max_len =
     (case user_strncpy_loop m data krnl 0 max_len of
        Inl e \<Rightarrow> Err e
      | Inr (i, krnl) \<Rightarrow>
          if i = max_len \<and> krnl ! 0 \<noteq> 0 then Err ENAMETOOLONG
          else Ok (take i krnl @ replicate (max_len - i) 0 @ drop max_len krnl))"

definition user_strncpy_to_kernel :: "umem \<Rightarrow> u8 list \<Rightarrow> user_buffer \<Rightarrow> nat \<Rightarrow> u8 list kresult" where
  "user_strncpy_to_kernel m krnl data mx =
     (if is_user data \<and> ub_ptr data \<ge> KMEM_KBASE then Err EFAULT
      else let addr_max = (if is_user data then unat (KMEM_KBASE - ub_ptr data) else 0xFFFFFFFF)
           in case user_strncpy_to_kernel_inner m krnl data (if mx < addr_max then mx else addr_max) of
                Inl e \<Rightarrow> if e = ENAMETOOLONG \<and> addr_max < mx then Err EFAULT else Err e
              | Inr krnl \<Rightarrow> Ok krnl)"

section \<open>Bytes and words\<close>

lemma length_bytes_of_u32 [simp]: "length (bytes_of_u32 w) = 4"
  by (simp add: bytes_of_u32_def)

lemma u32_of_bytes_of_u32 [simp]: "u32_of_bytes (bytes_of_u32 w) = w"
proof (rule bit_word_eqI)
  fix n assume "n < LENGTH(32)"
  then consider "n < 8" | "8 \<le> n" "n < 16" | "16 \<le> n" "n < 24" | "24 \<le> n" "n < 32" by fastforce
  then show "bit (u32_of_bytes (bytes_of_u32 w)) n = bit w n"
    by cases (auto simp: u32_of_bytes_def bytes_of_u32_def bit_simps)
qed

lemma write_bytes_append:
  "write_bytes m p (xs @ ys) =
     (case write_bytes m p xs of (m', ok) \<Rightarrow> if ok then write_bytes m' (p + of_nat (length xs)) ys else (m', False))"
  by (induction xs arbitrary: m p) (auto simp: add.assoc split: option.split prod.split)

section \<open>Properties\<close>

lemma range_last:
  assumes "0 < n" and "unat (p :: u32) + n \<le> 4294967296"
  shows "unat (p + of_nat n - 1) = unat p + (n - 1)"
proof -
  have "p + of_nat n - 1 = of_nat (unat p + (n - 1))" using assms(1) by (simp add: of_nat_diff)
  then show ?thesis using assms unat_of_nat_u32 [of "unat p + (n - 1)"] by simp
qed

lemma unat_add_small: "unat (p :: u32) + n < 4294967296 \<Longrightarrow> unat (p + of_nat n) = unat p + n"
  using range_last [of "Suc n" p] by simp

lemma user_check_ok:
  assumes "0 < n" and "is_user data \<longrightarrow> unat (ub_ptr data) + n \<le> 0xC0000000"
  shows "user_check_access data n = Ok ()"
proof (cases "is_user data")
  case True
  then have "unat (ub_ptr data + of_nat n - 1) < 0xC0000000"
    using assms range_last [of n "ub_ptr data"] by linarith
  then show ?thesis by (simp add: user_check_access_def word_less_nat_alt KMEM_KBASE_def)
qed (simp add: user_check_access_def)

text \<open>A buffer of \<open>n\<close> bytes that the access check accepts in every part.\<close>

definition in_user_range :: "user_buffer \<Rightarrow> nat \<Rightarrow> bool" where
  "in_user_range buf n \<longleftrightarrow> (is_user buf \<longrightarrow> unat (ub_ptr buf) + n \<le> 0xC0000000)"

lemma user_check_part:
  assumes "in_user_range buf len" and "i + n \<le> len" and "0 < n"
  shows "user_check_access (user_buffer_index buf i) n = Ok ()"
proof (rule user_check_ok [OF assms(3)], rule impI)
  assume "is_user (user_buffer_index buf i)"
  then have b: "unat (ub_ptr buf) + len \<le> 0xC0000000" using assms(1) by (simp add: in_user_range_def user_buffer_index_def)
  then have "unat (ub_ptr buf + of_nat i) = unat (ub_ptr buf) + i"
    using range_last [of "Suc i" "ub_ptr buf"] assms by simp
  then show "unat (ub_ptr (user_buffer_index buf i)) + n \<le> 0xC0000000"
    using b assms(2) by (simp add: user_buffer_index_def)
qed

lemma user_memcpy_to_kernel_part:
  assumes "in_user_range buf len" and "i + n \<le> len" and "0 < n"
    and "read_bytes m (ub_ptr buf + of_nat i) n = Some bs"
  shows "user_memcpy_to_kernel m (user_buffer_index buf i) n = Ok bs"
  using assms(4) user_check_part [OF assms(1-3)] by (simp add: user_memcpy_to_kernel_def user_buffer_index_def)

lemma user_memcpy_from_kernel_part:
  assumes "in_user_range buf len" and "i + length bs \<le> len" and "bs \<noteq> []"
    and "write_bytes m (ub_ptr buf + of_nat i) bs = (m', True)"
  shows "user_memcpy_from_kernel m (user_buffer_index buf i) bs = (m', Ok ())"
  using assms(3,4) user_check_part [OF assms(1,2)] by (simp add: user_memcpy_from_kernel_def user_buffer_index_def)

text \<open>
  C18. For a non-empty range that does not wrap around the address space, the access check accepts a
  user buffer exactly when every byte of it lies below the kernel base.
\<close>

theorem user_check_access_exact:
  assumes "0 < n" and "unat p + n \<le> 4294967296"
  shows "user_check_access (make_user_buffer p) n = Ok () \<longleftrightarrow> (\<forall>i<n. p + of_nat i < KMEM_KBASE)"
proof -
  have k: "unat KMEM_KBASE = 0xC0000000" by (simp add: KMEM_KBASE_def)
  have "unat (p + of_nat i) = unat p + i" if "i < n" for i
    using range_last [of "Suc i" p] assms that by simp
  then have "(\<forall>i<n. p + of_nat i < KMEM_KBASE) \<longleftrightarrow> (\<forall>i<n. unat p + i < 0xC0000000)"
    by (auto simp: word_less_nat_alt k)
  also have "\<dots> \<longleftrightarrow> unat p + (n - 1) < 0xC0000000" 
  proof -
    have "i < n \<Longrightarrow> unat p + i \<le> unat p + (n - 1)" for i by simp
    then show ?thesis using assms(1) by (meson diff_less le_less_trans zero_less_one)
  qed
  finally show ?thesis
    using range_last [OF assms] by (simp add: user_check_access_def make_user_buffer_def word_less_nat_alt k)
qed

theorem user_check_access_exact_witness:
  "user_check_access (make_user_buffer 0xBFFFFFF0) 16 = Ok () \<and> (0xBFFFFFF0 + of_nat 15 :: u32) < KMEM_KBASE"
proof -
  have c: "user_check_access (make_user_buffer 0xBFFFFFF0) 16 = Ok ()"
    by (simp add: user_check_access_def make_user_buffer_def KMEM_KBASE_def)
  with user_check_access_exact [of 16 "0xBFFFFFF0"] have "\<forall>i<16. (0xBFFFFFF0 + of_nat i :: u32) < KMEM_KBASE" by simp
  then have "(0xBFFFFFF0 + of_nat 15 :: u32) < KMEM_KBASE" by (elim allE [of _ 15]) simp
  with c show ?thesis by blast
qed

text \<open>The accesses of a user buffer stay below the kernel base.\<close>

lemma user_memcpy_to_kernel_byte:
  assumes "is_user data" and "\<And>a. a < KMEM_KBASE \<Longrightarrow> m a = m' a"
  shows "user_memcpy_to_kernel m data 1 = user_memcpy_to_kernel m' data 1"
  using assms by (auto simp: user_memcpy_to_kernel_def user_check_access_def split: option.split)

lemma user_strncpy_loop_cong:
  assumes "is_user data" and "\<And>a. a < KMEM_KBASE \<Longrightarrow> m a = m' a"
  shows "user_strncpy_loop m data krnl i n = user_strncpy_loop m' data krnl i n"
proof (induction n arbitrary: krnl i)
  case (Suc n)
  have "is_user (user_buffer_index data i)" using assms(1) by (simp add: user_buffer_index_def)
  from user_memcpy_to_kernel_byte [OF this assms(2)] Suc show ?case
    by (simp add: Let_def split: sum.split)
qed simp

lemma user_strncpy_loop_string:
  assumes "\<And>k. k < length s \<Longrightarrow> m (ub_ptr data + of_nat (i + k)) = Some (s ! k) \<and> s ! k \<noteq> 0"
    and "m (ub_ptr data + of_nat (i + length s)) = Some 0" and "length s < n" and "i + n \<le> length krnl"
    and "unat (ub_ptr data) + i + length s < 0xC0000000"
  shows "user_strncpy_loop m data krnl i n = Ok (i + length s, take i krnl @ s @ 0 # drop (Suc (i + length s)) krnl)"
  using assms
proof (induction s arbitrary: i n krnl)
  case Nil
  then obtain n' where n: "n = Suc n'" by (cases n) auto
  have c: "user_memcpy_to_kernel m (user_buffer_index data i) 1 = Ok [0]"
    using Nil range_last [of "Suc i" "ub_ptr data"]
    by (simp add: user_memcpy_to_kernel_def user_check_access_def user_buffer_index_def word_less_nat_alt KMEM_KBASE_def)
  have "i < length krnl" using Nil n by simp
  then show ?case using c by (simp add: n upd_conv_take_nth_drop nth_append)
next
  case (Cons b s)
  then obtain n' where n: "n = Suc n'" by (cases n) auto
  have mi: "m (ub_ptr data + of_nat i) = Some b" "b \<noteq> 0" using Cons.prems(1) [of 0] by auto
  have c: "user_memcpy_to_kernel m (user_buffer_index data i) 1 = Ok [b]"
    using Cons.prems(5) mi range_last [of "Suc i" "ub_ptr data"]
    by (simp add: user_memcpy_to_kernel_def user_check_access_def user_buffer_index_def word_less_nat_alt KMEM_KBASE_def)
  have i: "i < length krnl" using Cons.prems n by simp
  have "user_strncpy_loop m data (krnl[i := b]) (i + 1) n' =
      Ok (i + 1 + length s, take (i + 1) (krnl[i := b]) @ s @ 0 # drop (Suc (i + 1 + length s)) (krnl[i := b]))"
  proof (rule Cons.IH)
    fix k assume "k < length s"
    then show "m (ub_ptr data + of_nat (i + 1 + k)) = Some (s ! k) \<and> s ! k \<noteq> 0"
      using Cons.prems(1) [of "Suc k"] by (simp add: ac_simps)
  qed (use Cons.prems n in \<open>auto simp: ac_simps\<close>)
  moreover have "take (i + 1) (krnl[i := b]) = take i krnl @ [b]" using i by (simp add: take_Suc_conv_app_nth)
  ultimately show ?case using c mi(2) i by (simp add: n)
qed

text \<open>
  C21. Copying a string from a user buffer depends only on user memory: address spaces that agree
  below the kernel base give the same result, whatever the kernel part holds.
\<close>

theorem user_strncpy_confined:
  assumes "is_user data" and "\<forall>a<KMEM_KBASE. m a = m' a"
  shows "user_strncpy_to_kernel m krnl data mx = user_strncpy_to_kernel m' krnl data mx"
  using user_strncpy_loop_cong [OF assms(1), of m m'] assms(2)
  by (simp add: user_strncpy_to_kernel_def user_strncpy_to_kernel_inner_def)

theorem user_strncpy_confined_witness:
  "user_strncpy_to_kernel (\<lambda>a. if a < KMEM_KBASE then Some 0 else None) [1, 1] (make_user_buffer 0xBFFFFFFF) 2 =
   user_strncpy_to_kernel (\<lambda>_. Some 0) [1, 1] (make_user_buffer 0xBFFFFFFF) 2"
  by (rule user_strncpy_confined) (simp_all add: make_user_buffer_def)

text \<open>
  A terminated string that lies in mapped user memory and fits the buffer is copied completely:
  the buffer then holds the string, followed by zeros up to the smaller of the buffer size and the
  distance to the kernel base.
\<close>

theorem user_strncpy_string:
  assumes "is_user data" and "\<forall>k<length s. m (ub_ptr data + of_nat k) = Some (s ! k) \<and> s ! k \<noteq> 0"
    and "m (ub_ptr data + of_nat (length s)) = Some 0" and "unat (ub_ptr data) + length s < 0xC0000000"
    and "length s < mx" and "mx \<le> length krnl" and "l = min mx (0xC0000000 - unat (ub_ptr data))"
  shows "user_strncpy_to_kernel m krnl data mx = Ok (s @ replicate (l - length s) 0 @ drop l krnl)"
proof -
  have b: "ub_ptr data \<le> KMEM_KBASE" "\<not> KMEM_KBASE \<le> ub_ptr data"
    using assms(4) by (simp_all add: word_le_nat_alt KMEM_KBASE_def)
  have a: "unat (KMEM_KBASE - ub_ptr data) = 0xC0000000 - unat (ub_ptr data)"
    using b(1) by (simp add: unat_sub KMEM_KBASE_def)
  have l: "(if mx < unat (KMEM_KBASE - ub_ptr data) then mx else unat (KMEM_KBASE - ub_ptr data)) = l"
    using a assms(7) by auto
  have ll: "length s < l" "l \<le> length krnl" using assms by auto
  have "user_strncpy_loop m data krnl 0 l = Ok (length s, s @ 0 # drop (Suc (length s)) krnl)"
    using user_strncpy_loop_string [of s m data 0 l krnl] assms ll by simp
  then have "user_strncpy_to_kernel_inner m krnl data l = Ok (s @ replicate (l - length s) 0 @ drop l krnl)"
    using ll by (simp add: user_strncpy_to_kernel_inner_def drop_Cons')
  then show ?thesis using assms(1) b(2) by (simp add: user_strncpy_to_kernel_def Let_def l)
qed

theorem user_strncpy_string_witness:
  "user_strncpy_to_kernel ((\<lambda>_. None)(0x1000 \<mapsto> 7, 0x1001 \<mapsto> 0)) [1, 1, 1, 1] (make_user_buffer 0x1000) 3 = Ok [7, 0, 0, 1]"
  proof -
  have "replicate 2 (0 :: u8) = [0, 0]" by (simp add: numeral_2_eq_2)
  then show ?thesis
    using user_strncpy_string [of "make_user_buffer 0x1000" "[7]" "(\<lambda>_. None)(0x1000 \<mapsto> 7, 0x1001 \<mapsto> 0)" 3 "[1, 1, 1, 1]" 3]
    by (simp add: make_user_buffer_def)
qed

end
