(* ===== verification/Users.thy ===== *)
theory Users
  imports UserMem
begin

text \<open>
  Process credentials and permission checks: \<^verbatim>\<open>src/kernel/sys_user.c\<close>, \<^verbatim>\<open>include/protura/users.h\<close> and
  \<^verbatim>\<open>src/fs/access.c\<close>. Each system call runs under the credentials' lock and is a function on the
  credentials of the current task; an error leaves them unchanged.
\<close>

section \<open>Model\<close>

definition UID_INVALID :: u32 where
  "UID_INVALID = -1"

definition GID_INVALID :: u32 where
  "GID_INVALID = -1"

definition NGROUPS :: nat where
  "NGROUPS = 32"

record credentials =
  uid :: u32
  euid :: u32
  suid :: u32
  gid :: u32
  egid :: u32
  sgid :: u32
  sup_groups :: "u32 list"

definition credentials_init :: credentials where
  "credentials_init =
     \<lparr>uid = 0, euid = 0, suid = 0, gid = 0, egid = 0, sgid = 0, sup_groups = replicate NGROUPS GID_INVALID\<rparr>"

definition u_credentials_belong_to_gid :: "credentials \<Rightarrow> u32 \<Rightarrow> bool" where
  "u_credentials_belong_to_gid creds g =
     (if egid creds = g then True else list_ex (\<lambda>i. sup_groups creds ! i = g) [0..<NGROUPS])"

definition sys_setuid :: "u32 \<Rightarrow> credentials \<Rightarrow> credentials kresult" where
  "sys_setuid u creds =
     (if euid creds = 0 then Ok (creds\<lparr>uid := u, euid := u, suid := u\<rparr>)
      else if uid creds = u \<or> suid creds = u then Ok (creds\<lparr>euid := u\<rparr>)
      else Err EPERM)"

text \<open>In the second block of \<^verbatim>\<open>sys_setreuid\<close> the code assigns \<open>ruid\<close> to the new real id, as written.\<close>

definition sys_setreuid :: "u32 \<Rightarrow> u32 \<Rightarrow> credentials \<Rightarrow> credentials kresult" where
  "sys_setreuid r e creds =
     (let old_ruid = uid creds; new_ruid = uid creds; new_euid = euid creds
      in if r \<noteq> UID_INVALID \<and> euid creds \<noteq> 0 \<and> uid creds \<noteq> r \<and> euid creds \<noteq> r then Err EPERM
         else let new_ruid = (if r \<noteq> UID_INVALID then r else new_ruid)
         in if e \<noteq> UID_INVALID \<and> euid creds \<noteq> 0 \<and> uid creds \<noteq> e \<and> euid creds \<noteq> e \<and> suid creds \<noteq> e then Err EPERM
            else let new_ruid = (if e \<noteq> UID_INVALID then r else new_ruid);
                     creds = creds\<lparr>uid := new_ruid, euid := new_euid\<rparr>
            in if uid creds \<noteq> UID_INVALID \<or> (euid creds \<noteq> UID_INVALID \<and> euid creds \<noteq> old_ruid)
               then Ok (creds\<lparr>suid := euid creds\<rparr>)
               else Ok creds)"

definition sys_setresuid :: "u32 \<Rightarrow> u32 \<Rightarrow> u32 \<Rightarrow> credentials \<Rightarrow> credentials kresult" where
  "sys_setresuid r e s creds =
     (if euid creds \<noteq> 0 \<and>
         (r \<noteq> UID_INVALID \<and> uid creds \<noteq> r \<and> euid creds \<noteq> r \<and> suid creds \<noteq> r \<or>
          e \<noteq> UID_INVALID \<and> uid creds \<noteq> e \<and> euid creds \<noteq> e \<and> suid creds \<noteq> e \<or>
          s \<noteq> UID_INVALID \<and> uid creds \<noteq> s \<and> euid creds \<noteq> s \<and> suid creds \<noteq> s)
      then Err EPERM
      else let creds = (if r \<noteq> UID_INVALID then creds\<lparr>uid := r\<rparr> else creds);
               creds = (if e \<noteq> UID_INVALID then creds\<lparr>euid := e\<rparr> else creds)
           in Ok (if s \<noteq> UID_INVALID then creds\<lparr>suid := s\<rparr> else creds))"

definition sys_getuid :: "credentials \<Rightarrow> u32" where
  "sys_getuid creds = uid creds"

definition sys_geteuid :: "credentials \<Rightarrow> u32" where
  "sys_geteuid creds = euid creds"

definition sys_setgid :: "u32 \<Rightarrow> credentials \<Rightarrow> credentials kresult" where
  "sys_setgid g creds =
     (if euid creds = 0 then Ok (creds\<lparr>gid := g, egid := g, sgid := g\<rparr>)
      else if gid creds = g \<or> sgid creds = g then Ok (creds\<lparr>egid := g\<rparr>)
      else Err EPERM)"

definition sys_setregid :: "u32 \<Rightarrow> u32 \<Rightarrow> credentials \<Rightarrow> credentials kresult" where
  "sys_setregid r e creds =
     (let old_rgid = gid creds; new_rgid = gid creds; new_egid = egid creds
      in if r \<noteq> GID_INVALID \<and> egid creds \<noteq> 0 \<and> gid creds \<noteq> r \<and> egid creds \<noteq> r then Err EPERM
         else let new_rgid = (if r \<noteq> GID_INVALID then r else new_rgid)
         in if e \<noteq> GID_INVALID \<and> egid creds \<noteq> 0 \<and> gid creds \<noteq> e \<and> egid creds \<noteq> e \<and> sgid creds \<noteq> e then Err EPERM
            else let new_rgid = (if e \<noteq> GID_INVALID then r else new_rgid);
                     creds = creds\<lparr>gid := new_rgid, egid := new_egid\<rparr>
            in if gid creds \<noteq> GID_INVALID \<or> (egid creds \<noteq> GID_INVALID \<and> egid creds \<noteq> old_rgid)
               then Ok (creds\<lparr>sgid := egid creds\<rparr>)
               else Ok creds)"

definition sys_setresgid :: "u32 \<Rightarrow> u32 \<Rightarrow> u32 \<Rightarrow> credentials \<Rightarrow> credentials kresult" where
  "sys_setresgid r e s creds =
     (if egid creds \<noteq> 0 \<and>
         (r \<noteq> GID_INVALID \<and> gid creds \<noteq> r \<and> egid creds \<noteq> r \<and> sgid creds \<noteq> r \<or>
          e \<noteq> GID_INVALID \<and> gid creds \<noteq> e \<and> egid creds \<noteq> e \<and> sgid creds \<noteq> e \<or>
          s \<noteq> GID_INVALID \<and> gid creds \<noteq> s \<and> egid creds \<noteq> s \<and> sgid creds \<noteq> s)
      then Err EPERM
      else let creds = (if r \<noteq> GID_INVALID then creds\<lparr>gid := r\<rparr> else creds);
               creds = (if e \<noteq> GID_INVALID then creds\<lparr>egid := e\<rparr> else creds)
           in Ok (if s \<noteq> GID_INVALID then creds\<lparr>sgid := s\<rparr> else creds))"

definition sys_getgid :: "credentials \<Rightarrow> u32" where
  "sys_getgid creds = gid creds"

definition sys_getegid :: "credentials \<Rightarrow> u32" where
  "sys_getegid creds = egid creds"

text \<open>
  \<^verbatim>\<open>new_sup_groups\<close> is an uninitialised array on the kernel stack: \<open>stack\<close> is what it happens to hold.
\<close>

fun setgroups_copy :: "umem \<Rightarrow> user_buffer \<Rightarrow> u32 list \<Rightarrow> nat \<Rightarrow> nat \<Rightarrow> u32 list kresult" where
  "setgroups_copy m buf groups i 0 = Ok groups"
| "setgroups_copy m buf groups i (Suc n) =
     (case user_copy_to_kernel_indexed m buf i of
        Inl e \<Rightarrow> Err e
      | Inr tmp \<Rightarrow> setgroups_copy m buf (groups[i := tmp]) (i + 1) n)"

definition sys_setgroups :: "umem \<Rightarrow> u32 list \<Rightarrow> nat \<Rightarrow> user_buffer \<Rightarrow> credentials \<Rightarrow> credentials kresult" where
  "sys_setgroups m stack n buf creds =
     (if n > NGROUPS then Err EPERM
      else case setgroups_copy m buf stack 0 n of
             Inl e \<Rightarrow> Err e
           | Inr groups \<Rightarrow>
               let groups = (if n < NGROUPS then groups[n := GID_INVALID] else groups)
               in if euid creds \<noteq> 0 then Err EPERM else Ok (creds\<lparr>sup_groups := groups\<rparr>))"

text \<open>The loop of \<^verbatim>\<open>sys_getgroups\<close> from index \<open>i\<close>; the result is the number of groups.\<close>

fun getgroups_loop :: "u32 list \<Rightarrow> nat \<Rightarrow> umem \<Rightarrow> user_buffer \<Rightarrow> nat \<Rightarrow> umem \<times> nat kresult" where
  "getgroups_loop [] n m buf i = (m, Ok i)"
| "getgroups_loop (g # gs) n m buf i =
     (if g = GID_INVALID then (m, Ok i)
      else if n = 0 \<or> i > n then getgroups_loop gs n m buf (i + 1)
      else case user_copy_from_kernel_indexed m buf g i of
             (m, Inl e) \<Rightarrow> (m, Err e)
           | (m, Inr _) \<Rightarrow> getgroups_loop gs n m buf (i + 1))"

definition sys_getgroups :: "umem \<Rightarrow> nat \<Rightarrow> user_buffer \<Rightarrow> credentials \<Rightarrow> umem \<times> nat kresult" where
  "sys_getgroups m n buf creds = getgroups_loop (take NGROUPS (sup_groups creds)) n m buf 0"

subsection \<open>Permission checks\<close>

record inode_perm =
  i_mode :: u32
  i_uid :: u32
  i_gid :: u32

definition S_IFMT :: u32 where "S_IFMT = 0xF000"

definition S_IFREG :: u32 where "S_IFREG = 0x8000"

definition S_ISREG :: "u32 \<Rightarrow> bool" where
  "S_ISREG m \<longleftrightarrow> m AND S_IFMT = S_IFREG"

definition X_OK :: u32 where "X_OK = 1"

definition u_check_permission :: "credentials \<Rightarrow> inode_perm \<Rightarrow> u32 \<Rightarrow> unit kresult" where
  "u_check_permission creds inode acc =
     (if acc = 0 then Ok ()
      else let mode = i_mode inode AND 0x1FF
      in if euid creds = 0 then
           (if \<not> S_ISREG mode then Ok ()
            else if mode AND X_OK = 0 then Ok ()
            else if mode AND (0x40 OR 8 OR 1) \<noteq> 0 then Ok ()
            else Err EACCES)
         else
           let mode = (if euid creds = i_uid inode then drop_bit 6 mode
                       else if u_credentials_belong_to_gid creds (i_gid inode) then drop_bit 3 mode
                       else mode)
           in if mode AND acc = acc then Ok () else Err EACCES)"

section \<open>Sequences of credential calls\<close>

datatype cred_call =
  SetUid u32 | SetReUid u32 u32 | SetResUid u32 u32 u32 | SetGid u32 | SetReGid u32 u32 | SetResGid u32 u32 u32

primrec run_call :: "cred_call \<Rightarrow> credentials \<Rightarrow> credentials kresult" where
  "run_call (SetUid u) c = sys_setuid u c"
| "run_call (SetReUid r e) c = sys_setreuid r e c"
| "run_call (SetResUid r e s) c = sys_setresuid r e s c"
| "run_call (SetGid g) c = sys_setgid g c"
| "run_call (SetReGid r e) c = sys_setregid r e c"
| "run_call (SetResGid r e s) c = sys_setresgid r e s c"

definition cred_step :: "cred_call \<Rightarrow> credentials \<Rightarrow> credentials" where
  "cred_step call c = (case run_call call c of Inl _ \<Rightarrow> c | Inr c' \<Rightarrow> c')"

definition uids :: "credentials \<Rightarrow> u32 set" where
  "uids c = {uid c, euid c, suid c}"

definition gids :: "credentials \<Rightarrow> u32 set" where
  "gids c = {gid c, egid c, sgid c}"

lemma setuid_frame:
  "sys_setuid u c = Ok c' \<Longrightarrow> gids c' = gids c \<and> sup_groups c' = sup_groups c"
  "sys_setreuid r e c = Ok c' \<Longrightarrow> gids c' = gids c \<and> sup_groups c' = sup_groups c"
  "sys_setresuid r e s c = Ok c' \<Longrightarrow> gids c' = gids c \<and> sup_groups c' = sup_groups c"
  unfolding sys_setuid_def sys_setreuid_def sys_setresuid_def gids_def Let_def
  by (simp split: if_split_asm; elim subst; simp)+

lemma setgid_frame:
  "sys_setgid g c = Ok c' \<Longrightarrow> uids c' = uids c \<and> sup_groups c' = sup_groups c"
  "sys_setregid r e c = Ok c' \<Longrightarrow> uids c' = uids c \<and> sup_groups c' = sup_groups c"
  "sys_setresgid r e s c = Ok c' \<Longrightarrow> uids c' = uids c \<and> sup_groups c' = sup_groups c"
  unfolding sys_setgid_def sys_setregid_def sys_setresgid_def uids_def Let_def
  by (simp split: if_split_asm; elim subst; simp)+

lemma setuid_uids:
  assumes "euid c \<noteq> 0"
  shows "sys_setuid u c = Ok c' \<Longrightarrow> uids c' \<subseteq> insert UID_INVALID (uids c)"
    "sys_setreuid r e c = Ok c' \<Longrightarrow> uids c' \<subseteq> insert UID_INVALID (uids c)"
    "sys_setresuid r e s c = Ok c' \<Longrightarrow> uids c' \<subseteq> insert UID_INVALID (uids c)"
  using assms unfolding sys_setuid_def sys_setreuid_def sys_setresuid_def uids_def Let_def
  by (simp split: if_split_asm; elim subst; simp; blast)+

lemma setgid_gids:
  assumes "euid c \<noteq> 0" and "egid c \<noteq> 0"
  shows "sys_setgid g c = Ok c' \<Longrightarrow> gids c' \<subseteq> insert GID_INVALID (gids c)"
    "sys_setregid r e c = Ok c' \<Longrightarrow> gids c' \<subseteq> insert GID_INVALID (gids c)"
    "sys_setresgid r e s c = Ok c' \<Longrightarrow> gids c' \<subseteq> insert GID_INVALID (gids c)"
  using assms unfolding sys_setgid_def sys_setregid_def sys_setresgid_def gids_def Let_def
  by (simp split: if_split_asm; elim subst; simp; blast)+

lemma run_call_ids:
  assumes "run_call call c = Ok c'" and "euid c \<noteq> 0" and "egid c \<noteq> 0"
  shows "uids c' \<subseteq> insert UID_INVALID (uids c)" "gids c' \<subseteq> insert GID_INVALID (gids c)" "sup_groups c' = sup_groups c"
proof -
  note u = setuid_uids [OF assms(2)] and g = setgid_gids [OF assms(2,3)]
  have "uids c' \<subseteq> insert UID_INVALID (uids c) \<and> gids c' \<subseteq> insert GID_INVALID (gids c) \<and> sup_groups c' = sup_groups c"
  proof (cases call)
    case (SetUid x)
    with assms(1) have "sys_setuid x c = Ok c'" by simp
    from u(1) [OF this] setuid_frame(1) [OF this] show ?thesis by (simp add: subset_insertI)
  next
    case (SetReUid x y)
    with assms(1) have "sys_setreuid x y c = Ok c'" by simp
    from u(2) [OF this] setuid_frame(2) [OF this] show ?thesis by (simp add: subset_insertI)
  next
    case (SetResUid x y z)
    with assms(1) have "sys_setresuid x y z c = Ok c'" by simp
    from u(3) [OF this] setuid_frame(3) [OF this] show ?thesis by (simp add: subset_insertI)
  next
    case (SetGid x)
    with assms(1) have "sys_setgid x c = Ok c'" by simp
    from g(1) [OF this] setgid_frame(1) [OF this] show ?thesis by (simp add: subset_insertI)
  next
    case (SetReGid x y)
    with assms(1) have "sys_setregid x y c = Ok c'" by simp
    from g(2) [OF this] setgid_frame(2) [OF this] show ?thesis by (simp add: subset_insertI)
  next
    case (SetResGid x y z)
    with assms(1) have "sys_setresgid x y z c = Ok c'" by simp
    from g(3) [OF this] setgid_frame(3) [OF this] show ?thesis by (simp add: subset_insertI)
  qed
  then show "uids c' \<subseteq> insert UID_INVALID (uids c)" "gids c' \<subseteq> insert GID_INVALID (gids c)" "sup_groups c' = sup_groups c"
    by blast+
qed

lemma cred_step_ids:
  assumes "euid c \<noteq> 0" and "egid c \<noteq> 0"
  shows "uids (cred_step call c) \<subseteq> insert UID_INVALID (uids c)" "gids (cred_step call c) \<subseteq> insert GID_INVALID (gids c)"
    "sup_groups (cred_step call c) = sup_groups c"
proof -
  have "uids (cred_step call c) \<subseteq> insert UID_INVALID (uids c) \<and> gids (cred_step call c) \<subseteq> insert GID_INVALID (gids c) \<and>
    sup_groups (cred_step call c) = sup_groups c"
  proof (cases "run_call call c")
    case (Inr c')
    then show ?thesis using run_call_ids [OF Inr assms] by (simp add: cred_step_def)
  qed (simp add: cred_step_def subset_insertI)
  then show "uids (cred_step call c) \<subseteq> insert UID_INVALID (uids c)"
    "gids (cred_step call c) \<subseteq> insert GID_INVALID (gids c)" "sup_groups (cred_step call c) = sup_groups c" by blast+
qed

section \<open>Properties\<close>

text \<open>
  C17. A process none of whose user and group ids is 0 cannot gain an id by any sequence of the
  set-id calls: its real, effective and saved ids stay among the ones it started with, apart from the invalid id
  -1, and its supplementary groups stay the same. In particular it never becomes root.
\<close>

theorem setid_no_privilege_gain:
  assumes "0 \<notin> uids c" and "0 \<notin> gids c"
  shows "uids (fold cred_step calls c) \<subseteq> insert UID_INVALID (uids c) \<and>
    gids (fold cred_step calls c) \<subseteq> insert GID_INVALID (gids c) \<and>
    sup_groups (fold cred_step calls c) = sup_groups c"
  using assms
proof (induction calls arbitrary: c)
  case (Cons call calls)
  let ?c = "cred_step call c"
  have nz: "euid c \<noteq> 0" "egid c \<noteq> 0" using Cons.prems by (auto simp: uids_def gids_def)
  note s = cred_step_ids [OF nz, of call]
  have "0 \<notin> uids ?c" "0 \<notin> gids ?c" using s Cons.prems by (auto simp: UID_INVALID_def GID_INVALID_def)
  from Cons.IH [OF this] s show ?case by auto
qed auto

theorem setid_no_privilege_gain_witness:
  "euid (fold cred_step [SetUid 0, SetReUid 1000 0, SetResUid 7 0 7, SetUid 7]
     (credentials_init\<lparr>uid := 1000, euid := 1000, suid := 7, gid := 5, egid := 5, sgid := 5\<rparr>)) \<noteq> 0"
  using setid_no_privilege_gain [of "credentials_init\<lparr>uid := 1000, euid := 1000, suid := 7, gid := 5, egid := 5, sgid := 5\<rparr>"
      "[SetUid 0, SetReUid 1000 0, SetResUid 7 0 7, SetUid 7]"]
  by (auto simp: uids_def gids_def UID_INVALID_def)



lemma belong_iff:
  "length (sup_groups c) = NGROUPS \<Longrightarrow> u_credentials_belong_to_gid c g \<longleftrightarrow> g = egid c \<or> g \<in> set (sup_groups c)"
  by (auto simp: u_credentials_belong_to_gid_def list_ex_iff in_set_conv_nth)

lemma setgroups_copy_ok:
  "(\<forall>k<n. user_copy_to_kernel_indexed m buf (i + k) = Ok (gs ! k)) \<Longrightarrow> length gs = n \<Longrightarrow> i + n \<le> length stack \<Longrightarrow>
   setgroups_copy m buf stack i n = Ok (take i stack @ gs @ drop (i + n) stack)"
proof (induction n arbitrary: i gs stack)
  case (Suc n)
  obtain g gs' where gs: "gs = g # gs'" using Suc.prems(2) by (cases gs) auto
  have "user_copy_to_kernel_indexed m buf i = Ok g" using Suc.prems(1) gs by force
  moreover have "setgroups_copy m buf (stack[i := g]) (i + 1) n =
      Ok (take (i + 1) (stack[i := g]) @ gs' @ drop (i + 1 + n) (stack[i := g]))"
    by (rule Suc.IH) (use Suc.prems gs in auto)
  moreover have "take (i + 1) (stack[i := g]) = take i stack @ [g]"
    using Suc.prems by (simp add: take_Suc_conv_app_nth)
  ultimately show ?case using gs by simp
qed simp

text \<open>
  After a successful call of \<^verbatim>\<open>sys_setgroups\<close> with \<open>n\<close> groups, the process belongs to these groups, and
  also to every group whose id is left in the uninitialised rest of the array on the kernel stack: the
  membership test does not stop at the terminating entry.
\<close>

theorem setgroups_membership:
  assumes "euid creds = 0" and "length stack = NGROUPS" and "length gs \<le> NGROUPS"
    and "\<forall>i<length gs. user_copy_to_kernel_indexed m buf i = Ok (gs ! i)"
  shows "\<exists>creds'. sys_setgroups m stack (length gs) buf creds = Ok creds' \<and>
    (\<forall>g. u_credentials_belong_to_gid creds' g \<longleftrightarrow>
      g = egid creds \<or> g \<in> set gs \<or> (length gs < NGROUPS \<and> g = GID_INVALID) \<or> g \<in> set (drop (length gs + 1) stack))"
proof -
  obtain groups where c: "setgroups_copy m buf stack 0 (length gs) = Ok groups" "groups = gs @ drop (length gs) stack"
    using setgroups_copy_ok [of "length gs" m buf 0 gs stack] assms by simp
  let ?g = "if length gs < NGROUPS then groups[length gs := GID_INVALID] else groups"
  have "set ?g = set gs \<union> (if length gs < NGROUPS then {GID_INVALID} else {}) \<union> set (drop (length gs + 1) stack)"
  proof (cases "length gs < NGROUPS")
    case True
    then have "drop (length gs) stack = stack ! length gs # drop (length gs + 1) stack"
      using assms(2) by (simp add: Cons_nth_drop_Suc)
    with True c show ?thesis by (simp add: list_update_append)
  qed (use assms c in simp)
  moreover have "length ?g = NGROUPS" using assms c by simp
  ultimately show ?thesis
    using assms(1,3) c(1) by (auto simp: sys_setgroups_def belong_iff Let_def split: if_splits)
qed

theorem setgroups_membership_witness:
  "\<exists>creds. sys_setgroups (\<lambda>_. None) (replicate 32 77) 0 (make_user_buffer 0x1000) credentials_init = Ok creds \<and>
     u_credentials_belong_to_gid creds 77"
  using setgroups_membership [of credentials_init "replicate 32 77" "[]" "\<lambda>_. None" "make_user_buffer 0x1000"]
  by (auto simp: credentials_init_def NGROUPS_def)

end
