(* ===== verification/CharBuf.thy ===== *)
theory CharBuf
  imports UserMem
begin

text \<open>
  The character ring buffer of \<^verbatim>\<open>src/kernel/char_buf.c\<close>, used by the terminals and the keyboard. The array is a
  list of bytes; a \<^verbatim>\<open>memcpy\<close> outside of it and the remainder by a zero length are \<^term>\<open>None\<close>.
\<close>

section \<open>Model\<close>

record char_buf =
  cb_buffer :: "u8 list"
  cb_len :: nat
  start_pos :: nat
  buf_len :: nat

definition memcpy_at :: "u8 list \<Rightarrow> nat \<Rightarrow> u8 list \<Rightarrow> u8 list option" where
  "memcpy_at xs i ys = (if i + length ys \<le> length xs then Some (take i xs @ ys @ drop (i + length ys) xs) else None)"

definition char_buf_init :: "u8 list \<Rightarrow> nat \<Rightarrow> char_buf" where
  "char_buf_init nbuffer buf_size = \<lparr>cb_buffer = nbuffer, cb_len = buf_size, start_pos = 0, buf_len = 0\<rparr>"

definition char_buf_clear :: "char_buf \<Rightarrow> char_buf" where
  "char_buf_clear buf = buf\<lparr>start_pos := 0, buf_len := 0\<rparr>"

definition char_buf_has_data :: "char_buf \<Rightarrow> bool" where
  "char_buf_has_data buf \<longleftrightarrow> buf_len buf \<noteq> 0"

definition char_buf_write_char :: "char_buf \<Rightarrow> u8 \<Rightarrow> char_buf option" where
  "char_buf_write_char buf data =
     (if cb_len buf = 0 then None
      else let end_pos = (start_pos buf + buf_len buf) mod cb_len buf
           in map_option (\<lambda>b. buf\<lparr>cb_buffer := b, buf_len := buf_len buf + 1\<rparr>) (memcpy_at (cb_buffer buf) end_pos [data]))"

text \<open>An empty buffer returns the character -1.\<close>

definition char_buf_read_char :: "char_buf \<Rightarrow> (u8 \<times> char_buf) option" where
  "char_buf_read_char buf =
     (if buf_len buf = 0 then Some (-1, buf)
      else if start_pos buf < length (cb_buffer buf)
      then let data = cb_buffer buf ! start_pos buf;
               buf = buf\<lparr>start_pos := start_pos buf + 1, buf_len := buf_len buf - 1\<rparr>
           in Some (data, if start_pos buf = cb_len buf then buf\<lparr>start_pos := 0\<rparr> else buf)
      else None)"

definition char_buf_write :: "char_buf \<Rightarrow> u8 list \<Rightarrow> char_buf option" where
  "char_buf_write buf data =
     (if cb_len buf = 0 then None
      else let end_pos = (start_pos buf + buf_len buf) mod cb_len buf;
               room = cb_len buf - end_pos
      in if room \<ge> length data
         then map_option (\<lambda>b. buf\<lparr>cb_buffer := b, buf_len := buf_len buf + length data\<rparr>)
                (memcpy_at (cb_buffer buf) end_pos data)
         else do {
           (b, bl, rest) \<leftarrow>
             (if room > 0
              then map_option (\<lambda>b. (b, buf_len buf + room, drop room data)) (memcpy_at (cb_buffer buf) end_pos (take room data))
              else Some (cb_buffer buf, buf_len buf, data));
           b \<leftarrow> memcpy_at b 0 rest;
           Some (buf\<lparr>cb_buffer := b, buf_len := bl + length rest\<rparr>)
         })"

text \<open>
  The result carries the address space the data was copied to and the buffer, also when the copy fails: a
  fault on the wrapped part leaves \<open>buf_len\<close> already reduced.
\<close>

definition char_buf_read_user :: "char_buf \<Rightarrow> umem \<Rightarrow> user_buffer \<Rightarrow> nat \<Rightarrow> char_buf \<times> umem \<times> nat kresult" where
  "char_buf_read_user buf m data data_len =
     (if buf_len buf = 0 then (buf, m, Ok 0)
      else let n = (if buf_len buf < data_len then buf_len buf else data_len); room = cb_len buf - start_pos buf
      in if room \<ge> n
         then case user_memcpy_from_kernel m data (take n (drop (start_pos buf) (cb_buffer buf))) of
                (m, Inl e) \<Rightarrow> (buf, m, Err e)
              | (m, Inr _) \<Rightarrow>
                  let buf = buf\<lparr>start_pos := start_pos buf + n, buf_len := buf_len buf - n\<rparr>
                  in (if start_pos buf = cb_len buf then buf\<lparr>start_pos := 0\<rparr> else buf, m, Ok n)
         else case (if room > 0
                    then (case user_memcpy_from_kernel m data (take room (drop (start_pos buf) (cb_buffer buf))) of
                            (m, Inl e) \<Rightarrow> (m, Err e)
                          | (m, Inr _) \<Rightarrow> (m, Ok (user_buffer_index data room, n - room, buf\<lparr>buf_len := buf_len buf - room\<rparr>)))
                    else (m, Ok (data, n, buf))) of
                (m, Inl e) \<Rightarrow> (buf, m, Err e)
              | (m, Inr (data, k, buf)) \<Rightarrow>
                  (case user_memcpy_from_kernel m data (take k (cb_buffer buf)) of
                     (m, Inl e) \<Rightarrow> (buf, m, Err e)
                   | (m, Inr _) \<Rightarrow> (buf\<lparr>start_pos := k, buf_len := buf_len buf - k\<rparr>, m, Ok n)))"

definition char_buf_read :: "char_buf \<Rightarrow> umem \<Rightarrow> u32 \<Rightarrow> nat \<Rightarrow> char_buf \<times> umem \<times> nat kresult" where
  "char_buf_read buf m data data_len = char_buf_read_user buf m (make_kernel_buffer data) data_len"

section \<open>Abstraction to a queue of bytes\<close>

definition cb_wf :: "char_buf \<Rightarrow> bool" where
  "cb_wf buf \<longleftrightarrow> length (cb_buffer buf) = cb_len buf \<and> start_pos buf < cb_len buf \<and> buf_len buf \<le> cb_len buf"

definition cb_data :: "char_buf \<Rightarrow> u8 list" where
  "cb_data buf = map (\<lambda>i. cb_buffer buf ! ((start_pos buf + i) mod cb_len buf)) [0..<buf_len buf]"

lemma length_cb_data [simp]: "length (cb_data buf) = buf_len buf"
  by (simp add: cb_data_def)

lemma nth_cb_data: "i < buf_len buf \<Longrightarrow> cb_data buf ! i = cb_buffer buf ! ((start_pos buf + i) mod cb_len buf)"
  by (simp add: cb_data_def)

text \<open>A ring update: \<open>data\<close> is stored from position \<open>e\<close> on, going around, and the rest is kept.\<close>

definition ring_store :: "u8 list \<Rightarrow> nat \<Rightarrow> u8 list \<Rightarrow> u8 list \<Rightarrow> bool" where
  "ring_store xs e data ys \<longleftrightarrow> length ys = length xs \<and>
     (\<forall>k<length data. ys ! ((e + k) mod length xs) = data ! k) \<and>
     (\<forall>p<length xs. (\<forall>k<length data. p \<noteq> (e + k) mod length xs) \<longrightarrow> ys ! p = xs ! p)"

lemma mod_window: "i < j \<Longrightarrow> j < i + n \<Longrightarrow> (i :: nat) mod n \<noteq> j mod n"
  using mod_eq_dvd_iff_nat [of i j n] dvd_imp_le [of n "j - i"] by auto

lemma ring_store_data:
  assumes "cb_wf buf" and "buf_len buf + length data \<le> cb_len buf"
    and "ring_store (cb_buffer buf) ((start_pos buf + buf_len buf) mod cb_len buf) data ys"
  shows "cb_data (buf\<lparr>cb_buffer := ys, buf_len := buf_len buf + length data\<rparr>) = cb_data buf @ data"
proof (rule nth_equalityI)
  let ?b = "buf\<lparr>cb_buffer := ys, buf_len := buf_len buf + length data\<rparr>"
  let ?n = "cb_len buf" and ?e = "(start_pos buf + buf_len buf) mod cb_len buf"
  have len: "length (cb_buffer buf) = ?n" "0 < ?n" using assms(1) by (auto simp: cb_wf_def)
  fix i assume "i < length (cb_data ?b)"
  then have i: "i < buf_len buf + length data" by simp
  show "cb_data ?b ! i = (cb_data buf @ data) ! i"
  proof (cases "i < buf_len buf")
    case True
    have "(start_pos buf + i) mod ?n \<noteq> (?e + k) mod ?n" if "k < length data" for k
      using mod_window [of "start_pos buf + i" "start_pos buf + buf_len buf + k" ?n] True that assms(2)
      by (simp add: mod_add_left_eq)
    then have "ys ! ((start_pos buf + i) mod ?n) = cb_buffer buf ! ((start_pos buf + i) mod ?n)"
      using assms(3) len by (simp add: ring_store_def)
    then show ?thesis using True i by (simp add: nth_append nth_cb_data)
  next
    case False
    then have k: "i - buf_len buf < length data" using i by simp
    then have "ys ! ((?e + (i - buf_len buf)) mod ?n) = data ! (i - buf_len buf)"
      using assms(3) len by (simp add: ring_store_def)
    moreover have "(?e + (i - buf_len buf)) mod ?n = (start_pos buf + i) mod ?n"
      unfolding mod_add_left_eq using False by simp
    ultimately show ?thesis using False i by (simp add: nth_append nth_cb_data)
  qed
qed simp

lemma memcpy_at_nth:
  assumes "memcpy_at xs i ys = Some zs"
  shows "length zs = length xs" "p < length xs \<Longrightarrow> zs ! p = (if i \<le> p \<and> p < i + length ys then ys ! (p - i) else xs ! p)"
  using assms by (auto simp: memcpy_at_def nth_append split: if_splits)

lemma memcpy_at_some: "i + length ys \<le> length xs \<Longrightarrow> \<exists>zs. memcpy_at xs i ys = Some zs"
  by (simp add: memcpy_at_def)

lemma ring_store_flat:
  assumes "memcpy_at xs e data = Some ys" and "e + length data \<le> length xs"
  shows "ring_store xs e data ys"
proof -
  note y = memcpy_at_nth [OF assms(1)]
  have "ys ! p = xs ! p" if p: "p < length xs" "\<forall>k<length data. p \<noteq> (e + k) mod length xs" for p
  proof -
    have "\<not> (e \<le> p \<and> p < e + length data)"
    proof
      assume "e \<le> p \<and> p < e + length data"
      then have "p - e < length data" "p = (e + (p - e)) mod length xs" using p(1) by auto
      then show False using p(2) by metis
    qed
    then show ?thesis using y(2) [OF p(1)] by auto
  qed
  then show ?thesis using y assms(2) by (simp add: ring_store_def)
qed

lemma ring_store_wrap:
  assumes m: "memcpy_at xs e (take r data) = Some zs" "memcpy_at zs 0 (drop r data) = Some ys"
    and r: "r = length xs - e" "e < length xs" "r < length data" "length data \<le> length xs"
  shows "ring_store xs e data ys"
proof -
  note z = memcpy_at_nth [OF m(1)] and y = memcpy_at_nth [OF m(2)]
  have "ys ! ((e + k) mod length xs) = data ! k" if k: "k < length data" for k
  proof (cases "k < r")
    case True
    then have p: "(e + k) mod length xs = e + k" "e + k < length xs" using r by simp_all
    have "\<not> e + k < 0 + length (drop r data)" using r by simp
    with True k show ?thesis unfolding p(1) y(2) [OF p(2) [folded z(1)]] z(2) [OF p(2)] by simp
  next
    case False
    then have p: "(e + k) mod length xs = k - r" "k - r < length xs" using r k by (simp_all add: le_mod_geq)
    have "k - r < 0 + length (drop r data)" using False k by simp
    with False k show ?thesis unfolding p(1) y(2) [OF p(2) [folded z(1)]] by simp
  qed
  moreover have "ys ! p = xs ! p" if p: "p < length xs" "\<forall>k<length data. p \<noteq> (e + k) mod length xs" for p
  proof -
    have "\<not> e \<le> p"
    proof
      assume "e \<le> p"
      then have "p - e < length data" "p = (e + (p - e)) mod length xs" using p(1) r by auto
      then show False using p(2) by metis
    qed
    moreover have "\<not> p < length data - r"
    proof
      assume "p < length data - r"
      then have "p + r < length data" "p = (e + (p + r)) mod length xs" using p(1) r by (auto simp: le_mod_geq)
      then show False using p(2) by metis
    qed
    ultimately show ?thesis using p(1) z y r by simp
  qed
  ultimately show ?thesis using z(1) y(1) by (simp add: ring_store_def)
qed

lemma char_buf_write_ring:
  assumes wf: "cb_wf buf" and room: "buf_len buf + length data \<le> cb_len buf"
  obtains ys where "char_buf_write buf data = Some (buf\<lparr>cb_buffer := ys, buf_len := buf_len buf + length data\<rparr>)"
    "ring_store (cb_buffer buf) ((start_pos buf + buf_len buf) mod cb_len buf) data ys"
proof -
  let ?e = "(start_pos buf + buf_len buf) mod cb_len buf"
  have w: "length (cb_buffer buf) = cb_len buf" "0 < cb_len buf" using wf by (auto simp: cb_wf_def)
  then have e: "?e < cb_len buf" by simp
  show thesis
  proof (cases "cb_len buf - ?e \<ge> length data")
    case True
    then have le: "?e + length data \<le> length (cb_buffer buf)" using e w by linarith
    obtain ys where ys: "memcpy_at (cb_buffer buf) ?e data = Some ys" using memcpy_at_some [OF le] by blast
    show thesis
      by (rule that [of ys]) (use True w ys ring_store_flat [OF ys le] in \<open>simp_all add: char_buf_write_def Let_def\<close>)
  next
    case False
    let ?r = "cb_len buf - ?e"
    have r: "0 < ?r" "?r < length data" "length data \<le> length (cb_buffer buf)" using e w False room by auto
    obtain zs where zs: "memcpy_at (cb_buffer buf) ?e (take ?r data) = Some zs"
      using memcpy_at_some [of ?e "take ?r data" "cb_buffer buf"] r e w by auto
    obtain ys where ys: "memcpy_at zs 0 (drop ?r data) = Some ys"
    proof -
      have "0 + length (drop ?r data) \<le> length zs" using r memcpy_at_nth(1) [OF zs] by simp
      then show thesis using memcpy_at_some that by blast
    qed
    have "ring_store (cb_buffer buf) ?e data ys" using ring_store_wrap [OF zs ys] r e w by simp
    moreover have "char_buf_write buf data =
        Some (buf\<lparr>cb_buffer := ys, buf_len := buf_len buf + ?r + length (drop ?r data)\<rparr>)"
      using w r zs ys by (simp add: char_buf_write_def Let_def)
    moreover have "buf_len buf + ?r + length (drop ?r data) = buf_len buf + length data" using r by simp
    ultimately show thesis using that by simp
  qed
qed

lemma cb_data_take:
  assumes "cb_wf buf" and "n \<le> buf_len buf"
  shows "take n (cb_data buf) =
    (if n \<le> cb_len buf - start_pos buf then take n (drop (start_pos buf) (cb_buffer buf))
     else drop (start_pos buf) (cb_buffer buf) @ take (n - (cb_len buf - start_pos buf)) (cb_buffer buf))"
proof (rule nth_equalityI)
  have w: "length (cb_buffer buf) = cb_len buf" "start_pos buf < cb_len buf" "buf_len buf \<le> cb_len buf"
    using assms(1) by (auto simp: cb_wf_def)
  show "length (take n (cb_data buf)) = length (if n \<le> cb_len buf - start_pos buf then take n (drop (start_pos buf) (cb_buffer buf))
     else drop (start_pos buf) (cb_buffer buf) @ take (n - (cb_len buf - start_pos buf)) (cb_buffer buf))"
    using w assms(2) by auto
  fix i assume "i < length (take n (cb_data buf))"
  then have i: "i < n" "i < buf_len buf" by auto
  show "take n (cb_data buf) ! i = (if n \<le> cb_len buf - start_pos buf then take n (drop (start_pos buf) (cb_buffer buf))
     else drop (start_pos buf) (cb_buffer buf) @ take (n - (cb_len buf - start_pos buf)) (cb_buffer buf)) ! i"
  proof (cases "start_pos buf + i < cb_len buf")
    case True
    then show ?thesis using i w assms(2) by (auto simp: nth_cb_data nth_append)
  next
    case False
    then have "(start_pos buf + i) mod cb_len buf = i - (cb_len buf - start_pos buf)"
      using i w by (simp add: le_mod_geq)
    then show ?thesis using False i w assms(2) by (auto simp: nth_cb_data nth_append)
  qed
qed

lemma cb_data_drop:
  assumes "cb_wf buf" and "n \<le> buf_len buf" and "s = (start_pos buf + n) mod cb_len buf"
  shows "cb_data (buf\<lparr>start_pos := s, buf_len := buf_len buf - n\<rparr>) = drop n (cb_data buf)"
  by (rule nth_equalityI) (simp_all add: nth_cb_data assms(2,3) mod_add_left_eq add.assoc)

lemma cb_wf_upd [simp]:
  "cb_wf buf \<Longrightarrow> length ys = cb_len buf \<Longrightarrow> n \<le> cb_len buf \<Longrightarrow> cb_wf (buf\<lparr>cb_buffer := ys, buf_len := n\<rparr>)"
  "cb_wf buf \<Longrightarrow> s < cb_len buf \<Longrightarrow> n \<le> cb_len buf \<Longrightarrow> cb_wf (buf\<lparr>start_pos := s, buf_len := n\<rparr>)"
  by (auto simp: cb_wf_def)

lemma char_buf_write_ok:
  assumes "cb_wf buf" and "buf_len buf + length data \<le> cb_len buf"
  shows "\<exists>buf'. char_buf_write buf data = Some buf' \<and> cb_wf buf' \<and> cb_data buf' = cb_data buf @ data"
proof -
  obtain ys where ys: "char_buf_write buf data = Some (buf\<lparr>cb_buffer := ys, buf_len := buf_len buf + length data\<rparr>)"
    "ring_store (cb_buffer buf) ((start_pos buf + buf_len buf) mod cb_len buf) data ys"
    by (rule char_buf_write_ring [OF assms])
  have "length ys = cb_len buf" using ys(2) assms(1) by (simp add: ring_store_def cb_wf_def)
  with ys ring_store_data [OF assms ys(2)] assms show ?thesis by simp
qed

lemma char_buf_write_char_eq:
  assumes "cb_wf buf"
  shows "char_buf_write_char buf c = char_buf_write buf [c]"
proof -
  have "Suc ((start_pos buf + buf_len buf) mod cb_len buf) \<le> cb_len buf"
    using assms by (auto simp: cb_wf_def Suc_le_eq)
  then show ?thesis by (simp add: char_buf_write_char_def char_buf_write_def Let_def Suc_le_eq)
qed

lemma start_pos_wrap:
  assumes "cb_wf buf" and "n \<le> cb_len buf - start_pos buf"
  shows "(start_pos buf + n) mod cb_len buf = (if start_pos buf + n = cb_len buf then 0 else start_pos buf + n)"
  using assms by (auto simp: cb_wf_def)

lemma char_buf_read_char_ok:
  assumes wf: "cb_wf buf"
  shows "\<exists>r buf'. char_buf_read_char buf = Some (r, buf') \<and> cb_wf buf' \<and>
      (case cb_data buf of [] \<Rightarrow> r = -1 \<and> buf' = buf | x # xs \<Rightarrow> r = x \<and> cb_data buf' = xs)"
proof (cases "buf_len buf = 0")
  case True
  then show ?thesis using wf by (simp add: char_buf_read_char_def cb_data_def)
next
  case False
  have w: "length (cb_buffer buf) = cb_len buf" "start_pos buf < cb_len buf" "buf_len buf \<le> cb_len buf"
    using wf by (auto simp: cb_wf_def)
  let ?b = "buf\<lparr>start_pos := (start_pos buf + 1) mod cb_len buf, buf_len := buf_len buf - 1\<rparr>"
  have r: "char_buf_read_char buf = Some (cb_buffer buf ! start_pos buf, ?b)"
    using False w start_pos_wrap [OF wf, of 1] by (simp add: char_buf_read_char_def Let_def)
  have d: "cb_data ?b = drop 1 (cb_data buf)" using cb_data_drop [OF wf, of 1] False by simp
  obtain x xs where x: "cb_data buf = x # xs" using False by (cases "cb_data buf") (auto dest: arg_cong [where f = length])
  then have "x = cb_buffer buf ! start_pos buf" using nth_cb_data [of 0 buf] False w by simp
  moreover have "cb_wf ?b" using wf w by simp
  ultimately show ?thesis using r d x by simp
qed

lemma user_memcpy_from_kernel_ok:
  assumes "write_bytes m (ub_ptr data) bs = (m', True)" and "0 < length bs"
    and "is_user data \<longrightarrow> unat (ub_ptr data) + length bs \<le> 0xC0000000"
  shows "user_memcpy_from_kernel m data bs = (m', Ok ())"
proof -
  have "user_check_access data (length bs) = Ok ()" by (rule user_check_ok [OF assms(2,3)])
  with assms(1) show ?thesis by (simp add: user_memcpy_from_kernel_def)
qed

section \<open>Properties\<close>



text \<open>
  Reading into a mapped buffer returns the oldest bytes, as many as are requested and available,
  in one piece also when they wrap around the end of the array, and removes exactly these from the queue.
\<close>

theorem char_buf_read_user_ok:
  assumes wf: "cb_wf buf" and n: "n = min data_len (buf_len buf)" "0 < data_len"
    and m: "write_bytes m (ub_ptr data) (take n (cb_data buf)) = (m', True)"
    and u: "unat (ub_ptr data) + n \<le> 0xC0000000"
  shows "\<exists>buf'. char_buf_read_user buf m data data_len = (buf', m', Ok n) \<and> cb_wf buf' \<and> cb_data buf' = drop n (cb_data buf)"
proof (cases "buf_len buf = 0")
  case True
  then show ?thesis using assms by (simp add: char_buf_read_user_def)
next
  case False
  have w: "length (cb_buffer buf) = cb_len buf" "start_pos buf < cb_len buf" "buf_len buf \<le> cb_len buf"
    using wf by (auto simp: cb_wf_def)
  have n': "n \<le> buf_len buf" "0 < n" "(if buf_len buf < data_len then buf_len buf else data_len) = n" using n False by auto
  let ?b = "buf\<lparr>start_pos := (start_pos buf + n) mod cb_len buf, buf_len := buf_len buf - n\<rparr>"
  have "cb_wf ?b" using wf w by simp
  moreover have "cb_data ?b = drop n (cb_data buf)" using cb_data_drop [OF wf n'(1)] by simp
  moreover have "char_buf_read_user buf m data data_len = (?b, m', Ok n)"
  proof (cases "n \<le> cb_len buf - start_pos buf")
    case True
    then have "user_memcpy_from_kernel m data (take n (drop (start_pos buf) (cb_buffer buf))) = (m', Ok ())"
      using user_memcpy_from_kernel_ok [OF m] u n' wf w by (simp add: cb_data_take)
    then show ?thesis using True False n' start_pos_wrap [OF wf True]
      by (simp add: char_buf_read_user_def Let_def)
  next
    case wrap: False
    let ?r = "cb_len buf - start_pos buf" and ?xs = "drop (start_pos buf) (cb_buffer buf)"
    let ?ys = "take (n - ?r) (cb_buffer buf)"
    obtain m1 where m1: "write_bytes m (ub_ptr data) ?xs = (m1, True)"
      "write_bytes m1 (ub_ptr data + of_nat ?r) ?ys = (m', True)"
      using m wrap n' wf w by (auto simp: cb_data_take write_bytes_append split: prod.splits if_splits)
    have "user_memcpy_from_kernel m data ?xs = (m1, Ok ())"
      by (rule user_memcpy_from_kernel_ok [OF m1(1)]) (use u wrap w in auto)
    moreover have "user_memcpy_from_kernel m1 (user_buffer_index data ?r) ?ys = (m', Ok ())"
      using user_memcpy_from_kernel_ok [of m1 "user_buffer_index data ?r" ?ys m'] m1(2) u wrap w n'
        unat_add_small [of "ub_ptr data" ?r]
      by (simp add: user_buffer_index_def)
    moreover have "(start_pos buf + n) mod cb_len buf = n - ?r" using wrap n' w by (simp add: le_mod_geq)
    ultimately show ?thesis using wrap False n' w by (simp add: char_buf_read_user_def Let_def)
  qed
  ultimately show ?thesis by blast
qed

theorem char_buf_read_user_ok_witness:
  "\<exists>buf'. char_buf_read_user \<lparr>cb_buffer = [1, 2, 3], cb_len = 3, start_pos = 2, buf_len = 2\<rparr>
      ((\<lambda>_. Some 0)) (make_user_buffer 0x1000) 7 = (buf', (\<lambda>_. Some 0)(0x1000 \<mapsto> 3, 0x1001 \<mapsto> 1), Ok 2)"
proof -
  let ?b = "\<lparr>cb_buffer = [1, 2, 3], cb_len = 3, start_pos = 2, buf_len = 2\<rparr> :: char_buf"
  have "cb_wf ?b" "cb_data ?b = [3, 1]" by (simp_all add: cb_wf_def cb_data_def upt_rec)
  with char_buf_read_user_ok [of ?b 2 7 "\<lambda>_. Some 0" "make_user_buffer 0x1000" "(\<lambda>_. Some 0)(0x1000 \<mapsto> 3, 0x1001 \<mapsto> 1)"]
  show ?thesis by (auto simp: make_user_buffer_def)
qed

text \<open>
  When the data wraps around and the second of the two copies faults, the read fails with
  the length already reduced but the start not moved: the oldest bytes are still there and as many of the newest ones are lost.
\<close>

theorem char_buf_read_fault_drops_newest:
  assumes wf: "cb_wf buf" and r: "r = cb_len buf - start_pos buf" "r < min data_len (buf_len buf)"
    and m1: "user_memcpy_from_kernel m data (drop (start_pos buf) (cb_buffer buf)) = (m1, Ok ())"
    and m2: "user_memcpy_from_kernel m1 (user_buffer_index data r) (take (min data_len (buf_len buf) - r) (cb_buffer buf)) = (m2, Err e)"
  shows "\<exists>buf'. char_buf_read_user buf m data data_len = (buf', m2, Err e) \<and>
    cb_data buf' = take (buf_len buf - r) (cb_data buf)"
proof -
  have w: "length (cb_buffer buf) = cb_len buf" "0 < r" using wf r by (auto simp: cb_wf_def)
  have mn: "(if buf_len buf < data_len then buf_len buf else data_len) = min data_len (buf_len buf)" by auto
  have t: "take r (drop (start_pos buf) (cb_buffer buf)) = drop (start_pos buf) (cb_buffer buf)" using w r by simp
  have "char_buf_read_user buf m data data_len = (buf\<lparr>buf_len := buf_len buf - r\<rparr>, m2, Err e)"
    using w(2) r(2) m1 m2 unfolding char_buf_read_user_def Let_def mn r(1) [symmetric] t
    by (simp add: not_le [THEN iffD2] del: min_less_iff_conj)
  moreover have "cb_data (buf\<lparr>buf_len := buf_len buf - r\<rparr>) = take (buf_len buf - r) (cb_data buf)"
    by (rule nth_equalityI) (simp_all add: nth_cb_data)
  ultimately show ?thesis by blast
qed

theorem char_buf_read_fault_drops_newest_witness:
  "\<exists>buf' m2. char_buf_read_user \<lparr>cb_buffer = [1, 2, 3], cb_len = 3, start_pos = 2, buf_len = 3\<rparr>
      (\<lambda>a. if a = 0x1000 then Some 0 else None) (make_user_buffer 0x1000) 3 = (buf', m2, Err EFAULT) \<and> cb_data buf' = [3, 1]"
proof -
  let ?b = "\<lparr>cb_buffer = [1, 2, 3], cb_len = 3, start_pos = 2, buf_len = 3\<rparr> :: char_buf"
  let ?m = "\<lambda>a. if a = 0x1000 then Some 0 else None"
  have "cb_wf ?b" "take 2 (cb_data ?b) = [3, 1]" by (simp_all add: cb_wf_def cb_data_def upt_rec)
  with char_buf_read_fault_drops_newest [of ?b 1 3 ?m "make_user_buffer 0x1000" "?m(0x1000 \<mapsto> 3)" "?m(0x1000 \<mapsto> 3)" EFAULT]
  have "\<exists>buf'. char_buf_read_user ?b ?m (make_user_buffer 0x1000) 3 = (buf', ?m(0x1000 \<mapsto> 3), Err EFAULT) \<and> cb_data buf' = [3, 1]"
    by (simp add: make_user_buffer_def user_buffer_index_def user_memcpy_from_kernel_def user_check_access_def KMEM_KBASE_def)
  then show ?thesis by blast
qed

end
