(* ===== verification/KBuf.thy ===== *)
theory KBuf
  imports UserMem
begin

text \<open>
  The growing page buffer of \<^verbatim>\<open>src/kernel/kbuf.c\<close>. Its pages are lists of 4096 bytes; \<open>offset\<close> is the
  write position. A new page arrives with whatever it held before.
\<close>

section \<open>Model\<close>

record kbuf =
  kb_pages :: "u8 list list"
  kb_page_count :: nat
  offset :: nat

definition kbuf_init :: kbuf where
  "kbuf_init = \<lparr>kb_pages = [], kb_page_count = 0, offset = 0\<rparr>"

text \<open>The page allocator's answer is a parameter: the contents of the page, or \<^term>\<open>None\<close> for the null pointer.\<close>

definition kbuf_add_page :: "u8 list option \<Rightarrow> kbuf \<Rightarrow> kbuf \<times> unit kresult" where
  "kbuf_add_page page kb =
     (case page of
        None \<Rightarrow> (kb, Err ENOMEM)
      | Some p \<Rightarrow> (kb\<lparr>kb_page_count := kb_page_count kb + 1, kb_pages := kb_pages kb @ [p]\<rparr>, Ok ()))"

definition kbuf_clear :: "kbuf \<Rightarrow> kbuf" where
  "kbuf_clear kb = kb\<lparr>kb_pages := [], kb_page_count := 0, offset := 0\<rparr>"

definition kbuf_get_total_length :: "kbuf \<Rightarrow> nat" where
  "kbuf_get_total_length kb = kb_page_count kb * 4096"

definition kbuf_get_free_length :: "kbuf \<Rightarrow> nat" where
  "kbuf_get_free_length kb = kbuf_get_total_length kb - offset kb"

definition kbuf_get_length :: "kbuf \<Rightarrow> nat" where
  "kbuf_get_length kb = offset kb"

definition kbuf_get_pos :: "kbuf \<Rightarrow> nat" where
  "kbuf_get_pos kb = offset kb"

definition kbuf_reset_pos :: "kbuf \<Rightarrow> nat \<Rightarrow> kbuf" where
  "kbuf_reset_pos kb pos = kb\<lparr>offset := pos\<rparr>"

text \<open>\<^verbatim>\<open>kbuf_get_cur_page\<close> gives the list of pages from the current one on; empty is the null pointer.\<close>

definition kbuf_get_cur_page :: "kbuf \<Rightarrow> nat \<Rightarrow> u8 list list" where
  "kbuf_get_cur_page kb off = drop (off div 4096) (kb_pages kb)"

fun kbuf_read_loop ::
  "umem \<Rightarrow> user_buffer \<Rightarrow> u8 list list \<Rightarrow> nat \<Rightarrow> nat \<Rightarrow> nat \<Rightarrow> umem \<times> nat kresult" where
  "kbuf_read_loop m buf [] page_offset have_read len = (m, Ok have_read)"
| "kbuf_read_loop m buf (p # ps) page_offset have_read len =
     (if have_read < len
      then let read_count = (if len - have_read > 4096 - page_offset then 4096 - page_offset else len - have_read)
           in case user_memcpy_from_kernel m (user_buffer_index buf have_read) (take read_count (drop page_offset p)) of
                (m, Inl e) \<Rightarrow> (m, Err e)
              | (m, Inr _) \<Rightarrow> kbuf_read_loop m buf ps 0 (have_read + read_count) len
      else (m, Ok have_read))"

text \<open>The lengths are unsigned 32-bit numbers: the sum and the difference in \<^verbatim>\<open>kbuf_read\<close> wrap.\<close>

definition kbuf_read :: "kbuf \<Rightarrow> umem \<Rightarrow> nat \<Rightarrow> user_buffer \<Rightarrow> nat \<Rightarrow> umem \<times> nat kresult" where
  "kbuf_read kb m loc buf len =
     (case kbuf_get_cur_page kb loc of
        [] \<Rightarrow> (m, Ok 0)
      | ps \<Rightarrow>
          let page_offset = loc mod 4096;
              len = (if kbuf_get_length kb < (loc + len) mod 2 ^ 32 then (kbuf_get_length kb + 2 ^ 32 - loc) mod 2 ^ 32 else len)
          in kbuf_read_loop m buf ps page_offset 0 len)"

fun kbuf_write_loop ::
  "umem \<Rightarrow> user_buffer \<Rightarrow> u8 list list \<Rightarrow> nat \<Rightarrow> nat \<Rightarrow> nat \<Rightarrow> u8 list list \<times> nat kresult" where
  "kbuf_write_loop m buf [] page_offset have_written len = ([], Ok have_written)"
| "kbuf_write_loop m buf (p # ps) page_offset have_written len =
     (if have_written < len
      then let write_count = (if len - have_written > 4096 - page_offset then 4096 - page_offset else len - have_written)
           in case user_memcpy_to_kernel m (user_buffer_index buf have_written) write_count of
                Inl e \<Rightarrow> (p # ps, Err e)
              | Inr bs \<Rightarrow>
                  let p = take page_offset p @ bs @ drop (page_offset + write_count) p;
                      (ps, r) = kbuf_write_loop m buf ps 0 (have_written + write_count) len
                  in (p # ps, r)
      else (p # ps, Ok have_written))"

definition kbuf_write :: "kbuf \<Rightarrow> umem \<Rightarrow> user_buffer \<Rightarrow> nat \<Rightarrow> kbuf \<times> nat kresult" where
  "kbuf_write kb m buf len =
     (case kbuf_get_cur_page kb (offset kb) of
        [] \<Rightarrow> (kb, Ok 0)
      | ps \<Rightarrow>
          let len = (if kbuf_get_free_length kb < len then kbuf_get_free_length kb else len);
              page_offset = offset kb mod 4096;
              (ps, r) = kbuf_write_loop m buf ps page_offset 0 len;
              kb = kb\<lparr>kb_pages := take (offset kb div 4096) (kb_pages kb) @ ps\<rparr>
          in case r of Inl e \<Rightarrow> (kb, Err e) | Inr n \<Rightarrow> (kb\<lparr>offset := offset kb + n\<rparr>, Ok n))"

section \<open>Contents\<close>

definition kbuf_wf :: "kbuf \<Rightarrow> bool" where
  "kbuf_wf kb \<longleftrightarrow> list_all (\<lambda>p. length p = 4096) (kb_pages kb) \<and> kb_page_count kb = length (kb_pages kb) \<and>
     offset kb \<le> 4096 * length (kb_pages kb) \<and> 4096 * length (kb_pages kb) < 2 ^ 32"

definition kbuf_content :: "kbuf \<Rightarrow> u8 list" where
  "kbuf_content kb = take (offset kb) (concat (kb_pages kb))"

lemma length_concat_pages: "list_all (\<lambda>p. length p = 4096) ps \<Longrightarrow> length (concat ps) = 4096 * length ps"
  by (induction ps) auto

lemma concat_drop_pages:
  "list_all (\<lambda>p. length p = 4096) ps \<Longrightarrow> concat (drop k ps) = drop (4096 * k) (concat ps)"
  by (induction ps arbitrary: k) (auto simp: drop_Cons split: nat.split)

lemma concat_take_pages:
  "list_all (\<lambda>p. length p = 4096) ps \<Longrightarrow> concat (take k ps) = take (4096 * k) (concat ps)"
  by (induction ps arbitrary: k) (auto simp: take_Cons split: nat.split)

lemma read_bytes_append:
  "read_bytes m p (a + b) = Some bs \<Longrightarrow>
   read_bytes m p a = Some (take a bs) \<and> read_bytes m (p + of_nat a) b = Some (drop a bs)"
proof (induction a arbitrary: p bs)
  case (Suc a)
  then obtain b' bs' where b: "m p = Some b'" "bs = b' # bs'" "read_bytes m (p + 1) (a + b) = Some bs'"
    by (auto split: option.splits)
  from Suc.IH [OF b(3)] b show ?case by (simp add: add.assoc)
qed simp

lemma length_read_bytes: "read_bytes m p n = Some bs \<Longrightarrow> length bs = n"
  by (induction n arbitrary: p bs) (auto split: option.splits)

lemma kbuf_write_loop_ok:
  assumes "in_user_range buf len" and "list_all (\<lambda>p. length p = 4096) ps" and "po < 4096" and "i \<le> len"
    and "len - i + po \<le> 4096 * length ps" and "read_bytes m (ub_ptr buf + of_nat i) (len - i) = Some bs"
  shows "\<exists>ps'. kbuf_write_loop m buf ps po i len = (ps', Ok len) \<and> list_all (\<lambda>p. length p = 4096) ps' \<and>
    length ps' = length ps \<and> concat ps' = take po (concat ps) @ bs @ drop (po + (len - i)) (concat ps)"
  using assms(2-)
proof (induction ps arbitrary: po i bs)
  case Nil
  then show ?case by simp
next
  case (Cons p ps)
  show ?case
  proof (cases "i < len")
    case False
    then show ?thesis using Cons.prems by simp
  next
    case True
    let ?n = "if len - i > 4096 - po then 4096 - po else len - i"
    have n: "0 < ?n" "i + ?n \<le> len" "?n \<le> len - i" "po + ?n \<le> 4096" using True Cons.prems(2) by auto
    have "len - i = ?n + (len - (i + ?n))" using n True by auto
    with Cons.prems(5) have sp: "read_bytes m (ub_ptr buf + of_nat i) ?n = Some (take ?n bs)"
      "read_bytes m (ub_ptr buf + of_nat (i + ?n)) (len - (i + ?n)) = Some (drop ?n bs)"
      using read_bytes_append [of m "ub_ptr buf + of_nat i" ?n "len - (i + ?n)" bs] by (simp_all add: add.assoc)
    note c = user_memcpy_to_kernel_part [OF assms(1) n(2,1) sp(1)]
    have lb: "length (take ?n bs) = ?n" using length_read_bytes [OF sp(1)] .
    have lp: "length p = 4096" "list_all (\<lambda>p. length p = 4096) ps" using Cons.prems(1) by auto
    have "len - (i + ?n) \<le> 4096 * length ps" using Cons.prems(4) n by (simp split: if_splits)
    then obtain ps' where ps': "kbuf_write_loop m buf ps 0 (i + ?n) len = (ps', Ok len)"
      "list_all (\<lambda>p. length p = 4096) ps'" "length ps' = length ps"
      "concat ps' = drop ?n bs @ drop (len - (i + ?n)) (concat ps)"
      using Cons.IH [OF lp(2) _ n(2) _ sp(2), of 0] by auto
    let ?p = "take po p @ take ?n bs @ drop (po + ?n) p"
    have w: "kbuf_write_loop m buf (p # ps) po i len = (?p # ps', Ok len)"
      using True c ps'(1) unfolding kbuf_write_loop.simps Let_def by simp
    have lq: "length ?p = 4096" using lp(1) lb n(4) by simp
    have cc: "concat (?p # ps') = take po (concat (p # ps)) @ bs @ drop (po + (len - i)) (concat (p # ps))"
    proof (cases "len - i > 4096 - po")
      case True
      then have d: "concat ps' = drop (4096 - po) bs @ drop (po + (len - i) - 4096) (concat ps)"
        using ps'(4) Cons.prems(2) by (simp add: add.commute)
      show ?thesis using True lp Cons.prems(2) by (simp add: d)
    next
      case False
      then show ?thesis using ps'(4) lp Cons.prems(2) n length_read_bytes [OF Cons.prems(5)] by simp
    qed
    have "list_all (\<lambda>p. length p = 4096) (?p # ps')" "length (?p # ps') = length (p # ps)" using lq ps'(2,3) by simp_all
    with w cc show ?thesis by blast
  qed
qed

lemma kbuf_read_loop_ok:
  assumes "in_user_range buf len" and "list_all (\<lambda>p. length p = 4096) ps" and "po < 4096" and "i \<le> len"
    and "len - i + po \<le> 4096 * length ps"
    and "write_bytes m (ub_ptr buf + of_nat i) (take (len - i) (drop po (concat ps))) = (m', True)"
  shows "kbuf_read_loop m buf ps po i len = (m', Ok len)"
  using assms(2-)
proof (induction ps arbitrary: po i m)
  case Nil
  then show ?case by simp
next
  case (Cons p ps)
  show ?case
  proof (cases "i < len")
    case False
    then show ?thesis using Cons.prems by simp
  next
    case True
    let ?n = "if len - i > 4096 - po then 4096 - po else len - i"
    have n: "0 < ?n" "i + ?n \<le> len" "po + ?n \<le> 4096" using True Cons.prems(2) by auto
    have lp: "length p = 4096" "list_all (\<lambda>p. length p = 4096) ps" using Cons.prems(1) by auto
    let ?xs = "take ?n (drop po p)"
    have xs: "length ?xs = ?n" using n lp by simp
    have sp: "take (len - i) (drop po (concat (p # ps))) = ?xs @ take (len - (i + ?n)) (concat ps)"
    proof (cases "len - i > 4096 - po")
      case True
      then have "len - i - (4096 - po) = len - (i + (4096 - po))" using Cons.prems(2) by simp
      then show ?thesis using True lp(1) Cons.prems(2) by simp
    next
      case False
      then have "len - i \<le> 4096 - po" "len - (i + (len - i)) = 0" by auto
      then show ?thesis using False lp(1) by simp
    qed
    obtain m1 ok where o: "write_bytes m (ub_ptr buf + of_nat i) ?xs = (m1, ok)" by fastforce
    have m1: "write_bytes m (ub_ptr buf + of_nat i) ?xs = (m1, True)"
      "write_bytes m1 (ub_ptr buf + of_nat (i + ?n)) (take (len - (i + ?n)) (drop 0 (concat ps))) = (m', True)"
      using Cons.prems(5) o unfolding sp write_bytes_append o prod.case xs
      by (cases ok; simp add: add.assoc)+
    have "user_memcpy_from_kernel m (user_buffer_index buf i) ?xs = (m1, Ok ())"
      by (rule user_memcpy_from_kernel_part [OF assms(1) _ _ m1(1)]) (unfold xs length_greater_0_conv [symmetric], rule n, rule n)
    moreover have "kbuf_read_loop m1 buf ps 0 (i + ?n) len = (m', Ok len)"
      by (rule Cons.IH [OF lp(2) _ n(2) _ m1(2)]) (use Cons.prems(4) n in \<open>simp_all split: if_splits\<close>)
    ultimately show ?thesis using True unfolding kbuf_read_loop.simps Let_def by simp
  qed
qed

lemma kbuf_write_ok:
  assumes wf: "kbuf_wf kb" and n: "n = min len (kbuf_get_free_length kb)" and u: "in_user_range buf n"
    and r: "read_bytes m (ub_ptr buf) n = Some bs"
  shows "\<exists>kb'. kbuf_write kb m buf len = (kb', Ok n) \<and> kbuf_wf kb' \<and> kbuf_content kb' = kbuf_content kb @ bs \<and>
    offset kb' = offset kb + n \<and> length (kb_pages kb') = length (kb_pages kb)"
proof -
  let ?k = "offset kb div 4096" and ?po = "offset kb mod 4096"
  let ?ps = "kbuf_get_cur_page kb (offset kb)"
  have w: "list_all (\<lambda>p. length p = 4096) (kb_pages kb)" "kb_page_count kb = length (kb_pages kb)"
    "offset kb \<le> 4096 * length (kb_pages kb)" using wf by (auto simp: kbuf_wf_def)
  have free: "kbuf_get_free_length kb = 4096 * length (kb_pages kb) - offset kb"
    using w(2) by (simp add: kbuf_get_free_length_def kbuf_get_total_length_def)
  have wp: "list_all (\<lambda>p. length p = 4096) ?ps" using w(1) unfolding kbuf_get_cur_page_def list_all_iff by (meson in_set_dropD)
  have cp: "concat ?ps = drop (4096 * ?k) (concat (kb_pages kb))"
    unfolding kbuf_get_cur_page_def by (rule concat_drop_pages [OF w(1)])
  show ?thesis
  proof (cases "?ps = []")
    case True
    then have "length (kb_pages kb) \<le> ?k" by (simp add: kbuf_get_cur_page_def)
    then have "kbuf_get_free_length kb = 0" unfolding free by (simp add: less_eq_div_iff_mult_less_eq)
    then have "n = 0" "bs = []" using n r by auto
    then show ?thesis using True wf by (simp add: kbuf_write_def)
  next
    case False
    then obtain q qs where q: "?ps = q # qs" by (cases ?ps) auto
    have "length ?ps = length (kb_pages kb) - ?k" by (simp add: kbuf_get_cur_page_def)
    moreover have "4096 * ?k + ?po = offset kb" "4096 * (length (kb_pages kb) - ?k) = 4096 * length (kb_pages kb) - 4096 * ?k"
      by (simp_all add: diff_mult_distrib2)
    moreover have "n \<le> 4096 * length (kb_pages kb) - offset kb" using n free by simp
    ultimately have "n + ?po \<le> 4096 * length ?ps" using w(3) by linarith
    then obtain ps' where ps': "kbuf_write_loop m buf ?ps ?po 0 n = (ps', Ok n)" "list_all (\<lambda>p. length p = 4096) ps'"
      "length ps' = length ?ps" "concat ps' = take ?po (concat ?ps) @ bs @ drop (?po + n) (concat ?ps)"
      using kbuf_write_loop_ok [OF u wp, of ?po 0 m bs] r by auto
    let ?pages = "take ?k (kb_pages kb) @ ps'"
    let ?kb = "kb\<lparr>kb_pages := ?pages, offset := offset kb + n\<rparr>"
    have "kbuf_write kb m buf len = (?kb, Ok n)"
      using ps'(1) n unfolding q by (simp add: kbuf_write_def q Let_def min_def split: if_splits)
    moreover have len: "length ?pages = length (kb_pages kb)"
      using ps'(3) w(3) by (simp add: kbuf_get_cur_page_def)
    moreover have "list_all (\<lambda>p. length p = 4096) ?pages"
      using w(1) ps'(2) by (auto simp: list_all_iff dest: in_set_takeD)
    moreover have "kbuf_content ?kb = kbuf_content kb @ bs"
    proof -
      have "concat ?pages = take (4096 * ?k) (concat (kb_pages kb)) @ take ?po (drop (4096 * ?k) (concat (kb_pages kb))) @
          bs @ drop (?po + n) (drop (4096 * ?k) (concat (kb_pages kb)))"
        using ps'(4) concat_take_pages [OF w(1)] unfolding cp by simp
      also have "\<dots> = take (offset kb) (concat (kb_pages kb)) @ bs @ drop (offset kb + n) (concat (kb_pages kb))"
        by (simp add: take_add [symmetric] ac_simps)
      finally show ?thesis using length_read_bytes [OF r] length_concat_pages [OF w(1)] w(3) by (simp add: kbuf_content_def)
    qed
    moreover have "offset kb + n \<le> 4096 * length (kb_pages kb)" using n free w(3) by simp
    ultimately have "kbuf_write kb m buf len = (?kb, Ok n)" "kbuf_wf ?kb" "kbuf_content ?kb = kbuf_content kb @ bs"
      "length (kb_pages ?kb) = length (kb_pages kb)" using wf by (simp_all add: kbuf_wf_def)
    then show ?thesis by (intro exI [of _ ?kb]) simp
  qed
qed

lemma kbuf_read_ok:
  assumes wf: "kbuf_wf kb" and l: "loc < offset kb" "loc + len < 2 ^ 32" and n: "n = min len (offset kb - loc)"
    and u: "in_user_range buf n" and m: "write_bytes m (ub_ptr buf) (take n (drop loc (kbuf_content kb))) = (m', True)"
  shows "kbuf_read kb m loc buf len = (m', Ok n)"
proof -
  let ?ps = "kbuf_get_cur_page kb loc"
  have w: "list_all (\<lambda>p. length p = 4096) (kb_pages kb)" "offset kb \<le> 4096 * length (kb_pages kb)"
    "4096 * length (kb_pages kb) < 2 ^ 32" using wf by (auto simp: kbuf_wf_def)
  have wp: "list_all (\<lambda>p. length p = 4096) ?ps" using w(1) unfolding kbuf_get_cur_page_def list_all_iff by (meson in_set_dropD)
  have cp: "concat ?ps = drop (4096 * (loc div 4096)) (concat (kb_pages kb))"
    unfolding kbuf_get_cur_page_def by (rule concat_drop_pages [OF w(1)])
  have "drop (loc mod 4096) (concat ?ps) = drop loc (concat (kb_pages kb))" unfolding cp by simp
  moreover have "take n (drop loc (kbuf_content kb)) = take n (drop loc (concat (kb_pages kb)))"
    using n by (simp add: kbuf_content_def drop_take min_def)
  ultimately have m2: "write_bytes m (ub_ptr buf + of_nat 0) (take (n - 0) (drop (loc mod 4096) (concat ?ps))) = (m', True)"
    using m by simp
  have lp: "length ?ps = length (kb_pages kb) - loc div 4096" by (simp add: kbuf_get_cur_page_def)
  have k: "4096 * (loc div 4096) + loc mod 4096 = loc"
    "4096 * (length (kb_pages kb) - loc div 4096) = 4096 * length (kb_pages kb) - 4096 * (loc div 4096)"
    by (simp_all add: diff_mult_distrib2)
  have b: "n - 0 + loc mod 4096 \<le> 4096 * length ?ps" unfolding lp using k n l(1) w(2) by linarith
  have loop: "kbuf_read_loop m buf ?ps (loc mod 4096) 0 n = (m', Ok n)"
    by (rule kbuf_read_loop_ok [OF u wp _ _ b m2]) simp_all
  have "loc div 4096 < length (kb_pages kb)" using k(1) l(1) w(2) by linarith
  then have ne: "?ps \<noteq> []" using lp by (metis length_0_conv less_numeral_extra(3) zero_less_diff)
  have "(offset kb + 2 ^ 32 - loc) mod 2 ^ 32 = offset kb - loc"
  proof -
    have "offset kb + 2 ^ 32 - loc = (offset kb - loc) + 2 ^ 32" using l(1) by simp
    moreover have "offset kb - loc < 2 ^ 32" using w(2,3) by linarith
    ultimately show ?thesis by (simp only: mod_add_self2 mod_less)
  qed
  then have e: "(if kbuf_get_length kb < (loc + len) mod 2 ^ 32 then (kbuf_get_length kb + 2 ^ 32 - loc) mod 2 ^ 32 else len) = n"
    using n l by (auto simp: kbuf_get_length_def min_def)
  obtain q qs where q: "?ps = q # qs" using ne by (cases ?ps) auto
  show ?thesis using loop unfolding kbuf_read_def Let_def e q list.case .
qed

section \<open>Properties\<close>

text \<open>
  C27. What is written to the buffer is read back: a write of mapped data, also one that crosses page
  boundaries, appends as many bytes as there is room for, keeps the earlier contents, and a read at the old
  end of the buffer returns exactly these bytes.
\<close>

theorem kbuf_write_read:
  assumes "kbuf_wf kb" and "n = min len (kbuf_get_free_length kb)" and "0 < n" and "in_user_range buf n"
    and "read_bytes m (ub_ptr buf) n = Some bs"
    and "in_user_range dst n" and "write_bytes m2 (ub_ptr dst) bs = (m2', True)"
  shows "\<exists>kb'. kbuf_write kb m buf len = (kb', Ok n) \<and> kbuf_wf kb' \<and> kbuf_content kb' = kbuf_content kb @ bs \<and>
    kbuf_read kb' m2 (kbuf_get_length kb) dst n = (m2', Ok n)"
proof -
  obtain kb' where kb': "kbuf_write kb m buf len = (kb', Ok n)" "kbuf_wf kb'" "kbuf_content kb' = kbuf_content kb @ bs"
    "offset kb' = offset kb + n" using kbuf_write_ok [OF assms(1,2,4,5)] by blast
  have lc: "length (kbuf_content kb) = offset kb"
    using assms(1) length_concat_pages [of "kb_pages kb"] by (simp add: kbuf_content_def kbuf_wf_def)
  have "take n (drop (offset kb) (kbuf_content kb')) = bs"
    using kb'(3) lc length_read_bytes [OF assms(5)] by simp
  moreover have "offset kb + n < 2 ^ 32" using kb'(2,4) by (simp add: kbuf_wf_def)
  ultimately have "kbuf_read kb' m2 (offset kb) dst n = (m2', Ok n)"
    using kbuf_read_ok [OF kb'(2), of "offset kb" n n dst m2 m2'] assms(3,6,7) kb'(4) by simp
  with kb' show ?thesis by (auto simp: kbuf_get_length_def)
qed

theorem kbuf_write_read_witness:
  "\<exists>kb'. kbuf_write \<lparr>kb_pages = [replicate 4096 0], kb_page_count = 1, offset = 4095\<rparr> (\<lambda>_. Some 7) (make_user_buffer 0x1000) 5 = (kb', Ok 1) \<and>
     kbuf_read kb' (\<lambda>_. Some 0) 4095 (make_user_buffer 0x2000) 1 = ((\<lambda>_. Some 0)(0x2000 \<mapsto> 7), Ok 1)"
proof -
  let ?kb = "\<lparr>kb_pages = [replicate 4096 0], kb_page_count = 1, offset = 4095\<rparr> :: kbuf"
  have "kbuf_wf ?kb" "1 = min 5 (kbuf_get_free_length ?kb)" "in_user_range (make_user_buffer 0x1000) 1"
    "read_bytes (\<lambda>_. Some 7) (ub_ptr (make_user_buffer 0x1000)) 1 = Some [7]" "in_user_range (make_user_buffer 0x2000) 1"
    "write_bytes (\<lambda>_. Some 0) (ub_ptr (make_user_buffer 0x2000)) [7] = ((\<lambda>_. Some 0)(0x2000 \<mapsto> 7), True)"
    by (simp_all add: kbuf_wf_def kbuf_get_free_length_def kbuf_get_total_length_def in_user_range_def make_user_buffer_def)
  from kbuf_write_read [OF this(1,2) _ this(3-6)] show ?thesis by (auto simp: kbuf_get_length_def)
qed

lemma kbuf_read_loop_len:
  "po < 4096 \<Longrightarrow> i + (4096 * length ps - po) \<le> len \<Longrightarrow>
   kbuf_read_loop m buf ps po i len = kbuf_read_loop m buf ps po i (i + (4096 * length ps - po))"
proof (induction ps arbitrary: po i m)
  case (Cons p ps)
  let ?l = "i + (4096 * length (p # ps) - po)"
  have c: "(if len - i > 4096 - po then 4096 - po else len - i) = 4096 - po"
    "(if ?l - i > 4096 - po then 4096 - po else ?l - i) = 4096 - po" "i < len" "i < ?l" using Cons.prems by auto
  have e: "?l = i + (4096 - po) + (4096 * length ps - 0)" using Cons.prems(1) by simp
  have "kbuf_read_loop m1 buf ps 0 (i + (4096 - po)) len = kbuf_read_loop m1 buf ps 0 (i + (4096 - po)) ?l" for m1
    unfolding e by (rule Cons.IH) (use Cons.prems in auto)
  then show ?case unfolding kbuf_read_loop.simps Let_def c(1,2) if_P [OF c(3)] if_P [OF c(4)] by (simp only:)
qed simp

text \<open>
  A read that starts behind the contents, but still in an allocated page, does not return
  0: the difference of length and position wraps around, so the read ignores the requested length and copies everything from the
  position to the end of the last page, bytes that were never written to the buffer.
\<close>

theorem kbuf_read_past_end:
  assumes wf: "kbuf_wf kb" and l: "offset kb < loc" "loc < 4096 * length (kb_pages kb)" "0 < len" "loc + len < 2 ^ 32"
    and n: "n = 4096 * length (kb_pages kb) - loc" "in_user_range buf n"
    and m: "write_bytes m (ub_ptr buf) (drop loc (concat (kb_pages kb))) = (m', True)"
  shows "kbuf_read kb m loc buf len = (m', Ok n)"
proof -
  let ?ps = "kbuf_get_cur_page kb loc" and ?L = "(offset kb + 2 ^ 32 - loc) mod 2 ^ 32"
  have w: "list_all (\<lambda>p. length p = 4096) (kb_pages kb)" "4096 * length (kb_pages kb) < 2 ^ 32" using wf by (auto simp: kbuf_wf_def)
  have wp: "list_all (\<lambda>p. length p = 4096) ?ps" using w(1) unfolding kbuf_get_cur_page_def list_all_iff by (meson in_set_dropD)
  have cp: "concat ?ps = drop (4096 * (loc div 4096)) (concat (kb_pages kb))"
    unfolding kbuf_get_cur_page_def by (rule concat_drop_pages [OF w(1)])
  have d: "drop (loc mod 4096) (concat ?ps) = drop loc (concat (kb_pages kb))" unfolding cp by simp
  have "length (drop loc (concat (kb_pages kb))) = n" using length_concat_pages [OF w(1)] n(1) by simp
  then have m2: "write_bytes m (ub_ptr buf + of_nat 0) (take (n - 0) (drop (loc mod 4096) (concat ?ps))) = (m', True)"
    using m unfolding d by simp
  have lp: "length ?ps = length (kb_pages kb) - loc div 4096" by (simp add: kbuf_get_cur_page_def)
  have k: "4096 * (loc div 4096) + loc mod 4096 = loc"
    "4096 * (length (kb_pages kb) - loc div 4096) = 4096 * length (kb_pages kb) - 4096 * (loc div 4096)"
    by (simp_all add: diff_mult_distrib2)
  have b: "4096 * length ?ps - loc mod 4096 = n" "n - 0 + loc mod 4096 \<le> 4096 * length ?ps"
    unfolding lp using k n(1) l(2) by linarith+
  have "?L = offset kb + 2 ^ 32 - loc" using l by simp
  then have "n \<le> ?L" using n(1) w(2) by linarith
  then have "kbuf_read_loop m buf ?ps (loc mod 4096) 0 ?L = kbuf_read_loop m buf ?ps (loc mod 4096) 0 n"
    using kbuf_read_loop_len [of "loc mod 4096" 0 ?ps ?L m buf] b(1) by simp
  also have "\<dots> = (m', Ok n)" by (rule kbuf_read_loop_ok [OF n(2) wp _ _ b(2) m2]) simp_all
  finally have loop: "kbuf_read_loop m buf ?ps (loc mod 4096) 0 ?L = (m', Ok n)" .
  have "loc div 4096 < length (kb_pages kb)" using k(1) l(2) by linarith
  then have ne: "?ps \<noteq> []" using lp by (metis length_0_conv less_numeral_extra(3) zero_less_diff)
  have "kbuf_get_length kb < (loc + len) mod 2 ^ 32" using l by (simp add: kbuf_get_length_def)
  then have e: "(if kbuf_get_length kb < (loc + len) mod 2 ^ 32 then (kbuf_get_length kb + 2 ^ 32 - loc) mod 2 ^ 32 else len) = ?L"
    unfolding kbuf_get_length_def by (rule if_P)
  obtain q qs where q: "?ps = q # qs" using ne by (cases ?ps) auto
  show ?thesis using loop unfolding kbuf_read_def Let_def e q list.case .
qed

theorem kbuf_read_past_end_witness:
  "kbuf_read \<lparr>kb_pages = [replicate 4096 0], kb_page_count = 1, offset = 5\<rparr> (\<lambda>_. Some 1) 4094 (make_user_buffer 0x1000) 1 =
     ((\<lambda>_. Some 1)(0x1000 \<mapsto> 0, 0x1001 \<mapsto> 0), Ok 2)"
proof (rule kbuf_read_past_end)
  have "replicate 2 (0 :: u8) = [0, 0]" by (simp add: numeral_2_eq_2)
  then show "write_bytes (\<lambda>_. Some 1) (ub_ptr (make_user_buffer 0x1000)) (drop 4094
      (concat (kb_pages \<lparr>kb_pages = [replicate 4096 0], kb_page_count = 1, offset = 5\<rparr>))) =
    ((\<lambda>_. Some 1)(0x1000 \<mapsto> 0, 0x1001 \<mapsto> 0), True)" by (simp add: make_user_buffer_def)
qed (simp_all add: kbuf_wf_def make_user_buffer_def in_user_range_def)

end
