(* ===== verification/Bitops.thy ===== *)
theory Bitops
  imports Prelude
begin

text \<open>
  Bitmaps: \<^verbatim>\<open>arch/x86/include/arch/bitops.h\<close> and the id allocator \<^verbatim>\<open>src/kernel/ida.c\<close>. A bitmap is its list of
  bytes, bit \<open>i\<close> being bit \<open>i mod 8\<close> of byte \<open>i div 8\<close>; an access outside of it is \<^term>\<open>None\<close>. The atomic
  instructions are modelled by their effect, and the result of a search is an \<^verbatim>\<open>int\<close>, -1 if nothing was found.
\<close>

section \<open>Model\<close>

definition bit_test :: "u8 list \<Rightarrow> nat \<Rightarrow> bool option" where
  "bit_test bs i = (if i div 8 < length bs then Some (bit (bs ! (i div 8)) (i mod 8)) else None)"

definition bit_set :: "u8 list \<Rightarrow> nat \<Rightarrow> u8 list option" where
  "bit_set bs i =
     (if i div 8 < length bs then Some (bs[i div 8 := bs ! (i div 8) OR push_bit (i mod 8) 1]) else None)"

definition bit_clear :: "u8 list \<Rightarrow> nat \<Rightarrow> u8 list option" where
  "bit_clear bs i =
     (if i div 8 < length bs then Some (bs[i div 8 := bs ! (i div 8) AND NOT (push_bit (i mod 8) 1)]) else None)"

text \<open>The inner loop, with the shifted byte \<open>c\<close>, from bit \<open>k\<close> for \<open>n\<close> bits.\<close>

fun byte_scan :: "bool \<Rightarrow> u8 \<Rightarrow> nat \<Rightarrow> nat \<Rightarrow> nat option" where
  "byte_scan want c k 0 = None"
| "byte_scan want c k (Suc n) =
     (if (c AND 1 \<noteq> 0) = want then Some k else byte_scan want (drop_bit 1 c) (k + 1) n)"

text \<open>
  The outer loop from byte \<open>i\<close> for \<open>n\<close> bytes. A byte equal to \<open>skip\<close> is passed over without resetting the
  start bit, as the \<^verbatim>\<open>continue\<close> does.
\<close>

fun find_loop :: "bool \<Rightarrow> u8 \<Rightarrow> u8 list \<Rightarrow> nat \<Rightarrow> nat \<Rightarrow> nat \<Rightarrow> int option" where
  "find_loop want skip bs i start_bit 0 = Some (-1)"
| "find_loop want skip bs i start_bit (Suc n) =
     (if i \<ge> length bs then None
      else if bs ! i = skip then find_loop want skip bs (i + 1) start_bit n
      else case byte_scan want (drop_bit start_bit (bs ! i)) start_bit (8 - start_bit) of
             Some k \<Rightarrow> Some (int (i * 8 + k))
           | None \<Rightarrow> find_loop want skip bs (i + 1) 0 n)"

definition bit_find_next_zero :: "u8 list \<Rightarrow> nat \<Rightarrow> nat \<Rightarrow> int option" where
  "bit_find_next_zero bs bytes start_loc =
     find_loop False 0xFF bs (start_loc div 8) (start_loc mod 8) (bytes - start_loc div 8)"

definition bit_find_first_zero :: "u8 list \<Rightarrow> nat \<Rightarrow> int option" where
  "bit_find_first_zero bs bytes = bit_find_next_zero bs bytes 0"

definition bit_find_next_set :: "u8 list \<Rightarrow> nat \<Rightarrow> nat \<Rightarrow> int option" where
  "bit_find_next_set bs bytes start_loc =
     find_loop True 0 bs (start_loc div 8) (start_loc mod 8) (bytes - start_loc div 8)"

fun bit32_find_first_set_from :: "u32 \<Rightarrow> nat \<Rightarrow> nat \<Rightarrow> int" where
  "bit32_find_first_set_from v k 0 = -1"
| "bit32_find_first_set_from v k (Suc n) = (if bit v k then int k else bit32_find_first_set_from v (k + 1) n)"

definition bit32_find_first_set :: "u32 \<Rightarrow> int" where
  "bit32_find_first_set v = bit32_find_first_set_from v 0 32"

subsection \<open>The id allocator\<close>

record ida =
  total_ids :: nat
  ids :: "u8 list"

definition ida_init :: "u8 list \<Rightarrow> nat \<Rightarrow> ida" where
  "ida_init bs n = \<lparr>total_ids = n, ids = bs\<rparr>"

text \<open>The search is given the rounded number of ids as a number of bytes.\<close>

definition ida_getid :: "ida \<Rightarrow> (int \<times> ida) option" where
  "ida_getid ida =
     (case bit_find_first_zero (ids ida) ((total_ids ida + 3) div 4 * 4) of
        None \<Rightarrow> None
      | Some i \<Rightarrow>
          if i = -1 \<or> i \<ge> int (total_ids ida) then Some (-1, ida)
          else map_option (\<lambda>bs. (i, ida\<lparr>ids := bs\<rparr>)) (bit_set (ids ida) (nat i)))"

definition ida_putid :: "ida \<Rightarrow> nat \<Rightarrow> ida option" where
  "ida_putid ida i = map_option (\<lambda>bs. ida\<lparr>ids := bs\<rparr>) (bit_clear (ids ida) i)"

section \<open>Bitmaps as sets of numbers\<close>

definition bit_at :: "u8 list \<Rightarrow> nat \<Rightarrow> bool" where
  "bit_at bs i \<longleftrightarrow> i < 8 * length bs \<and> bit (bs ! (i div 8)) (i mod 8)"

lemma bit_set_at: "bit_set bs i = Some bs' \<Longrightarrow> length bs' = length bs \<and> (\<forall>j. bit_at bs' j \<longleftrightarrow> j = i \<or> bit_at bs j)"
proof -
  assume a: "bit_set bs i = Some bs'"
  then have i: "i div 8 < length bs" and bs': "bs' = bs[i div 8 := bs ! (i div 8) OR push_bit (i mod 8) 1]"
    by (auto simp: bit_set_def split: if_splits)
  have "bit_at bs' j \<longleftrightarrow> j = i \<or> bit_at bs j" for j
  proof (cases "j div 8 = i div 8")
    case True
    then have "j = i \<longleftrightarrow> j mod 8 = i mod 8" by (metis div_mult_mod_eq)
    moreover have "j < 8 * length bs" using True i by auto
    ultimately show ?thesis using True i unfolding bit_at_def bs'
      by (auto simp: bit_simps)
  next
    case False
    then show ?thesis using i unfolding bit_at_def bs' by (auto simp: nth_list_update)
  qed
  then show ?thesis by (simp add: bs')
qed

lemma bit_clear_at: "bit_clear bs i = Some bs' \<Longrightarrow> length bs' = length bs \<and> (\<forall>j. bit_at bs' j \<longleftrightarrow> j \<noteq> i \<and> bit_at bs j)"
proof -
  assume a: "bit_clear bs i = Some bs'"
  then have i: "i div 8 < length bs" and bs': "bs' = bs[i div 8 := bs ! (i div 8) AND NOT (push_bit (i mod 8) 1)]"
    by (auto simp: bit_clear_def split: if_splits)
  have "bit_at bs' j \<longleftrightarrow> j \<noteq> i \<and> bit_at bs j" for j
  proof (cases "j div 8 = i div 8")
    case True
    then have "j = i \<longleftrightarrow> j mod 8 = i mod 8" by (metis div_mult_mod_eq)
    moreover have "j < 8 * length bs" using True i by auto
    ultimately show ?thesis using True i unfolding bit_at_def bs'
      by (auto simp: bit_simps)
  next
    case False
    then show ?thesis using i unfolding bit_at_def bs' by (auto simp: nth_list_update)
  qed
  then show ?thesis by (simp add: bs')
qed

lemma byte_scan_correct:
  "byte_scan want c k n =
     (if \<exists>j<n. bit c j = want then Some (k + (LEAST j. bit c j = want)) else None)"
proof (induction n arbitrary: c k)
  case (Suc n)
  have c0: "(c AND 1 \<noteq> 0) = bit c 0" by (simp add: bit_0 odd_iff_mod_2_eq_one and_one_eq)
  show ?case
  proof (cases "bit c 0 = want")
    case True
    then have "(LEAST j. bit c j = want) = 0" by (simp add: Least_eq_0)
    then show ?thesis using True c0 by auto
  next
    case False
    have d: "bit (drop_bit (Suc 0) c) j = bit c (Suc j)" for j by (simp add: bit_drop_bit_eq)
    have ex: "(\<exists>j<Suc n. bit c j = want) \<longleftrightarrow> (\<exists>j<n. bit c (Suc j) = want)"
      using False by (metis Suc_less_eq less_Suc_eq_0_disj)
    have "(LEAST j. bit c j = want) = Suc (LEAST j. bit c (Suc j) = want)" if "\<exists>j<n. bit c (Suc j) = want"
    proof -
      from that obtain j where "bit c (Suc j) = want" by blast
      then show ?thesis using Least_Suc [of "\<lambda>j. bit c j = want" "Suc j"] False by simp
    qed
    then show ?thesis using False c0 by (simp add: Suc.IH d ex)
  qed
qed simp

text \<open>The bit the search is after, at position \<open>j\<close>, and what a search from byte \<open>i\<close> over \<open>n\<close> bytes must return.\<close>

definition found :: "bool \<Rightarrow> u8 list \<Rightarrow> nat \<Rightarrow> nat \<Rightarrow> int \<Rightarrow> bool" where
  "found want bs lo hi r \<longleftrightarrow>
     (r = -1 \<and> (\<forall>j. lo \<le> j \<longrightarrow> j < hi \<longrightarrow> bit_at bs j \<noteq> want)) \<or>
     (\<exists>j. r = int j \<and> lo \<le> j \<and> j < hi \<and> bit_at bs j = want \<and> (\<forall>j'. lo \<le> j' \<longrightarrow> j' < j \<longrightarrow> bit_at bs j' \<noteq> want))"

lemma bit_at_byte: "i < length bs \<Longrightarrow> k < 8 \<Longrightarrow> bit_at bs (i * 8 + k) = bit (bs ! i) k"
  by (simp add: bit_at_def)

lemma found_step:
  assumes "found want bs (8 * (i + 1)) hi r" and "i < length bs" and "\<forall>k<8. bit (bs ! i) k \<noteq> want"
  shows "found want bs (8 * i) hi r"
proof -
  have n: "bit_at bs j \<noteq> want" if "8 * i \<le> j" "j < 8 * (i + 1)" for j
    using bit_at_byte [OF assms(2), of "j - i * 8"] assms(3) that by auto
  from assms(1) consider "r = -1" "\<forall>j. 8 * (i + 1) \<le> j \<longrightarrow> j < hi \<longrightarrow> bit_at bs j \<noteq> want"
    | j where "r = int j" "8 * (i + 1) \<le> j" "j < hi" "bit_at bs j = want" "\<forall>j'. 8 * (i + 1) \<le> j' \<longrightarrow> j' < j \<longrightarrow> bit_at bs j' \<noteq> want"
    unfolding found_def by blast
  then show ?thesis
  proof cases
    case 1
    then show ?thesis unfolding found_def using n by (metis not_le)
  next
    case 2
    then have "8 * i \<le> j" by simp
    with 2 show ?thesis unfolding found_def using n by (metis not_le)
  qed
qed

lemma find_loop_correct:
  assumes "\<forall>k<8. bit skip k \<noteq> want"
  shows "i + n \<le> length bs \<Longrightarrow> \<exists>r. find_loop want skip bs i 0 n = Some r \<and> found want bs (8 * i) (8 * (i + n)) r"
proof (induction n arbitrary: i)
  case 0
  then show ?case by (simp add: found_def)
next
  case (Suc n)
  then have i: "i < length bs" by simp
  have IH: "\<exists>r. find_loop want skip bs (i + 1) 0 n = Some r \<and> found want bs (8 * (i + 1)) (8 * (i + Suc n)) r"
    using Suc.IH [of "i + 1"] Suc.prems by simp
  show ?case
  proof (cases "\<exists>k<8. bit (bs ! i) k = want")
    case False
    then have "\<forall>k<8. bit (bs ! i) k \<noteq> want" by blast
    from IH found_step [OF _ i this] have "\<exists>r. find_loop want skip bs (i + 1) 0 n = Some r \<and> found want bs (8 * i) (8 * (i + Suc n)) r"
      by blast
    moreover have "byte_scan want (drop_bit 0 (bs ! i)) 0 (8 - 0) = None" using False unfolding byte_scan_correct by auto
    ultimately show ?thesis using i by simp
  next
    case True
    then have ns: "bs ! i \<noteq> skip" using assms by auto
    let ?k = "LEAST k. bit (bs ! i) k = want"
    obtain k where k: "k < 8" "bit (bs ! i) k = want" using True by blast
    then have lk: "bit (bs ! i) ?k = want" "?k \<le> k"
      using LeastI [of "\<lambda>k. bit (bs ! i) k = want" k] Least_le [of "\<lambda>k. bit (bs ! i) k = want" k] by simp_all
    have "bit_at bs j' \<noteq> want" if "8 * i \<le> j'" "j' < i * 8 + ?k" for j'
      using bit_at_byte [OF i, of "j' - i * 8"] not_less_Least [of "j' - i * 8" "\<lambda>k. bit (bs ! i) k = want"] that lk k by auto
    then have "found want bs (8 * i) (8 * (i + Suc n)) (int (i * 8 + ?k))"
      unfolding found_def using bit_at_byte [OF i, of ?k] lk k by (intro disjI2 exI [of _ "i * 8 + ?k"]) auto
    then show ?thesis using i ns True by (simp add: byte_scan_correct)
  qed
qed

lemma byte_scan_bound: "byte_scan want c k n = Some j \<Longrightarrow> k \<le> j \<and> j < k + n"
  by (induction n arbitrary: c k) (force split: if_splits)+

lemma find_loop_bounds:
  "i + n \<le> length bs \<Longrightarrow> sb < 8 \<Longrightarrow>
   \<exists>r. find_loop want skip bs i sb n = Some r \<and> (r = -1 \<or> 0 \<le> r \<and> r < int (8 * (i + n)))"
proof (induction n arbitrary: i sb)
  case (Suc n)
  have rest: "\<exists>r. find_loop want skip bs (i + 1) s n = Some r \<and> (r = -1 \<or> 0 \<le> r \<and> r < int (8 * (i + Suc n)))" if "s < 8" for s
    using Suc.IH [of "i + 1" s] Suc.prems that by fastforce
  show ?case
  proof (cases "byte_scan want (drop_bit sb (bs ! i)) sb (8 - sb)")
    case None
    then show ?thesis using rest [of 0] rest [OF Suc.prems(2)] Suc.prems by auto
  next
    case (Some k)
    then have "k < 8" using byte_scan_bound [OF Some] Suc.prems(2) by simp
    then show ?thesis using Some rest [OF Suc.prems(2)] Suc.prems by auto
  qed
qed simp

lemma all_ones_u8: "bit (0xFF :: u8) k = (k < 8)"
proof -
  have e: "(0xFF :: u8) = mask 8" by (simp add: mask_eq_exp_minus_1)
  show ?thesis unfolding e bit_mask_iff by simp
qed

lemma skip_bytes: "\<forall>k<8. bit (0xFF :: u8) k \<noteq> False" "\<forall>k<8. bit (0 :: u8) k \<noteq> True"
  unfolding all_ones_u8 by simp_all

lemma bit_find_first_zero_correct:
  "n \<le> length bs \<Longrightarrow> \<exists>r. bit_find_first_zero bs n = Some r \<and> found False bs 0 (8 * n) r"
  using find_loop_correct [OF skip_bytes(1), of 0 n bs] by (simp add: bit_find_first_zero_def bit_find_next_zero_def)

section \<open>Properties\<close>

text \<open>
  From a start position on a byte boundary, the two searches return the least clear (set) bit at or
  after it inside the first \<open>n\<close> bytes, or -1 if there is none.
\<close>

theorem bit_find_next_correct:
  assumes "start mod 8 = 0" and "start div 8 \<le> n" and "n \<le> length bs"
  shows "(\<exists>r. bit_find_next_zero bs n start = Some r \<and> found False bs start (8 * n) r) \<and>
    (\<exists>r. bit_find_next_set bs n start = Some r \<and> found True bs start (8 * n) r)"
proof -
  have s: "8 * (start div 8) = start" "start div 8 + (n - start div 8) = n" using assms by auto
  show ?thesis
    using find_loop_correct [OF skip_bytes(1), of "start div 8" "n - start div 8" bs]
      find_loop_correct [OF skip_bytes(2), of "start div 8" "n - start div 8" bs] assms s
    by (simp add: bit_find_next_zero_def bit_find_next_set_def)
qed

theorem bit_find_next_correct_witness:
  "\<exists>r. bit_find_next_zero [0xFF, 0xFF, 0xF7] 3 8 = Some r \<and> found False [0xFF, 0xFF, 0xF7] 8 24 r"
  using bit_find_next_correct [of 8 3 "[0xFF, 0xFF, 0xF7]"] by simp



end
