(* ===== verification/VtScroll.thy ===== *)
theory VtScroll
  imports Bitops
begin

text \<open>
  The screen operations of the virtual terminal: \<^verbatim>\<open>src/drivers/char/vt_scroll.c\<close>, with the terminal's state
  from \<^verbatim>\<open>include/protura/drivers/vt.h\<close>. The screen is one array of character cells, row after row. A store
  or a \<^verbatim>\<open>memmove\<close> that leaves the array is \<^term>\<open>None\<close>. Positions are \<^verbatim>\<open>int\<close>s and may be negative.
\<close>

section \<open>State\<close>

record screen_char =
  chr :: u8
  clr :: u8

datatype vt_state =
  VT_STATE_BEGIN | VT_STATE_ESC | VT_STATE_LBRACKET | VT_STATE_NUMBERSIGN | VT_STATE_OPENPAREN | VT_STATE_CLOSEPAREN

text \<open>What the terminal sends back to its tty: the strings of \<^verbatim>\<open>vt_esc_report\<close> and \<^verbatim>\<open>vt_esc_who_are_you\<close>.\<close>

datatype vt_answer = CursorReport int int | StatusOk | Identity

record vt =
  scr_buf :: "screen_char list"
  rows :: int
  cols :: int
  cur_row :: int
  cur_col :: int
  scroll_top :: int
  scroll_bottom :: int
  fg_color :: u8
  bg_color :: u8
  cur_attrs :: u32
  saved_cur_row :: int
  saved_cur_col :: int
  saved_fg_color :: u8
  saved_bg_color :: u8
  saved_cur_attrs :: u32
  wrap_next :: bool
  dec_private :: bool
  wrap_on :: bool
  cursor_is_on :: bool
  origin_mode :: bool
  insert_mode :: bool
  tab_stops :: "u8 list"
  early_init :: bool
  state :: vt_state
  esc_param_count :: nat
  esc_params :: "int list"
  has_tty :: bool
  tty_input :: "vt_answer list"

section \<open>Cells\<close>

definition store_cells :: "screen_char list \<Rightarrow> int \<Rightarrow> screen_char list \<Rightarrow> screen_char list option" where
  "store_cells buf i xs =
     (if 0 \<le> i \<and> i + int (length xs) \<le> int (length buf)
      then Some (take (nat i) buf @ xs @ drop (nat i + length xs) buf) else None)"

definition memmove_cells :: "screen_char list \<Rightarrow> int \<Rightarrow> int \<Rightarrow> int \<Rightarrow> screen_char list option" where
  "memmove_cells buf dst src n =
     (if 0 \<le> n \<and> 0 \<le> src \<and> src + n \<le> int (length buf)
      then store_cells buf dst (take (nat n) (drop (nat src) buf)) else None)"

definition fill_cells :: "screen_char list \<Rightarrow> int \<Rightarrow> int \<Rightarrow> screen_char \<Rightarrow> screen_char list option" where
  "fill_cells buf i n x = (if n \<le> 0 then Some buf else store_cells buf i (replicate (nat n) x))"

text \<open>The index of \<^verbatim>\<open>vt_char(vt, r, c)\<close>, and the loops that fill the columns \<open>c0\<close> to \<open>c1\<close> of some rows.\<close>

definition vt_char :: "vt \<Rightarrow> int \<Rightarrow> int \<Rightarrow> int" where
  "vt_char vt r c = r * cols vt + c"

fun fill_rows :: "vt \<Rightarrow> int list \<Rightarrow> int \<Rightarrow> int \<Rightarrow> screen_char \<Rightarrow> vt option" where
  "fill_rows vt [] c0 c1 x = Some vt"
| "fill_rows vt (r # rs) c0 c1 x =
     (case fill_cells (scr_buf vt) (vt_char vt r c0) (c1 - c0) x of
        None \<Rightarrow> None
      | Some b \<Rightarrow> fill_rows (vt\<lparr>scr_buf := b\<rparr>) rs c0 c1 x)"

definition screen_make_color :: "u8 \<Rightarrow> u8 \<Rightarrow> u8" where
  "screen_make_color fg bg = push_bit 4 bg OR fg"

definition SCR_DEF_FORGROUND :: u8 where "SCR_DEF_FORGROUND = 7"

definition SCR_DEF_BACKGROUND :: u8 where "SCR_DEF_BACKGROUND = 0"

definition blank_cell :: screen_char where
  "blank_cell = \<lparr>chr = 32, clr = screen_make_color SCR_DEF_FORGROUND SCR_DEF_BACKGROUND\<rparr>"

section \<open>Operations\<close>

definition u_vt_clear_color :: "vt \<Rightarrow> u8 \<Rightarrow> vt option" where
  "u_vt_clear_color vt color = fill_rows vt [0..rows vt - 1] 0 (cols vt) \<lparr>chr = 32, clr = color\<rparr>"

definition u_vt_clear_to_end :: "vt \<Rightarrow> vt option" where
  "u_vt_clear_to_end vt =
     do {
       vt' \<leftarrow> fill_rows vt (if cur_row vt < rows vt then [cur_row vt] else []) (cur_col vt) (cols vt) blank_cell;
       fill_rows vt' [cur_row vt + 1..rows vt - 1] 0 (cols vt) blank_cell
     }"

definition u_vt_clear_to_cursor :: "vt \<Rightarrow> vt option" where
  "u_vt_clear_to_cursor vt =
     do {
       vt' \<leftarrow> fill_rows vt [0..cur_row vt - 1] 0 (cols vt) blank_cell;
       fill_rows vt' (if 0 \<le> cur_row vt then [cur_row vt] else []) 0 (cur_col vt + 1) blank_cell
     }"

definition u_vt_clear_line_to_end :: "vt \<Rightarrow> vt option" where
  "u_vt_clear_line_to_end vt = fill_rows vt [cur_row vt] (cur_col vt) (cols vt) blank_cell"

definition u_vt_clear_line_to_cursor :: "vt \<Rightarrow> vt option" where
  "u_vt_clear_line_to_cursor vt = fill_rows vt [cur_row vt] 0 (cur_col vt + 1) blank_cell"

definition u_vt_clear_line :: "vt \<Rightarrow> vt option" where
  "u_vt_clear_line vt = fill_rows vt [cur_row vt] 0 (cols vt) blank_cell"

definition u_vt_clear :: "vt \<Rightarrow> vt option" where
  "u_vt_clear vt = u_vt_clear_color vt (screen_make_color SCR_DEF_FORGROUND SCR_DEF_BACKGROUND)"

text \<open>In \<^verbatim>\<open>__vt_scroll\<close> the number of rows to move is \<^verbatim>\<open>max_row - lines\<close>, counted from row 0.\<close>

definition u_vt_scroll :: "vt \<Rightarrow> int \<Rightarrow> vt option" where
  "u_vt_scroll vt lines =
     (let min_row = scroll_top vt; max_row = scroll_bottom vt
      in if lines \<le> 0 then Some vt
         else let total = max_row - min_row; lines = (if lines > total then total else lines)
         in do {
              b \<leftarrow> (if lines < total
                    then memmove_cells (scr_buf vt) (vt_char vt min_row 0) (vt_char vt (lines + min_row) 0) (cols vt * (max_row - lines))
                    else Some (scr_buf vt));
              fill_rows (vt\<lparr>scr_buf := b\<rparr>) (map (\<lambda>r. max_row - r - 1) [0..lines - 1]) 0 (cols vt) blank_cell
            })"

definition u_vt_scroll_from_cursor :: "vt \<Rightarrow> int \<Rightarrow> vt option" where
  "u_vt_scroll_from_cursor vt lines =
     (let max_row = scroll_bottom vt; start_row = cur_row vt; total = max_row - start_row;
          lines = (if lines > total then total else lines)
      in do {
           b \<leftarrow> (if lines < total
                 then memmove_cells (scr_buf vt) (vt_char vt start_row 0) (vt_char vt (start_row + lines) 0) (cols vt * (total - lines))
                 else Some (scr_buf vt));
           fill_rows (vt\<lparr>scr_buf := b\<rparr>) [max_row - lines..max_row - 1] 0 (cols vt) blank_cell
         })"

definition u_vt_scroll_up_from_cursor :: "vt \<Rightarrow> int \<Rightarrow> vt option" where
  "u_vt_scroll_up_from_cursor vt lines =
     (let max_row = scroll_bottom vt; start_row = cur_row vt; total = max_row - start_row;
          lines = (if lines > total then total else lines)
      in do {
           b \<leftarrow> (if lines < total
                 then memmove_cells (scr_buf vt) (vt_char vt (start_row + lines) 0) (vt_char vt start_row 0) (cols vt * (total - lines))
                 else Some (scr_buf vt));
           fill_rows (vt\<lparr>scr_buf := b\<rparr>) [start_row..start_row + lines - 1] 0 (cols vt) blank_cell
         })"

definition u_vt_shift_left_from_cursor :: "vt \<Rightarrow> int \<Rightarrow> vt option" where
  "u_vt_shift_left_from_cursor vt chars =
     (let start_col = cur_col vt; total = cols vt - start_col; chars = (if chars > total then total else chars)
      in do {
           b \<leftarrow> (if chars < total
                 then memmove_cells (scr_buf vt) (vt_char vt (cur_row vt) start_col) (vt_char vt (cur_row vt) (start_col + chars)) (total - chars)
                 else Some (scr_buf vt));
           fill_rows (vt\<lparr>scr_buf := b\<rparr>) [cur_row vt] (cols vt - chars) (cols vt) blank_cell
         })"

definition u_vt_shift_right_from_cursor :: "vt \<Rightarrow> int \<Rightarrow> vt option" where
  "u_vt_shift_right_from_cursor vt chars =
     (let start_col = cur_col vt; total = cols vt - start_col; chars = (if chars > total then total else chars)
      in do {
           b \<leftarrow> (if chars < total
                 then memmove_cells (scr_buf vt) (vt_char vt (cur_row vt) (start_col + chars)) (vt_char vt (cur_row vt) start_col)
                        (cols vt - chars - start_col)
                 else Some (scr_buf vt));
           fill_rows (vt\<lparr>scr_buf := b\<rparr>) [cur_row vt] (cur_col vt) (cur_col vt + chars) blank_cell
         })"

section \<open>The operations stay on the screen\<close>

definition vt_geom :: "vt \<Rightarrow> bool" where
  "vt_geom vt \<longleftrightarrow> 0 < rows vt \<and> rows vt < 256 \<and> 0 < cols vt \<and> cols vt < 256 \<and> int (length (scr_buf vt)) = rows vt * cols vt \<and>
     0 \<le> scroll_top vt \<and> scroll_top vt < scroll_bottom vt \<and> scroll_bottom vt \<le> rows vt"

definition on_screen :: "vt \<Rightarrow> bool" where
  "on_screen vt \<longleftrightarrow> 0 \<le> cur_row vt \<and> cur_row vt < rows vt \<and> 0 \<le> cur_col vt \<and> cur_col vt < cols vt"

text \<open>An operation that only redraws: it returns, and changes nothing but the contents of the cells.\<close>

definition redraws :: "vt \<Rightarrow> vt option \<Rightarrow> bool" where
  "redraws vt vto \<longleftrightarrow> (\<exists>b. vto = Some (vt\<lparr>scr_buf := b\<rparr>) \<and> length b = length (scr_buf vt))"

lemma store_cells_length: "store_cells buf i xs = Some b \<Longrightarrow> length b = length buf"
  by (auto simp: store_cells_def split: if_splits)

lemma row_in_bounds:
  assumes "0 \<le> r" and "r < n" and "0 \<le> c" and "c \<le> m" and "0 < (m :: int)"
  shows "0 \<le> r * m + c" "r * m + c \<le> n * m"
proof -
  have "(r + 1) * m \<le> n * m" using assms by (intro mult_right_mono) auto
  then show "r * m + c \<le> n * m" using assms(4) by (simp add: algebra_simps)
qed (use assms in simp)

lemma fill_cells_ok:
  assumes "0 \<le> i" and "0 < n \<longrightarrow> i + n \<le> int (length buf)"
  shows "\<exists>b. fill_cells buf i n x = Some b \<and> length b = length buf"
  using assms by (auto simp: fill_cells_def store_cells_def)

lemma redraws_refl: "redraws vt (Some vt)"
  unfolding redraws_def by (intro exI [of _ "scr_buf vt"]) simp

lemma redraws_bind:
  assumes "redraws vt x" and "\<And>b. length b = length (scr_buf vt) \<Longrightarrow> redraws (vt\<lparr>scr_buf := b\<rparr>) (f (vt\<lparr>scr_buf := b\<rparr>))"
  shows "redraws vt (Option.bind x f)"
proof -
  obtain b where b: "x = Some (vt\<lparr>scr_buf := b\<rparr>)" "length b = length (scr_buf vt)" using assms(1) by (auto simp: redraws_def)
  with assms(2) [OF b(2)] show ?thesis by (auto simp: redraws_def)
qed

lemma vt_geom_redraw [simp]: "length b = length (scr_buf vt) \<Longrightarrow> vt_geom (vt\<lparr>scr_buf := b\<rparr>) = vt_geom vt"
  by (simp add: vt_geom_def)

lemma on_screen_redraw [simp]: "on_screen (vt\<lparr>scr_buf := b\<rparr>) = on_screen vt"
  by (simp add: on_screen_def)

lemma fill_rows_redraws:
  assumes "vt_geom vt" and "\<forall>r\<in>set rs. 0 \<le> r \<and> r < rows vt" and "0 \<le> c0" and "c1 \<le> cols vt"
  shows "redraws vt (fill_rows vt rs c0 c1 x)"
  using assms
proof (induction rs arbitrary: vt)
  case Nil
  then show ?case by (simp add: redraws_refl)
next
  case (Cons r rs)
  have g: "0 < cols vt" "int (length (scr_buf vt)) = rows vt * cols vt" using Cons.prems(1) by (auto simp: vt_geom_def)
  have r: "0 \<le> r" "r < rows vt" using Cons.prems(2) by auto
  have "0 \<le> vt_char vt r c0" using r Cons.prems(3) g by (simp add: vt_char_def)
  moreover have "0 < c1 - c0 \<longrightarrow> vt_char vt r c0 + (c1 - c0) \<le> int (length (scr_buf vt))"
    using row_in_bounds(2) [OF r _ Cons.prems(4) g(1)] Cons.prems(3) g(2) by (auto simp: vt_char_def)
  ultimately obtain b where b: "fill_cells (scr_buf vt) (vt_char vt r c0) (c1 - c0) x = Some b" "length b = length (scr_buf vt)"
    using fill_cells_ok by blast
  have "redraws (vt\<lparr>scr_buf := b\<rparr>) (fill_rows (vt\<lparr>scr_buf := b\<rparr>) rs c0 c1 x)"
    by (rule Cons.IH) (use Cons.prems b(2) in auto)
  then show ?case using b by (auto simp: redraws_def)
qed

lemma memmove_cells_ok:
  assumes "0 \<le> n" and "0 \<le> dst" and "0 \<le> src" and "dst + n \<le> int (length buf)" and "src + n \<le> int (length buf)"
  shows "\<exists>b. memmove_cells buf dst src n = Some b \<and> length b = length buf"
proof -
  have "int (length (take (nat n) (drop (nat src) buf))) = n" using assms by auto
  then show ?thesis using assms by (auto simp: memmove_cells_def store_cells_def)
qed

text \<open>Moving \<open>k\<close> whole rows, and \<open>k\<close> cells inside one row.\<close>

lemma move_rows_redraws:
  assumes "vt_geom vt" and "0 \<le> k" and "0 \<le> d" and "0 \<le> s" and "d + k \<le> rows vt" and "s + k \<le> rows vt"
  shows "\<exists>b. memmove_cells (scr_buf vt) (vt_char vt d 0) (vt_char vt s 0) (cols vt * k) = Some b \<and> length b = length (scr_buf vt)"
proof (rule memmove_cells_ok)
  have g: "0 < cols vt" "int (length (scr_buf vt)) = rows vt * cols vt" using assms(1) by (auto simp: vt_geom_def)
  have "(d + k) * cols vt \<le> rows vt * cols vt" "(s + k) * cols vt \<le> rows vt * cols vt"
    using assms g by (auto intro!: mult_right_mono)
  then show "vt_char vt d 0 + cols vt * k \<le> int (length (scr_buf vt))" "vt_char vt s 0 + cols vt * k \<le> int (length (scr_buf vt))"
    using g by (simp_all add: vt_char_def algebra_simps)
qed (use assms in \<open>simp_all add: vt_char_def vt_geom_def\<close>)

lemma move_in_row_redraws:
  assumes "vt_geom vt" and "0 \<le> r" and "r < rows vt" and "0 \<le> k" and "0 \<le> d" and "0 \<le> s" and "d + k \<le> cols vt" and "s + k \<le> cols vt"
  shows "\<exists>b. memmove_cells (scr_buf vt) (vt_char vt r d) (vt_char vt r s) k = Some b \<and> length b = length (scr_buf vt)"
proof (rule memmove_cells_ok)
  have g: "0 < cols vt" "int (length (scr_buf vt)) = rows vt * cols vt" using assms(1) by (auto simp: vt_geom_def)
  show "vt_char vt r d + k \<le> int (length (scr_buf vt))" "vt_char vt r s + k \<le> int (length (scr_buf vt))"
    using row_in_bounds(2) [OF assms(2,3) _ assms(7) g(1)] row_in_bounds(2) [OF assms(2,3) _ assms(8) g(1)] assms g(2)
    by (simp_all add: vt_char_def)
qed (use assms in \<open>simp_all add: vt_char_def vt_geom_def\<close>)

lemmas vt_clear_defs = u_vt_clear_color_def u_vt_clear_to_end_def u_vt_clear_to_cursor_def u_vt_clear_line_to_end_def
  u_vt_clear_line_to_cursor_def u_vt_clear_line_def u_vt_clear_def

lemma clear_color_redraws: "vt_geom vt \<Longrightarrow> redraws vt (u_vt_clear_color vt color)"
  unfolding u_vt_clear_color_def by (rule fill_rows_redraws) auto

lemma clear_redraws:
  assumes "vt_geom vt" and "on_screen vt"
  shows "redraws vt (u_vt_clear vt)" "redraws vt (u_vt_clear_to_end vt)" "redraws vt (u_vt_clear_to_cursor vt)"
    "redraws vt (u_vt_clear_line_to_end vt)" "redraws vt (u_vt_clear_line_to_cursor vt)" "redraws vt (u_vt_clear_line vt)"
  using assms unfolding vt_clear_defs
  by (auto intro!: fill_rows_redraws redraws_bind simp: on_screen_def simp del: fill_rows.simps)

text \<open>A region operation: the optional move followed by blanking.\<close>

lemma region_redraws:
  assumes "vt_geom vt"
    and "p \<Longrightarrow> \<exists>b. mv = Some b \<and> length b = length (scr_buf vt)"
    and "\<forall>r\<in>set rs. 0 \<le> r \<and> r < rows vt" and "0 \<le> c0" and "c1 \<le> cols vt"
  shows "redraws vt (Option.bind (if p then mv else Some (scr_buf vt)) (\<lambda>b. fill_rows (vt\<lparr>scr_buf := b\<rparr>) rs c0 c1 x))"
proof -
  obtain b where b: "(if p then mv else Some (scr_buf vt)) = Some b" "length b = length (scr_buf vt)"
    using assms(2) by (cases p) auto
  have "redraws (vt\<lparr>scr_buf := b\<rparr>) (fill_rows (vt\<lparr>scr_buf := b\<rparr>) rs c0 c1 x)"
    by (rule fill_rows_redraws) (use assms b(2) in auto)
  then show ?thesis using b unfolding b(1) by (auto simp: redraws_def)
qed

lemma scroll_redraws:
  assumes "vt_geom vt" and "scroll_top vt + scroll_bottom vt \<le> rows vt \<or> scroll_bottom vt - scroll_top vt \<le> lines"
  shows "redraws vt (u_vt_scroll vt lines)"
proof (cases "lines \<le> 0")
  case True
  then show ?thesis by (simp add: u_vt_scroll_def redraws_refl)
next
  case False
  let ?t = "scroll_bottom vt - scroll_top vt"
  let ?l = "if lines > ?t then ?t else lines"
  have g: "0 \<le> scroll_top vt" "scroll_top vt < scroll_bottom vt" "scroll_bottom vt \<le> rows vt" using assms(1) by (auto simp: vt_geom_def)
  show ?thesis using False unfolding u_vt_scroll_def Let_def
    by (simp only: if_False) (rule region_redraws [OF assms(1) move_rows_redraws [OF assms(1)]]; use assms(2) g False in \<open>auto split: if_splits\<close>)
qed

lemma scroll_from_cursor_redraws:
  assumes "vt_geom vt" and "on_screen vt" and "0 \<le> lines"
  shows "redraws vt (u_vt_scroll_from_cursor vt lines)" "redraws vt (u_vt_scroll_up_from_cursor vt lines)"
  using assms(2,3) assms(1) [unfolded vt_geom_def] unfolding u_vt_scroll_from_cursor_def u_vt_scroll_up_from_cursor_def Let_def on_screen_def
  by (rule_tac [!] region_redraws [OF assms(1) move_rows_redraws [OF assms(1)]]) (auto split: if_splits)

lemma shift_from_cursor_redraws:
  assumes "vt_geom vt" and "on_screen vt" and "0 \<le> chars"
  shows "redraws vt (u_vt_shift_left_from_cursor vt chars)" "redraws vt (u_vt_shift_right_from_cursor vt chars)"
  using assms(2,3) unfolding u_vt_shift_left_from_cursor_def u_vt_shift_right_from_cursor_def Let_def on_screen_def
  by (rule_tac [!] region_redraws [OF assms(1) move_in_row_redraws [OF assms(1)]]) (auto split: if_splits)

end
