(* ===== verification/VtState.thy ===== *)
theory VtState
  imports VtScroll
begin

text \<open>
  The escape-sequence state machine of the virtual terminal: \<^verbatim>\<open>src/drivers/char/vt_state_machine.c\<close>. Characters
  are bytes; C's \<^verbatim>\<open>char\<close> is signed, so the bytes from 128 on are negative there. The callbacks of the
  screen (\<^verbatim>\<open>move_cursor\<close>, \<^verbatim>\<open>cursor_on\<close>, \<^verbatim>\<open>cursor_off\<close>, \<^verbatim>\<open>refresh\<close>) act on the hardware only and are left out,
  as are the log messages.
\<close>

section \<open>Characters and the cursor\<close>

text \<open>Arithmetic on \<^verbatim>\<open>int\<close>, which wraps at 32 bits.\<close>

abbreviation i32 :: "int \<Rightarrow> int" where
  "i32 x \<equiv> signed_take_bit 31 x"

definition VT_DISP_BOLD :: nat where "VT_DISP_BOLD = 0"
definition VT_DISP_UNDERLINE :: nat where "VT_DISP_UNDERLINE = 2"
definition VT_DISP_BLINK :: nat where "VT_DISP_BLINK = 3"
definition VT_DISP_REVERSE :: nat where "VT_DISP_REVERSE = 4"

definition flag_on :: "nat \<Rightarrow> u32 \<Rightarrow> u32" where
  "flag_on f w = w OR push_bit f 1"

definition flag_off :: "nat \<Rightarrow> u32 \<Rightarrow> u32" where
  "flag_off f w = w AND NOT (push_bit f 1)"

definition vt_create_cur_color :: "vt \<Rightarrow> u8" where
  "vt_create_cur_color vt =
     (let fg = (if bit (cur_attrs vt) VT_DISP_BOLD then fg_color vt OR 8 else fg_color vt); bg = bg_color vt
      in if bit (cur_attrs vt) VT_DISP_REVERSE then screen_make_color bg fg else screen_make_color fg bg)"

text \<open>
  \<^verbatim>\<open>__vt_putchar_nocursor\<close>. The local copies of the row and the column are \<^verbatim>\<open>uint8_t\<close>, so they wrap at 256.
  A found tab stop is taken as it is, also behind the last column.
\<close>

definition vt_put_newline :: "vt \<Rightarrow> vt option" where
  "vt_put_newline vt =
     (let r = cur_row vt mod 256; c = cur_col vt mod 256
      in if r = scroll_bottom vt - 1
         then map_option (\<lambda>vt. vt\<lparr>wrap_next := False, cur_col := c, cur_row := r\<rparr>) (u_vt_scroll vt 1)
         else Some (vt\<lparr>wrap_next := False, cur_col := c, cur_row := (r + 1) mod 256\<rparr>))"

definition vt_put_tab :: "vt \<Rightarrow> vt option" where
  "vt_put_tab vt =
     (let r = cur_row vt mod 256; c = cur_col vt mod 256
      in case bit_find_next_set (tab_stops vt) 32 (nat (c + 1)) of
           None \<Rightarrow> None
         | Some next_tab \<Rightarrow>
             let c = (if next_tab \<noteq> -1 then next_tab mod 256 else (cols vt - 1) mod 256)
             in Some (vt\<lparr>wrap_next := False, cur_col := c, cur_row := r\<rparr>))"

definition vt_put_default :: "vt \<Rightarrow> u8 \<Rightarrow> vt option" where
  "vt_put_default vt ch =
     (let r = cur_row vt mod 256; c = cur_col vt mod 256
      in do {
           (vt, r, c) \<leftarrow>
             (if wrap_next vt \<and> c = cols vt - 1 \<and> wrap_on vt
              then let vt = vt\<lparr>wrap_next := False\<rparr>; r = (r + 1) mod 256
                   in do {
                        (vt, r) \<leftarrow> (if r = scroll_bottom vt then map_option (\<lambda>vt. (vt, (r - 1) mod 256)) (u_vt_scroll vt 1)
                                   else Some (vt, r));
                        Some (vt, if r = rows vt then (r - 1) mod 256 else r, 0)
                      }
              else Some (vt, r, c));
           vt \<leftarrow> (if insert_mode vt then u_vt_shift_right_from_cursor vt 1 else Some vt);
           b \<leftarrow> store_cells (scr_buf vt) (vt_char vt r c) [\<lparr>chr = ch, clr = vt_create_cur_color vt\<rparr>];
           Some (if c = cols vt - 1 then vt\<lparr>scr_buf := b, wrap_next := True, cur_col := c, cur_row := r\<rparr>
                 else vt\<lparr>scr_buf := b, cur_col := (c + 1) mod 256, cur_row := r\<rparr>)
         })"

definition u_vt_putchar_nocursor :: "vt \<Rightarrow> u8 \<Rightarrow> vt option" where
  "u_vt_putchar_nocursor vt ch =
     (if ch = 13 then Some (vt\<lparr>wrap_next := False, cur_col := 0, cur_row := cur_row vt mod 256\<rparr>)
      else if ch = 10 \<or> ch = 11 \<or> ch = 12 then vt_put_newline vt
      else if ch = 9 then vt_put_tab vt
      else if ch = 8 then
        let c = cur_col vt mod 256
        in Some (vt\<lparr>wrap_next := False, cur_col := (if c > 0 then c - 1 else c), cur_row := cur_row vt mod 256\<rparr>)
      else vt_put_default vt ch)"

definition u_vt_set_cursor :: "vt \<Rightarrow> int \<Rightarrow> int \<Rightarrow> vt" where
  "u_vt_set_cursor vt new_row new_col =
     (let max_row = (if origin_mode vt then scroll_bottom vt else rows vt);
          min_row = (if origin_mode vt then scroll_top vt else 0);
          r = (if new_row < min_row then min_row else if new_row > max_row - 1 then max_row - 1 else new_row);
          c = (if new_col < 0 then 0 else if new_col > cols vt - 1 then cols vt - 1 else new_col)
      in vt\<lparr>cur_row := r, cur_col := c, wrap_next := False\<rparr>)"

definition u_vt_set_cursor_origin_relative :: "vt \<Rightarrow> int \<Rightarrow> int \<Rightarrow> vt" where
  "u_vt_set_cursor_origin_relative vt new_row new_col =
     (if origin_mode vt then u_vt_set_cursor vt (i32 (new_row + scroll_top vt)) new_col
      else u_vt_set_cursor vt new_row new_col)"

section \<open>Escape sequences\<close>

definition attribute_to_screen_color :: "int \<Rightarrow> u8" where
  "attribute_to_screen_color color =
     (if color = 0 then 0 else if color = 1 then 4 else if color = 2 then 2 else if color = 3 then 6
      else if color = 4 then 1 else if color = 5 then 5 else if color = 6 then 3 else if color = 7 then 7 else 0)"

definition vt_set_attribute :: "vt \<Rightarrow> int \<Rightarrow> vt" where
  "vt_set_attribute vt p =
     (if p = 0 then vt\<lparr>cur_attrs := 0, fg_color := SCR_DEF_FORGROUND, bg_color := SCR_DEF_BACKGROUND\<rparr>
      else if p = 1 then vt\<lparr>cur_attrs := flag_on VT_DISP_BOLD (cur_attrs vt)\<rparr>
      else if p = 22 then vt\<lparr>cur_attrs := flag_off VT_DISP_BOLD (cur_attrs vt)\<rparr>
      else if p = 5 then vt\<lparr>cur_attrs := flag_on VT_DISP_BLINK (cur_attrs vt)\<rparr>
      else if p = 25 then vt\<lparr>cur_attrs := flag_off VT_DISP_BLINK (cur_attrs vt)\<rparr>
      else if p = 4 then vt\<lparr>cur_attrs := flag_on VT_DISP_UNDERLINE (cur_attrs vt)\<rparr>
      else if p = 24 then vt\<lparr>cur_attrs := flag_off VT_DISP_UNDERLINE (cur_attrs vt)\<rparr>
      else if p = 7 then vt\<lparr>cur_attrs := flag_on VT_DISP_REVERSE (cur_attrs vt)\<rparr>
      else if p = 27 then vt\<lparr>cur_attrs := flag_off VT_DISP_REVERSE (cur_attrs vt)\<rparr>
      else if 30 \<le> p \<and> p \<le> 37 then vt\<lparr>fg_color := attribute_to_screen_color (p - 30)\<rparr>
      else if p = 39 then vt\<lparr>fg_color := SCR_DEF_FORGROUND\<rparr>
      else if 40 \<le> p \<and> p \<le> 47 then vt\<lparr>bg_color := attribute_to_screen_color (p - 40)\<rparr>
      else if p = 49 then vt\<lparr>bg_color := SCR_DEF_BACKGROUND\<rparr>
      else vt)"

text \<open>The parameters are read by index, so a parameter count beyond the array leaves it.\<close>

definition vt_esc_set_attributes :: "vt \<Rightarrow> vt option" where
  "vt_esc_set_attributes vt =
     (if esc_param_count vt \<le> length (esc_params vt)
      then Some (fold (\<lambda>p vt. vt_set_attribute vt p) (take (esc_param_count vt) (esc_params vt)) vt) else None)"

definition vt_param :: "vt \<Rightarrow> nat \<Rightarrow> int" where
  "vt_param vt i = esc_params vt ! i"

definition vt_esc_cursor_move :: "vt \<Rightarrow> vt" where
  "vt_esc_cursor_move vt =
     (let new_row = vt_param vt 0; new_col = vt_param vt 1;
          new_row = (if new_row \<noteq> 0 then i32 (new_row - 1) else new_row);
          new_col = (if new_col \<noteq> 0 then i32 (new_col - 1) else new_col)
      in u_vt_set_cursor_origin_relative vt new_row new_col)"

definition vt_count :: "vt \<Rightarrow> int" where
  "vt_count vt = (if vt_param vt 0 \<noteq> 0 then vt_param vt 0 else 1)"

definition vt_esc_cursor_cmd :: "vt \<Rightarrow> u8 \<Rightarrow> vt" where
  "vt_esc_cursor_cmd vt cmd =
     (let n = vt_count vt; r = cur_row vt; c = cur_col vt
      in if cmd = 65 then u_vt_set_cursor vt (i32 (r - n)) c
         else if cmd = 101 \<or> cmd = 66 then u_vt_set_cursor vt (i32 (r + n)) c
         else if cmd = 97 \<or> cmd = 67 then u_vt_set_cursor vt r (i32 (c + n))
         else if cmd = 68 then u_vt_set_cursor vt r (i32 (c - n))
         else if cmd = 69 then u_vt_set_cursor vt (i32 (r + n)) 0
         else if cmd = 70 then u_vt_set_cursor vt (i32 (r - n)) 0
         else if cmd = 71 \<or> cmd = 96 then u_vt_set_cursor vt r (i32 (n - 1))
         else if cmd = 100 then u_vt_set_cursor vt (i32 (n - 1)) c
         else vt)"

definition vt_esc_disp :: "vt \<Rightarrow> vt option" where
  "vt_esc_disp vt =
     (if vt_param vt 0 = 0 then u_vt_clear_to_end vt
      else if vt_param vt 0 = 1 then u_vt_clear_to_cursor vt
      else if vt_param vt 0 = 2 then u_vt_clear vt
      else Some vt)"

definition vt_esc_clear_line :: "vt \<Rightarrow> vt option" where
  "vt_esc_clear_line vt =
     (if vt_param vt 0 = 0 then u_vt_clear_line_to_end vt
      else if vt_param vt 0 = 1 then u_vt_clear_line_to_cursor vt
      else if vt_param vt 0 = 2 then u_vt_clear_line vt
      else Some vt)"

definition vt_tty_write_string :: "vt \<Rightarrow> vt_answer \<Rightarrow> vt" where
  "vt_tty_write_string vt a = (if has_tty vt then vt\<lparr>tty_input := tty_input vt @ [a]\<rparr> else vt)"

definition vt_esc_report :: "vt \<Rightarrow> vt" where
  "vt_esc_report vt =
     (if vt_param vt 0 = 6 then
        vt_tty_write_string vt
          (CursorReport (if origin_mode vt then cur_row vt + 1 - scroll_bottom vt else cur_row vt + 1) (cur_col vt + 1))
      else if vt_param vt 0 = 7 then vt_tty_write_string vt StatusOk
      else vt)"

definition vt_esc_who_are_you :: "vt \<Rightarrow> vt" where
  "vt_esc_who_are_you vt = vt_tty_write_string vt Identity"

definition vt_esc_set_mode :: "vt \<Rightarrow> u8 \<Rightarrow> vt" where
  "vt_esc_set_mode vt cmd = (if vt_param vt 0 = 4 then vt\<lparr>insert_mode := (cmd \<noteq> 108)\<rparr> else vt)"

definition vt_esc_delete_line :: "vt \<Rightarrow> vt option" where
  "vt_esc_delete_line vt = u_vt_scroll_from_cursor vt (vt_count vt)"

definition vt_esc_delete_character :: "vt \<Rightarrow> vt option" where
  "vt_esc_delete_character vt = u_vt_shift_left_from_cursor vt (vt_count vt)"

definition vt_esc_insert_line :: "vt \<Rightarrow> vt option" where
  "vt_esc_insert_line vt = u_vt_scroll_up_from_cursor vt (vt_count vt)"

definition vt_esc_insert_character :: "vt \<Rightarrow> vt option" where
  "vt_esc_insert_character vt = u_vt_shift_right_from_cursor vt (vt_count vt)"

definition vt_esc_reverse_linefeed :: "vt \<Rightarrow> vt option" where
  "vt_esc_reverse_linefeed vt =
     (if cur_row vt > scroll_top vt then Some (u_vt_set_cursor vt (cur_row vt - 1) (cur_col vt))
      else u_vt_scroll_up_from_cursor vt 1)"

definition vt_save_cursor :: "vt \<Rightarrow> vt" where
  "vt_save_cursor vt =
     vt\<lparr>saved_cur_row := cur_row vt, saved_cur_col := cur_col vt, saved_fg_color := fg_color vt,
        saved_bg_color := bg_color vt, saved_cur_attrs := cur_attrs vt\<rparr>"

text \<open>The colours are copied to the saved ones, not back.\<close>

definition vt_restore_cursor :: "vt \<Rightarrow> vt" where
  "vt_restore_cursor vt =
     (let vt = vt\<lparr>saved_fg_color := fg_color vt, saved_bg_color := bg_color vt, cur_attrs := saved_cur_attrs vt\<rparr>
      in (u_vt_set_cursor vt (saved_cur_row vt) (saved_cur_col vt))\<lparr>wrap_next := False\<rparr>)"

definition vt_set_scrolling_region :: "vt \<Rightarrow> vt" where
  "vt_set_scrolling_region vt =
     (let new_top = vt_param vt 0; new_bottom = vt_param vt 1;
          new_top = (if new_top \<noteq> 0 then i32 (new_top - 1) else new_top);
          new_bottom = (if new_bottom \<noteq> 0 then i32 (new_bottom - 1) else rows vt - 1)
      in if new_bottom \<ge> rows vt then vt
         else if new_top \<ge> new_bottom then vt
         else u_vt_set_cursor_origin_relative (vt\<lparr>scroll_top := new_top, scroll_bottom := new_bottom + 1\<rparr>) 0 0)"

definition vt_set_dec_setting :: "vt \<Rightarrow> vt option" where
  "vt_set_dec_setting vt =
     (if vt_param vt 0 = 7 then Some (vt\<lparr>wrap_on := True\<rparr>)
      else if vt_param vt 0 = 6 then Some (u_vt_set_cursor_origin_relative (vt\<lparr>origin_mode := True\<rparr>) 0 0)
      else if vt_param vt 0 = 3 then map_option (\<lambda>vt. u_vt_set_cursor_origin_relative vt 0 0) (u_vt_clear vt)
      else if vt_param vt 0 = 25 then Some (vt\<lparr>cursor_is_on := True\<rparr>)
      else Some vt)"

definition vt_unset_dec_setting :: "vt \<Rightarrow> vt option" where
  "vt_unset_dec_setting vt =
     (if vt_param vt 0 = 7 then Some (vt\<lparr>wrap_on := False\<rparr>)
      else if vt_param vt 0 = 6 then Some (u_vt_set_cursor_origin_relative (vt\<lparr>origin_mode := False\<rparr>) 0 0)
      else if vt_param vt 0 = 3 then map_option (\<lambda>vt. u_vt_set_cursor_origin_relative vt 0 0) (u_vt_clear vt)
      else if vt_param vt 0 = 25 then Some (vt\<lparr>cursor_is_on := False\<rparr>)
      else Some vt)"

definition vt_unset_tab :: "vt \<Rightarrow> vt option" where
  "vt_unset_tab vt =
     (if vt_param vt 0 = 0 then map_option (\<lambda>t. vt\<lparr>tab_stops := t\<rparr>) (bit_clear (tab_stops vt) (nat (cur_col vt)))
      else if vt_param vt 0 = 3 then Some (vt\<lparr>tab_stops := replicate 32 0\<rparr>)
      else Some vt)"

text \<open>The tab stops after a reset are the multiples of 8 up to 80: bit 0 of the bytes 0 to 10.\<close>

definition vt_reset :: "vt \<Rightarrow> vt option" where
  "vt_reset vt =
     u_vt_clear (vt\<lparr>fg_color := SCR_DEF_FORGROUND, bg_color := SCR_DEF_BACKGROUND, cur_attrs := 0, cur_row := 0, cur_col := 0,
       wrap_on := True, wrap_next := False, origin_mode := False, scroll_top := 0, scroll_bottom := rows vt,
       saved_cur_col := 0, saved_cur_row := 0, saved_cur_attrs := 0, dec_private := False, insert_mode := False,
       cursor_is_on := True, tab_stops := replicate 11 1 @ replicate 21 0\<rparr>)"

section \<open>The state machine\<close>

text \<open>
  \<^verbatim>\<open>lbracket_table\<close> and \<^verbatim>\<open>lbracket_table_dec_private\<close>. They are indexed with the signed character: from 128 on
  the entry is read in front of the table.
\<close>

definition lbracket_command :: "vt \<Rightarrow> u8 \<Rightarrow> vt option" where
  "lbracket_command vt ch =
     (if ch \<ge> 128 then None
      else if ch = 109 then vt_esc_set_attributes vt
      else if ch = 72 \<or> ch = 102 then Some (vt_esc_cursor_move vt)
      else if ch \<in> {65, 101, 66, 97, 67, 68, 69, 70, 71, 96, 100} then Some (vt_esc_cursor_cmd vt ch)
      else if ch = 74 then vt_esc_disp vt
      else if ch = 110 then Some (vt_esc_report vt)
      else if ch = 75 then vt_esc_clear_line vt
      else if ch = 108 \<or> ch = 104 then Some (vt_esc_set_mode vt ch)
      else if ch = 77 then vt_esc_delete_line vt
      else if ch = 80 then vt_esc_delete_character vt
      else if ch = 76 then vt_esc_insert_line vt
      else if ch = 64 then vt_esc_insert_character vt
      else if ch = 99 then Some (vt_esc_who_are_you vt)
      else if ch = 114 then Some (vt_set_scrolling_region vt)
      else if ch = 103 then vt_unset_tab vt
      else Some vt)"

definition lbracket_command_dec_private :: "vt \<Rightarrow> u8 \<Rightarrow> vt option" where
  "lbracket_command_dec_private vt ch =
     (if ch \<ge> 128 then None
      else if ch = 104 then vt_set_dec_setting vt
      else if ch = 108 then vt_unset_dec_setting vt
      else Some vt)"

definition vt_state_lbracket :: "vt \<Rightarrow> u8 \<Rightarrow> vt option" where
  "vt_state_lbracket vt ch =
     (if 48 \<le> ch \<and> ch \<le> 57 then
        (if esc_param_count vt < length (esc_params vt)
         then Some (vt\<lparr>esc_params := (esc_params vt)[esc_param_count vt :=
                i32 (vt_param vt (esc_param_count vt) * 10 + (uint ch - 48))]\<rparr>)
         else None)
      else if ch = 59 then Some (vt\<lparr>esc_param_count := esc_param_count vt + 1\<rparr>)
      else if ch = 63 then Some (vt\<lparr>dec_private := True\<rparr>)
      else
        let vt = vt\<lparr>esc_param_count := esc_param_count vt + 1\<rparr>
        in map_option (\<lambda>vt. vt\<lparr>state := VT_STATE_BEGIN, dec_private := False\<rparr>)
             (if dec_private vt then lbracket_command_dec_private vt ch else lbracket_command vt ch))"

text \<open>The screen alignment test does not leave the state.\<close>

definition vt_state_numbersign :: "vt \<Rightarrow> u8 \<Rightarrow> vt option" where
  "vt_state_numbersign vt ch =
     (if ch = 56
      then fill_rows vt [0..rows vt - 1] 0 (cols vt) \<lparr>chr = 69, clr = screen_make_color SCR_DEF_FORGROUND SCR_DEF_BACKGROUND\<rparr>
      else Some (vt\<lparr>state := VT_STATE_BEGIN\<rparr>))"

definition to_begin :: "vt option \<Rightarrow> vt option" where
  "to_begin vto = map_option (\<lambda>vt. vt\<lparr>state := VT_STATE_BEGIN\<rparr>) vto"

definition vt_state_esc :: "vt \<Rightarrow> u8 \<Rightarrow> vt option" where
  "vt_state_esc vt ch =
     (if ch = 91 then Some (vt\<lparr>state := VT_STATE_LBRACKET, esc_param_count := 0, esc_params := replicate 10 0\<rparr>)
      else if ch = 77 then to_begin (vt_esc_reverse_linefeed vt)
      else if ch = 68 then to_begin (u_vt_putchar_nocursor vt 10)
      else if ch = 69 then to_begin (Option.bind (u_vt_putchar_nocursor vt 13) (\<lambda>vt. u_vt_putchar_nocursor vt 10))
      else if ch = 55 then to_begin (Some (vt_save_cursor vt))
      else if ch = 56 then to_begin (Some (vt_restore_cursor vt))
      else if ch = 99 then to_begin (vt_reset vt)
      else if ch = 72 then to_begin (map_option (\<lambda>t. vt\<lparr>tab_stops := t\<rparr>) (bit_set (tab_stops vt) (nat (cur_col vt))))
      else if ch = 35 then Some (vt\<lparr>state := VT_STATE_NUMBERSIGN, esc_param_count := 0, esc_params := replicate 10 0\<rparr>)
      else if ch = 40 then Some (vt\<lparr>state := VT_STATE_OPENPAREN\<rparr>)
      else if ch = 41 then Some (vt\<lparr>state := VT_STATE_CLOSEPAREN\<rparr>)
      else Some (vt\<lparr>state := VT_STATE_BEGIN\<rparr>))"

definition vt_state_begin :: "vt \<Rightarrow> u8 \<Rightarrow> vt option" where
  "vt_state_begin vt ch = (if ch = 27 then Some (vt\<lparr>state := VT_STATE_ESC\<rparr>) else u_vt_putchar_nocursor vt ch)"

definition vt_state_paren :: "vt \<Rightarrow> u8 \<Rightarrow> vt option" where
  "vt_state_paren vt ch = Some (vt\<lparr>state := VT_STATE_BEGIN\<rparr>)"

definition u_vt_process_char :: "vt \<Rightarrow> u8 \<Rightarrow> vt option" where
  "u_vt_process_char vt ch =
     (if ch = 0 then Some vt
      else if ch \<in> {10, 13, 9, 8, 11, 12} then u_vt_putchar_nocursor vt ch
      else if ch = 7 \<or> ch = 14 \<or> ch = 15 then Some vt
      else if ch = 27 then Some (vt\<lparr>state := VT_STATE_ESC\<rparr>)
      else case state vt of
             VT_STATE_BEGIN \<Rightarrow> vt_state_begin vt ch
           | VT_STATE_ESC \<Rightarrow> vt_state_esc vt ch
           | VT_STATE_LBRACKET \<Rightarrow> vt_state_lbracket vt ch
           | VT_STATE_NUMBERSIGN \<Rightarrow> vt_state_numbersign vt ch
           | VT_STATE_OPENPAREN \<Rightarrow> vt_state_paren vt ch
           | VT_STATE_CLOSEPAREN \<Rightarrow> vt_state_paren vt ch)"

fun vt_write :: "vt \<Rightarrow> u8 list \<Rightarrow> vt option" where
  "vt_write vt [] = Some vt"
| "vt_write vt (ch # chs) = Option.bind (u_vt_process_char vt ch) (\<lambda>vt. vt_write vt chs)"

definition vt_early_init :: "vt \<Rightarrow> vt option" where
  "vt_early_init vt = map_option (\<lambda>vt. vt\<lparr>early_init := True\<rparr>) (vt_reset vt)"

definition vt_init :: "vt \<Rightarrow> vt option" where
  "vt_init vt = (if \<not> early_init vt then vt_early_init vt else Some vt)"

end
