(* ===== verification/VtCorrect.thy ===== *)
theory VtCorrect
  imports VtState
begin

text \<open>
  Safety of the virtual terminal: the invariant that the cursor and the scrolling region are on the screen, the
  inputs that break it, and that every other character is processed inside the screen, the tab-stop map and the
  parameter array.
\<close>

section \<open>Invariant\<close>

definition params_ok :: "int list \<Rightarrow> bool" where
  "params_ok ps \<longleftrightarrow> length ps = 10 \<and> (\<forall>p\<in>set ps. - (2 ^ 31) \<le> p \<and> p < 2 ^ 31)"

definition vt_inv :: "vt \<Rightarrow> bool" where
  "vt_inv vt \<longleftrightarrow> vt_geom vt \<and> on_screen vt \<and> length (tab_stops vt) = 32 \<and> params_ok (esc_params vt)"

definition safe :: "vt option \<Rightarrow> bool" where
  "safe vto \<longleftrightarrow> (\<exists>vt. vto = Some vt \<and> vt_inv vt)"

lemma safe_Some [simp]: "safe (Some vt) = vt_inv vt"
  by (simp add: safe_def)

lemma redraws_safe: "vt_inv vt \<Longrightarrow> redraws vt vto \<Longrightarrow> safe vto"
  by (auto simp: safe_def redraws_def vt_inv_def)

lemma redraws_inv:
  "redraws vt vto \<Longrightarrow> vt_inv vt \<Longrightarrow> \<exists>vt'. vto = Some vt' \<and> vt_inv vt' \<and> rows vt' = rows vt \<and> cols vt' = cols vt"
  by (auto simp: redraws_def vt_inv_def)

lemma safe_bind: "safe x \<Longrightarrow> (\<And>vt. vt_inv vt \<Longrightarrow> x = Some vt \<Longrightarrow> safe (f vt)) \<Longrightarrow> safe (Option.bind x f)"
  by (auto simp: safe_def)

lemma safe_map: "safe x \<Longrightarrow> (\<And>vt. vt_inv vt \<Longrightarrow> vt_inv (f vt)) \<Longrightarrow> safe (map_option f x)"
  by (auto simp: safe_def)

text \<open>Fields that the invariant does not mention.\<close>

lemma vt_inv_frame [simp]:
  "vt_inv (vt\<lparr>wrap_next := w\<rparr>) = vt_inv vt" "vt_inv (vt\<lparr>state := st\<rparr>) = vt_inv vt" "vt_inv (vt\<lparr>dec_private := w\<rparr>) = vt_inv vt"
  "vt_inv (vt\<lparr>esc_param_count := k\<rparr>) = vt_inv vt" "vt_inv (vt\<lparr>cur_attrs := a\<rparr>) = vt_inv vt" "vt_inv (vt\<lparr>fg_color := f\<rparr>) = vt_inv vt"
  "vt_inv (vt\<lparr>bg_color := f\<rparr>) = vt_inv vt" "vt_inv (vt\<lparr>insert_mode := w\<rparr>) = vt_inv vt" "vt_inv (vt\<lparr>wrap_on := w\<rparr>) = vt_inv vt"
  "vt_inv (vt\<lparr>cursor_is_on := w\<rparr>) = vt_inv vt" "vt_inv (vt\<lparr>origin_mode := w\<rparr>) = vt_inv vt" "vt_inv (vt\<lparr>tty_input := t\<rparr>) = vt_inv vt"
  "vt_inv (vt\<lparr>saved_cur_row := i\<rparr>) = vt_inv vt" "vt_inv (vt\<lparr>saved_cur_col := i\<rparr>) = vt_inv vt" "vt_inv (vt\<lparr>saved_fg_color := f\<rparr>) = vt_inv vt"
  "vt_inv (vt\<lparr>saved_bg_color := f\<rparr>) = vt_inv vt" "vt_inv (vt\<lparr>saved_cur_attrs := a\<rparr>) = vt_inv vt"
  by (simp_all add: vt_inv_def vt_geom_def on_screen_def)

text \<open>The situations in which a character is processed safely.\<close>

definition scroll_ok :: "vt \<Rightarrow> bool" where
  "scroll_ok vt \<longleftrightarrow> scroll_top vt + scroll_bottom vt \<le> rows vt \<or> scroll_bottom vt - scroll_top vt \<le> 1"

definition newline_safe :: "vt \<Rightarrow> bool" where
  "newline_safe vt \<longleftrightarrow> (if cur_row vt = scroll_bottom vt - 1 then scroll_ok vt else cur_row vt < rows vt - 1)"

definition tab_safe :: "vt \<Rightarrow> bool" where
  "tab_safe vt \<longleftrightarrow> (\<forall>t. bit_find_next_set (tab_stops vt) 32 (nat (cur_col vt + 1)) = Some t \<longrightarrow> t < cols vt)"

definition print_safe :: "vt \<Rightarrow> bool" where
  "print_safe vt \<longleftrightarrow> (wrap_next vt \<and> cur_col vt = cols vt - 1 \<and> wrap_on vt \<and> cur_row vt + 1 = scroll_bottom vt \<longrightarrow> scroll_ok vt)"

definition command_safe :: "vt \<Rightarrow> u8 \<Rightarrow> bool" where
  "command_safe vt ch \<longleftrightarrow> ch < 128 \<and>
     (dec_private vt \<or> (ch = 109 \<longrightarrow> esc_param_count vt < 10) \<and> (ch \<in> {77, 80, 76, 64, 114} \<longrightarrow> 0 \<le> vt_param vt 0))"

definition char_safe :: "vt \<Rightarrow> u8 \<Rightarrow> bool" where
  "char_safe vt ch =
     (if ch \<in> {10, 11, 12} then newline_safe vt
      else if ch = 9 then tab_safe vt
      else if ch \<in> {0, 13, 8, 7, 14, 15, 27} then True
      else case state vt of
             VT_STATE_BEGIN \<Rightarrow> print_safe vt
           | VT_STATE_ESC \<Rightarrow> ch \<in> {68, 69} \<longrightarrow> newline_safe vt
           | VT_STATE_LBRACKET \<Rightarrow>
               if 48 \<le> ch \<and> ch \<le> 57 then esc_param_count vt < 10
               else ch = 59 \<or> ch = 63 \<or> command_safe vt ch
           | _ \<Rightarrow> True)"

section \<open>The handlers\<close>

lemma inv_mod:
  assumes "vt_inv vt"
  shows "cur_row vt mod 256 = cur_row vt" "cur_col vt mod 256 = cur_col vt" "(cols vt - 1) mod 256 = cols vt - 1"
  using assms by (auto simp: vt_inv_def vt_geom_def on_screen_def)

lemma put_newline_safe:
  assumes "vt_inv vt" and "newline_safe vt"
  shows "safe (vt_put_newline vt)"
proof (cases "cur_row vt = scroll_bottom vt - 1")
  case True
  then have "redraws vt (u_vt_scroll vt 1)"
    using assms by (intro scroll_redraws) (auto simp: vt_inv_def newline_safe_def scroll_ok_def)
  then have "safe (map_option (\<lambda>vt'. vt'\<lparr>wrap_next := False, cur_col := cur_col vt, cur_row := cur_row vt\<rparr>) (u_vt_scroll vt 1))"
    using assms(1) by (auto simp: safe_def redraws_def vt_inv_def vt_geom_def on_screen_def)
  then show ?thesis unfolding vt_put_newline_def Let_def inv_mod [OF assms(1)] if_P [OF True] .
next
  case False
  then have "cur_row vt + 1 < rows vt" using assms(2) by (simp add: newline_safe_def)
  then show ?thesis using False assms(1)
    by (auto simp: vt_put_newline_def inv_mod [OF assms(1)] vt_inv_def vt_geom_def on_screen_def)
qed

lemma put_tab_safe:
  assumes "vt_inv vt" and "tab_safe vt"
  shows "safe (vt_put_tab vt)"
proof -
  have i: "0 \<le> cur_col vt" "cur_col vt < cols vt" "cols vt < 256" "length (tab_stops vt) = 32"
    using assms(1) by (auto simp: vt_inv_def vt_geom_def on_screen_def)
  have "nat (cur_col vt + 1) div 8 + (32 - nat (cur_col vt + 1) div 8) \<le> length (tab_stops vt)"
    using i by auto
  then obtain t where t: "bit_find_next_set (tab_stops vt) 32 (nat (cur_col vt + 1)) = Some t" "t = -1 \<or> 0 \<le> t"
    using find_loop_bounds [of "nat (cur_col vt + 1) div 8" "32 - nat (cur_col vt + 1) div 8" "tab_stops vt" "nat (cur_col vt + 1) mod 8" True 0]
    by (auto simp: bit_find_next_set_def)
  have "t < cols vt" using assms(2) t(1) by (simp add: tab_safe_def)
  then show ?thesis using t assms(1) i unfolding vt_put_tab_def Let_def inv_mod [OF assms(1)]
    by (auto simp: vt_inv_def vt_geom_def on_screen_def)
qed

text \<open>The wrap step of a printed character yields a position on the screen.\<close>

definition vt_wrap :: "vt \<Rightarrow> (vt \<times> int \<times> int) option" where
  "vt_wrap vt =
     (let r = cur_row vt mod 256; c = cur_col vt mod 256
      in if wrap_next vt \<and> c = cols vt - 1 \<and> wrap_on vt
         then let vt = vt\<lparr>wrap_next := False\<rparr>; r = (r + 1) mod 256
              in do {
                   (vt, r) \<leftarrow> (if r = scroll_bottom vt then map_option (\<lambda>vt. (vt, (r - 1) mod 256)) (u_vt_scroll vt 1)
                              else Some (vt, r));
                   Some (vt, if r = rows vt then (r - 1) mod 256 else r, 0)
                 }
         else Some (vt, r, c))"

lemma wrap_safe:
  assumes "vt_inv vt" and "print_safe vt"
  shows "\<exists>vt' r c. vt_wrap vt = Some (vt', r, c) \<and> vt_inv vt' \<and> 0 \<le> r \<and> r < rows vt' \<and> 0 \<le> c \<and> c < cols vt'"
proof (cases "wrap_next vt \<and> cur_col vt = cols vt - 1 \<and> wrap_on vt")
  case False
  then show ?thesis using assms(1) by (auto simp: vt_wrap_def inv_mod [OF assms(1)] vt_inv_def on_screen_def)
next
  case True
  let ?v = "vt\<lparr>wrap_next := False\<rparr>"
  have iv: "vt_inv ?v" using assms(1) by simp
  have b: "0 \<le> cur_row vt" "cur_row vt < rows vt" "rows vt < 256" "0 < cols vt" "0 < rows vt" "scroll_bottom vt \<le> rows vt"
    using assms(1) by (auto simp: vt_inv_def vt_geom_def on_screen_def)
  then have r: "(cur_row vt + 1) mod 256 = cur_row vt + 1" by simp
  show ?thesis
  proof (cases "cur_row vt + 1 = scroll_bottom vt")
    case sc: True
    then have "redraws ?v (u_vt_scroll ?v 1)"
      using True assms by (intro scroll_redraws) (auto simp: vt_inv_def print_safe_def scroll_ok_def vt_geom_def)
    then obtain vt' where "u_vt_scroll ?v 1 = Some vt'" "vt_inv vt'" "rows vt' = rows vt" "cols vt' = cols vt"
      using redraws_inv [OF _ iv] by fastforce
    then show ?thesis using True sc b unfolding vt_wrap_def Let_def inv_mod [OF assms(1)] r by auto
  next
    case ns: False
    then show ?thesis using True b iv unfolding vt_wrap_def Let_def inv_mod [OF assms(1)] r by auto
  qed
qed

lemma put_default_wrap:
  "vt_put_default vt ch =
     do {
       (vt, r, c) \<leftarrow> vt_wrap vt;
       vt \<leftarrow> (if insert_mode vt then u_vt_shift_right_from_cursor vt 1 else Some vt);
       b \<leftarrow> store_cells (scr_buf vt) (vt_char vt r c) [\<lparr>chr = ch, clr = vt_create_cur_color vt\<rparr>];
       Some (if c = cols vt - 1 then vt\<lparr>scr_buf := b, wrap_next := True, cur_col := c, cur_row := r\<rparr>
             else vt\<lparr>scr_buf := b, cur_col := (c + 1) mod 256, cur_row := r\<rparr>)
     }"
  unfolding vt_put_default_def vt_wrap_def Let_def ..

lemma put_default_safe:
  assumes "vt_inv vt" and "print_safe vt"
  shows "safe (vt_put_default vt ch)"
proof -
  obtain v r c where w: "vt_wrap vt = Some (v, r, c)" "vt_inv v" "0 \<le> r" "r < rows v" "0 \<le> c" "c < cols v"
    using wrap_safe [OF assms] by blast
  have g: "vt_geom v" "on_screen v" using w(2) by (auto simp: vt_inv_def)
  have "redraws v (if insert_mode v then u_vt_shift_right_from_cursor v 1 else Some v)"
    using shift_from_cursor_redraws(2) [OF g, of 1] redraws_refl by simp
  then obtain u where u: "(if insert_mode v then u_vt_shift_right_from_cursor v 1 else Some v) = Some u" "vt_inv u"
    "rows u = rows v" "cols u = cols v"
    using redraws_inv [OF _ w(2)] by blast
  have gu: "vt_geom u" using u(2) by (simp add: vt_inv_def)
  then have cu: "0 < cols u" "cols u < 256" "int (length (scr_buf u)) = rows u * cols u" by (auto simp: vt_geom_def)
  have "vt_char u r c + 1 \<le> int (length (scr_buf u))" "0 \<le> vt_char u r c"
    using row_in_bounds [of r "rows u" "c + 1" "cols u"] w(3-6) u(3,4) cu by (simp_all add: vt_char_def)
  then obtain b where b: "store_cells (scr_buf u) (vt_char u r c) [\<lparr>chr = ch, clr = vt_create_cur_color u\<rparr>] = Some b"
    by (simp add: store_cells_def)
  note lb = store_cells_length [OF b]
  show ?thesis unfolding put_default_wrap w(1)
    using u b lb w(3-6) cu by (auto simp: vt_inv_def vt_geom_def on_screen_def)
qed

lemma putchar_safe:
  assumes "vt_inv vt" and "ch \<in> {10, 11, 12} \<Longrightarrow> newline_safe vt" and "ch = 9 \<Longrightarrow> tab_safe vt"
    and "ch \<notin> {8, 9, 10, 11, 12, 13} \<Longrightarrow> print_safe vt"
  shows "safe (u_vt_putchar_nocursor vt ch)"
proof -
  have "safe (Some (vt\<lparr>wrap_next := False, cur_col := 0, cur_row := cur_row vt\<rparr>))"
    "safe (Some (vt\<lparr>wrap_next := False, cur_col := (if cur_col vt > 0 then cur_col vt - 1 else cur_col vt), cur_row := cur_row vt\<rparr>))"
    using assms(1) by (auto simp: vt_inv_def vt_geom_def on_screen_def)
  then show ?thesis unfolding u_vt_putchar_nocursor_def Let_def inv_mod [OF assms(1)]
    using put_newline_safe [OF assms(1)] put_tab_safe [OF assms(1)] put_default_safe [OF assms(1)] assms(2-4) by simp
qed

lemma set_cursor_inv:
  assumes "vt_geom vt" and "length (tab_stops vt) = 32" and "params_ok (esc_params vt)"
  shows "vt_inv (u_vt_set_cursor vt r c)" "vt_inv (u_vt_set_cursor_origin_relative vt r c)"
proof -
  have *: "vt_inv (u_vt_set_cursor vt r c)" for r c
    using assms unfolding u_vt_set_cursor_def Let_def by (auto simp: vt_inv_def vt_geom_def on_screen_def)
  then show "vt_inv (u_vt_set_cursor vt r c)" "vt_inv (u_vt_set_cursor_origin_relative vt r c)"
    by (simp_all add: u_vt_set_cursor_origin_relative_def)
qed

lemma set_cursor_inv':
  "vt_inv vt \<Longrightarrow> vt_inv (u_vt_set_cursor vt r c)" "vt_inv vt \<Longrightarrow> vt_inv (u_vt_set_cursor_origin_relative vt r c)"
  using set_cursor_inv by (auto simp: vt_inv_def)

lemma attribute_inv: "vt_inv (vt_set_attribute vt p) = vt_inv vt"
  unfolding vt_set_attribute_def by simp

lemma attributes_inv: "vt_inv (fold (\<lambda>p vt. vt_set_attribute vt p) ps vt) = vt_inv vt"
  by (induction ps arbitrary: vt) (simp_all add: attribute_inv)

lemma vt_count_pos: "0 \<le> vt_param vt 0 \<Longrightarrow> 0 < vt_count vt"
  by (simp add: vt_count_def)

lemma i32_range: "- (2 ^ 31) \<le> i32 x" "i32 x < 2 ^ 31"
  by (rule signed_take_bit_int_greater_eq_minus_exp, rule signed_take_bit_int_less_exp)

lemma scrolling_region_inv:
  assumes "vt_inv vt" and "0 \<le> vt_param vt 0"
  shows "vt_inv (vt_set_scrolling_region vt)"
proof -
  let ?t = "if vt_param vt 0 \<noteq> 0 then i32 (vt_param vt 0 - 1) else vt_param vt 0"
  let ?b = "if vt_param vt 1 \<noteq> 0 then i32 (vt_param vt 1 - 1) else rows vt - 1"
  let ?v = "vt\<lparr>scroll_top := ?t, scroll_bottom := ?b + 1\<rparr>"
  have "vt_param vt 0 \<in> set (esc_params vt)" using assms(1) by (auto simp: vt_param_def vt_inv_def params_ok_def)
  then have "vt_param vt 0 < 2 ^ 31" using assms(1) unfolding vt_inv_def params_ok_def by blast
  then have t: "0 \<le> ?t" using assms(2) signed_take_bit_int_eq_self [of 31 "vt_param vt 0 - 1"] by auto
  show ?thesis
  proof (cases "?b \<ge> rows vt \<or> ?t \<ge> ?b")
    case True
    then show ?thesis using assms(1) unfolding vt_set_scrolling_region_def Let_def by auto
  next
    case False
    then have "vt_geom ?v" using assms(1) t by (simp add: vt_inv_def vt_geom_def)
    then have "vt_inv (u_vt_set_cursor_origin_relative ?v 0 0)"
      by (rule set_cursor_inv) (use assms(1) in \<open>simp_all add: vt_inv_def\<close>)
    then show ?thesis using False unfolding vt_set_scrolling_region_def Let_def by simp
  qed
qed

lemma handlers_safe:
  assumes "vt_inv vt"
  shows "safe (vt_esc_disp vt)" "safe (vt_esc_clear_line vt)" "safe (vt_set_dec_setting vt)" "safe (vt_unset_dec_setting vt)"
    "safe (vt_unset_tab vt)" "safe (vt_esc_reverse_linefeed vt)" "vt_inv (vt_esc_cursor_move vt)" "vt_inv (vt_esc_cursor_cmd vt ch)"
    "vt_inv (vt_esc_report vt)" "vt_inv (vt_esc_who_are_you vt)" "vt_inv (vt_esc_set_mode vt ch)" "vt_inv (vt_save_cursor vt)"
    "vt_inv (vt_restore_cursor vt)"
proof -
  have g: "vt_geom vt" "on_screen vt" using assms by (auto simp: vt_inv_def)
  note c = redraws_safe [OF assms clear_redraws(1) [OF g]] redraws_safe [OF assms clear_redraws(2) [OF g]]
    redraws_safe [OF assms clear_redraws(3) [OF g]] redraws_safe [OF assms clear_redraws(4) [OF g]]
    redraws_safe [OF assms clear_redraws(5) [OF g]] redraws_safe [OF assms clear_redraws(6) [OF g]]
  show "safe (vt_esc_disp vt)" "safe (vt_esc_clear_line vt)" using c assms by (simp_all add: vt_esc_disp_def vt_esc_clear_line_def)
  show "safe (vt_set_dec_setting vt)" "safe (vt_unset_dec_setting vt)"
    using c(1) assms by (auto simp: vt_set_dec_setting_def vt_unset_dec_setting_def intro!: safe_map set_cursor_inv')
  show "vt_inv (vt_esc_cursor_move vt)" "vt_inv (vt_esc_cursor_cmd vt ch)"
    using assms by (simp_all add: vt_esc_cursor_move_def vt_esc_cursor_cmd_def Let_def set_cursor_inv')
  show "vt_inv (vt_esc_report vt)" "vt_inv (vt_esc_who_are_you vt)" "vt_inv (vt_esc_set_mode vt ch)" "vt_inv (vt_save_cursor vt)"
    using assms by (simp_all add: vt_esc_report_def vt_esc_who_are_you_def vt_tty_write_string_def vt_esc_set_mode_def vt_save_cursor_def)
  show "vt_inv (vt_restore_cursor vt)"
    using assms by (simp add: vt_restore_cursor_def Let_def set_cursor_inv')
  show "safe (vt_esc_reverse_linefeed vt)"
    using assms redraws_safe [OF assms scroll_from_cursor_redraws(2) [OF g, of 1]]
    by (simp add: vt_esc_reverse_linefeed_def set_cursor_inv')
  have "nat (cur_col vt) div 8 < length (tab_stops vt)" using assms by (auto simp: vt_inv_def vt_geom_def on_screen_def)
  then show "safe (vt_unset_tab vt)"
    using assms by (auto simp: vt_unset_tab_def bit_clear_def vt_inv_def vt_geom_def on_screen_def)
qed

lemma reset_safe:
  assumes "vt_inv vt"
  shows "safe (vt_reset vt)"
proof -
  let ?v = "vt\<lparr>fg_color := SCR_DEF_FORGROUND, bg_color := SCR_DEF_BACKGROUND, cur_attrs := 0, cur_row := 0, cur_col := 0,
       wrap_on := True, wrap_next := False, origin_mode := False, scroll_top := 0, scroll_bottom := rows vt,
       saved_cur_col := 0, saved_cur_row := 0, saved_cur_attrs := 0, dec_private := False, insert_mode := False,
       cursor_is_on := True, tab_stops := replicate 11 1 @ replicate 21 0\<rparr>"
  have v: "vt_inv ?v" using assms by (simp add: vt_inv_def vt_geom_def on_screen_def)
  then have "vt_geom ?v" "on_screen ?v" by (simp_all add: vt_inv_def)
  then show ?thesis unfolding vt_reset_def by (intro redraws_safe [OF v] clear_redraws)
qed

lemma command_ok:
  assumes "vt_inv vt" and "ch < 128" and "ch = 109 \<longrightarrow> esc_param_count vt \<le> 10"
    and "ch \<in> {77, 80, 76, 64, 114} \<longrightarrow> 0 \<le> vt_param vt 0"
  shows "safe (lbracket_command vt ch)"
proof -
  have g: "vt_geom vt" "on_screen vt" using assms(1) by (auto simp: vt_inv_def)
  have m: "ch = 109 \<Longrightarrow> safe (vt_esc_set_attributes vt)"
    using assms(1,3) by (simp add: vt_esc_set_attributes_def attributes_inv vt_inv_def [of vt] params_ok_def)
  have l: "safe (vt_esc_delete_line vt)" "safe (vt_esc_delete_character vt)" "safe (vt_esc_insert_line vt)"
    "safe (vt_esc_insert_character vt)" if "0 \<le> vt_param vt 0"
    using scroll_from_cursor_redraws [OF g] shift_from_cursor_redraws [OF g] vt_count_pos [OF that] redraws_safe [OF assms(1)]
    by (simp_all add: vt_esc_delete_line_def vt_esc_delete_character_def vt_esc_insert_line_def vt_esc_insert_character_def)
  show ?thesis unfolding lbracket_command_def
    using assms handlers_safe [OF assms(1)] m l scrolling_region_inv [OF assms(1)] by (simp del: insert_iff) auto
qed

lemma command_dec_ok: "vt_inv vt \<Longrightarrow> ch < 128 \<Longrightarrow> safe (lbracket_command_dec_private vt ch)"
  unfolding lbracket_command_dec_private_def using handlers_safe(3,4) by (auto simp: not_le)

lemma state_lbracket_safe:
  assumes "vt_inv vt" and "if 48 \<le> ch \<and> ch \<le> 57 then esc_param_count vt < 10 else ch = 59 \<or> ch = 63 \<or> command_safe vt ch"
  shows "safe (vt_state_lbracket vt ch)"
proof -
  let ?v = "vt\<lparr>esc_param_count := esc_param_count vt + 1\<rparr>"
  have iv: "vt_inv ?v" using assms(1) by simp
  have p: "vt_param ?v 0 = vt_param vt 0" "esc_param_count ?v = esc_param_count vt + 1" "dec_private ?v = dec_private vt"
    by (simp_all add: vt_param_def)
  show ?thesis
  proof (cases "48 \<le> ch \<and> ch \<le> 57")
    case True
    then have k: "esc_param_count vt < length (esc_params vt)" using assms by (simp add: vt_inv_def params_ok_def)
    have "params_ok ((esc_params vt)[esc_param_count vt := i32 x])" for x
      using assms(1) i32_range [of x] by (auto simp: vt_inv_def params_ok_def dest!: set_update_subset_insert [THEN subsetD])
    then show ?thesis using True k assms(1) by (simp add: vt_state_lbracket_def vt_inv_def vt_geom_def on_screen_def)
  next
    case False
    have "safe (if dec_private ?v then lbracket_command_dec_private ?v ch else lbracket_command ?v ch)" if "command_safe vt ch"
      using that command_ok [OF iv, of ch] command_dec_ok [OF iv, of ch] unfolding command_safe_def p
      by (cases "dec_private vt") auto
    then have "safe (map_option (\<lambda>vt. vt\<lparr>state := VT_STATE_BEGIN, dec_private := False\<rparr>)
        (if dec_private ?v then lbracket_command_dec_private ?v ch else lbracket_command ?v ch))" if "command_safe vt ch"
      using that by (intro safe_map) simp_all
    then show ?thesis using False assms unfolding vt_state_lbracket_def Let_def if_not_P [OF False] by auto
  qed
qed

lemma to_begin_safe: "safe x \<Longrightarrow> safe (to_begin x)"
  unfolding to_begin_def by (rule safe_map) simp_all

lemma state_esc_safe:
  assumes "vt_inv vt" and "ch \<in> {68, 69} \<longrightarrow> newline_safe vt"
  shows "safe (vt_state_esc vt ch)"
proof -
  have n: "safe (u_vt_putchar_nocursor vt 10)" if "newline_safe vt"
    using that assms(1) by (intro putchar_safe) simp_all
  have e: "safe (Option.bind (u_vt_putchar_nocursor vt 13) (\<lambda>vt. u_vt_putchar_nocursor vt 10))" if "newline_safe vt"
  proof (rule safe_bind)
    show "safe (u_vt_putchar_nocursor vt 13)" using assms(1) by (intro putchar_safe) simp_all
    fix v assume v: "vt_inv v" "u_vt_putchar_nocursor vt 13 = Some v"
    then have "newline_safe v" using that inv_mod [OF assms(1)]
      by (auto simp: u_vt_putchar_nocursor_def newline_safe_def scroll_ok_def)
    then show "safe (u_vt_putchar_nocursor v 10)" using v(1) by (intro putchar_safe) simp_all
  qed
  have "nat (cur_col vt) div 8 < length (tab_stops vt)" using assms(1) by (auto simp: vt_inv_def vt_geom_def on_screen_def)
  then have t: "safe (map_option (\<lambda>t. vt\<lparr>tab_stops := t\<rparr>) (bit_set (tab_stops vt) (nat (cur_col vt))))"
    using assms(1) by (auto simp: bit_set_def vt_inv_def vt_geom_def on_screen_def)
  have z: "vt_inv (vt\<lparr>state := st, esc_param_count := 0, esc_params := replicate 10 0\<rparr>)" for st
    using assms(1) by (auto simp: vt_inv_def vt_geom_def on_screen_def params_ok_def)
  show ?thesis unfolding vt_state_esc_def
    using assms z t n e reset_safe [OF assms(1)] handlers_safe(6,12,13) [OF assms(1)]
    by (simp add: to_begin_safe)
qed

lemma process_char_safe:
  assumes "vt_inv vt" and "char_safe vt ch"
  shows "safe (u_vt_process_char vt ch)"
proof (cases "ch \<in> {0, 10, 13, 9, 8, 11, 12, 7, 14, 15, 27}")
  case True
  have "safe (u_vt_putchar_nocursor vt ch)" if "ch \<in> {10, 13, 9, 8, 11, 12}"
    using that assms by (intro putchar_safe) (auto simp: char_safe_def)
  then show ?thesis using True assms(1) by (auto simp: u_vt_process_char_def)
next
  case False
  have n: "redraws vt (fill_rows vt [0..rows vt - 1] 0 (cols vt) x)" for x
    using assms(1) by (intro fill_rows_redraws) (auto simp: vt_inv_def)
  have "safe (vt_state_begin vt ch)" if "state vt = VT_STATE_BEGIN"
    unfolding vt_state_begin_def using that False assms by (auto simp: char_safe_def intro!: putchar_safe)
  moreover have "safe (vt_state_numbersign vt ch)" "safe (vt_state_paren vt ch)"
    using redraws_safe [OF assms(1) n] assms(1) by (simp_all add: vt_state_numbersign_def vt_state_paren_def)
  moreover have "safe (vt_state_esc vt ch)" if "state vt = VT_STATE_ESC"
    using that False assms by (intro state_esc_safe) (auto simp: char_safe_def)
  moreover have "safe (vt_state_lbracket vt ch)" if "state vt = VT_STATE_LBRACKET"
    using that False assms by (intro state_lbracket_safe) (auto simp: char_safe_def split: if_splits)
  ultimately show ?thesis using False by (auto simp: u_vt_process_char_def split: vt_state.split)
qed

section \<open>Contents of the screen after scrolling\<close>

definition cell :: "vt \<Rightarrow> int \<Rightarrow> int \<Rightarrow> screen_char" where
  "cell vt r c = scr_buf vt ! nat (vt_char vt r c)"

lemma store_cells_nth:
  assumes "store_cells buf i xs = Some b" and "j < length buf"
  shows "b ! j = (if nat i \<le> j \<and> j < nat i + length xs then xs ! (j - nat i) else buf ! j)"
  using assms by (auto simp: store_cells_def nth_append split: if_splits)

lemma cell_index:
  assumes "vt_geom vt" and "0 \<le> r" and "r < rows vt" and "0 \<le> c" and "c < cols vt"
  shows "0 \<le> vt_char vt r c" "nat (vt_char vt r c) < length (scr_buf vt)"
proof -
  have g: "0 < cols vt" "int (length (scr_buf vt)) = rows vt * cols vt" using assms(1) by (auto simp: vt_geom_def)
  show "0 \<le> vt_char vt r c" using assms g by (simp add: vt_char_def)
  moreover have "vt_char vt r (c + 1) \<le> rows vt * cols vt"
    using row_in_bounds(2) [OF assms(2,3) _ _ g(1), of "c + 1"] assms(4,5) by (simp add: vt_char_def)
  ultimately show "nat (vt_char vt r c) < length (scr_buf vt)" using g(2) by (simp add: vt_char_def)
qed

text \<open>Positions in different rows do not meet.\<close>

lemma same_row:
  assumes "0 \<le> c" and "c < m" and "0 \<le> (k :: int)" and "0 < (m :: int)" and "r * m \<le> q * m + c" and "q * m + c < (r + k) * m"
  shows "r \<le> q" "q < r + k"
proof -
  have "r * m < (q + 1) * m" using assms by (simp add: algebra_simps)
  then show "r \<le> q" using assms(4) by (simp add: mult_less_cancel_right)
  have "q * m < (r + k) * m" using assms by linarith
  then show "q < r + k" using assms(4) by (simp add: mult_less_cancel_right)
qed

lemma row_window:
  assumes g: "vt_geom vt" and q: "0 \<le> q" "q < rows vt" "0 \<le> c" "c < cols vt" and k: "0 \<le> k" "0 \<le> d"
  shows "(nat (vt_char vt d 0) \<le> nat (vt_char vt q c) \<and> nat (vt_char vt q c) < nat (vt_char vt d 0) + nat (cols vt * k)) \<longleftrightarrow>
    d \<le> q \<and> q < d + k"
proof -
  have m: "0 < cols vt" using g by (auto simp: vt_geom_def)
  have i: "0 \<le> vt_char vt q c" "0 \<le> vt_char vt d 0" "0 \<le> cols vt * k" using cell_index [OF g q] k m by (auto simp: vt_char_def)
  have e: "(nat (vt_char vt d 0) \<le> nat (vt_char vt q c) \<and> nat (vt_char vt q c) < nat (vt_char vt d 0) + nat (cols vt * k)) \<longleftrightarrow>
      d * cols vt \<le> q * cols vt + c \<and> q * cols vt + c < (d + k) * cols vt"
  proof -
    have "(nat y \<le> nat x \<and> nat x < nat y + nat z) \<longleftrightarrow> y \<le> x \<and> x < y + z" if "0 \<le> x" "0 \<le> y" "0 \<le> z" for x y z :: int
      using that by auto
    from this [OF i] show ?thesis by (simp add: vt_char_def algebra_simps)
  qed
  show ?thesis unfolding e
  proof
    assume "d * cols vt \<le> q * cols vt + c \<and> q * cols vt + c < (d + k) * cols vt"
    with same_row [OF q(3,4) k(1) m, of d q] show "d \<le> q \<and> q < d + k" by blast
  next
    assume "d \<le> q \<and> q < d + k"
    then have "d * cols vt \<le> q * cols vt" "(q + 1) * cols vt \<le> (d + k) * cols vt" using m by (auto intro!: mult_right_mono)
    moreover have "(q + 1) * cols vt = q * cols vt + cols vt" by (simp add: distrib_right)
    ultimately show "d * cols vt \<le> q * cols vt + c \<and> q * cols vt + c < (d + k) * cols vt" using q by linarith
  qed
qed

lemma fill_row_cell:
  assumes g: "vt_geom vt" and q: "0 \<le> q" "q < rows vt" "0 \<le> c" "c < cols vt" and r: "0 \<le> r" "r < rows vt"
    and f: "fill_cells (scr_buf vt) (vt_char vt r 0) (cols vt) x = Some b"
  shows "b ! nat (vt_char vt q c) = (if q = r then x else cell vt q c)"
proof -
  have m: "0 < cols vt" using g by (simp add: vt_geom_def)
  have st: "store_cells (scr_buf vt) (vt_char vt r 0) (replicate (nat (cols vt)) x) = Some b" using f m by (simp add: fill_cells_def)
  have i: "0 \<le> vt_char vt q c" "0 \<le> vt_char vt r 0" using cell_index [OF g q] cell_index [OF g r, of 0] m by auto
  have iff: "(nat (vt_char vt r 0) \<le> nat (vt_char vt q c) \<and> nat (vt_char vt q c) < nat (vt_char vt r 0) + nat (cols vt)) \<longleftrightarrow> q = r"
    using row_window [OF g q, of 1 r] r by auto
  show ?thesis
    unfolding store_cells_nth [OF st cell_index(2) [OF g q]] length_replicate iff
    using iff by (auto simp: cell_def)
qed

lemma fill_rows_cell:
  assumes "vt_geom vt" and "0 \<le> q" "q < rows vt" "0 \<le> c" "c < cols vt" and "\<forall>r\<in>set rs. 0 \<le> r \<and> r < rows vt"
    and "fill_rows vt rs 0 (cols vt) x = Some vt'"
  shows "cell vt' q c = (if q \<in> set rs then x else cell vt q c)"
  using assms
proof (induction rs arbitrary: vt)
  case (Cons r rs)
  then obtain b where b: "fill_cells (scr_buf vt) (vt_char vt r 0) (cols vt) x = Some b"
    "fill_rows (vt\<lparr>scr_buf := b\<rparr>) rs 0 (cols vt) x = Some vt'" by (auto split: option.splits)
  have m: "0 < cols vt" using Cons.prems(1) by (simp add: vt_geom_def)
  then have lb: "length b = length (scr_buf vt)" using b(1) store_cells_length by (auto simp: fill_cells_def)
  have "cell vt' q c = (if q \<in> set rs then x else cell (vt\<lparr>scr_buf := b\<rparr>) q c)"
    by (rule Cons.IH) (use Cons.prems b(2) lb in auto)
  moreover have "cell (vt\<lparr>scr_buf := b\<rparr>) q c = (if q = r then x else cell vt q c)"
    using fill_row_cell [OF Cons.prems(1-5) _ _ b(1)] Cons.prems(6) by (simp add: cell_def vt_char_def)
  ultimately show ?case by auto
qed simp

lemma move_rows_cell:
  assumes g: "vt_geom vt" and q: "0 \<le> q" "q < rows vt" "0 \<le> c" "c < cols vt" and k: "0 \<le> k" "0 \<le> d" "0 \<le> s" "d + k \<le> rows vt" "s + k \<le> rows vt"
    and mv: "memmove_cells (scr_buf vt) (vt_char vt d 0) (vt_char vt s 0) (cols vt * k) = Some b"
  shows "b ! nat (vt_char vt q c) = (if d \<le> q \<and> q < d + k then cell vt (q - d + s) c else cell vt q c)"
proof -
  have m: "0 < cols vt" "int (length (scr_buf vt)) = rows vt * cols vt" using g by (auto simp: vt_geom_def)
  let ?xs = "take (nat (cols vt * k)) (drop (nat (vt_char vt s 0)) (scr_buf vt))"
  have sk: "vt_char vt s 0 + cols vt * k \<le> int (length (scr_buf vt))" and st: "store_cells (scr_buf vt) (vt_char vt d 0) ?xs = Some b"
    using mv by (auto simp: memmove_cells_def split: if_splits)
  have ck: "0 \<le> cols vt * k" using m k by simp
  have "int (nat (vt_char vt s 0) + nat (cols vt * k)) \<le> int (length (scr_buf vt))" using sk ck k m by (simp add: vt_char_def)
  then have le: "nat (vt_char vt s 0) + nat (cols vt * k) \<le> length (scr_buf vt)" by (rule of_nat_le_iff [THEN iffD1])
  then have lx: "length ?xs = nat (cols vt * k)" by simp
  have i: "0 \<le> vt_char vt q c" "0 \<le> vt_char vt d 0" using cell_index [OF g q] k m by (auto simp: vt_char_def)
  note iff = row_window [OF g q k(1,2)]
  have "?xs ! (nat (vt_char vt q c) - nat (vt_char vt d 0)) = cell vt (q - d + s) c" if a: "d \<le> q \<and> q < d + k"
  proof -
    have lt: "nat (vt_char vt q c) - nat (vt_char vt d 0) < nat (cols vt * k)" using iff a by linarith
    have "nat (vt_char vt s 0) + (nat (vt_char vt q c) - nat (vt_char vt d 0)) = nat (vt_char vt (q - d + s) c)"
    proof -
      have "vt_char vt d 0 \<le> vt_char vt q c" using iff a i by linarith
      then have "nat (vt_char vt q c) - nat (vt_char vt d 0) = nat (vt_char vt q c - vt_char vt d 0)"
        using i by (simp add: nat_diff_distrib)
      moreover have "0 \<le> vt_char vt s 0" using k m by (simp add: vt_char_def)
      moreover have "vt_char vt s 0 + (vt_char vt q c - vt_char vt d 0) = vt_char vt (q - d + s) c"
        by (simp add: vt_char_def algebra_simps)
      ultimately show ?thesis using \<open>vt_char vt d 0 \<le> vt_char vt q c\<close> by (simp add: nat_add_distrib [symmetric])
    qed
    then show ?thesis using lt le by (simp add: cell_def)
  qed
  then show ?thesis
    unfolding store_cells_nth [OF st cell_index(2) [OF g q]] lx iff by (simp add: cell_def)
qed

section \<open>Properties\<close>

text \<open>
  C22. In every state in which the cursor and the scrolling region are on the screen, a character that is
  not one of the listed unsafe inputs is processed without leaving the screen array, the tab-stop map or the
  parameter array, whatever the state of the escape-sequence parser, and cursor and region stay on the screen.
\<close>

theorem vt_process_char_safe:
  assumes "vt_inv vt" and "char_safe vt ch"
  shows "\<exists>vt'. u_vt_process_char vt ch = Some vt' \<and> vt_inv vt'"
  using process_char_safe [OF assms] by (simp add: safe_def)

definition example_vt :: vt where
  "example_vt = \<lparr>scr_buf = [blank_cell, blank_cell, blank_cell, blank_cell], rows = 2, cols = 2, cur_row = 1, cur_col = 1, scroll_top = 0,
     scroll_bottom = 2, fg_color = 7, bg_color = 0, cur_attrs = 0, saved_cur_row = 0, saved_cur_col = 0, saved_fg_color = 0,
     saved_bg_color = 0, saved_cur_attrs = 0, wrap_next = True, dec_private = False, wrap_on = True, cursor_is_on = True,
     origin_mode = False, insert_mode = False, tab_stops = replicate 32 0, early_init = True, state = VT_STATE_BEGIN,
     esc_param_count = 0, esc_params = replicate 10 0, has_tty = False, tty_input = []\<rparr>"

lemma example_vt_inv: "vt_inv example_vt"
  by (simp add: example_vt_def vt_inv_def vt_geom_def on_screen_def params_ok_def)

theorem vt_process_char_safe_witness:
  "\<exists>vt'. u_vt_process_char example_vt 65 = Some vt' \<and> vt_inv vt'"
  by (rule vt_process_char_safe [OF example_vt_inv])
    (simp add: char_safe_def print_safe_def scroll_ok_def example_vt_def)

lemma reset_tab_stop_80:
  assumes "n \<in> {73..80}"
  shows "bit_find_next_set (replicate 11 1 @ replicate 21 0) 32 n = Some 80"
proof -
  let ?bs = "replicate 11 1 @ replicate 21 0 :: u8 list"
  have b: "?bs ! 9 = 1" "?bs ! 10 = 1" "length ?bs = 32" by (simp_all add: nth_append)
  have l10: "find_loop True 0 ?bs 10 0 (Suc k) = Some 80" for k
  proof -
    have "(LEAST j. bit (1 :: u8) j) = 0" by (simp add: bit_1_iff Least_eq_0)
    moreover have "\<exists>j<8. bit (1 :: u8) j" by (intro exI [of _ 0]) (simp add: bit_1_iff)
    ultimately show ?thesis using b by (simp add: byte_scan_correct del: replicate.simps)
  qed
  have l9: "find_loop True 0 ?bs 9 sb (Suc k) = find_loop True 0 ?bs 10 0 k" if "0 < sb" for sb k
  proof -
    have "byte_scan True (drop_bit sb (1 :: u8)) sb (8 - sb) = None"
      using that by (simp add: byte_scan_correct bit_drop_bit_eq bit_1_iff)
    then show ?thesis using b by (simp del: replicate.simps)
  qed
  have "n = 80 \<or> n div 8 = 9 \<and> 0 < n mod 8"
  proof (cases "n = 80")
    case False
    then have "n div 8 = 9" using assms by auto
    then show ?thesis using assms div_mult_mod_eq [of n 8] by auto
  qed simp
  then show ?thesis
  proof
    assume n: "n = 80"
    have "(32 :: nat) - 80 div 8 = Suc 21" "(80 :: nat) div 8 = 10" "(80 :: nat) mod 8 = 0" by simp_all
    then show ?thesis unfolding bit_find_next_set_def n by (simp only: l10)
  next
    assume n: "n div 8 = 9 \<and> 0 < n mod 8"
    have "(32 :: nat) - 9 = Suc (Suc 21)" by simp
    then show ?thesis unfolding bit_find_next_set_def using n by (simp only: l9 l10)
  qed
qed



text \<open>
  Scrolling a region that starts at the top row moves its rows up by the number of lines, fills the
  rows that become free with blanks and leaves the rows below the region alone.
\<close>

theorem vt_scroll_rows:
  assumes g: "vt_geom vt" and t: "scroll_top vt = 0" and l: "0 < lines" "l = min lines (scroll_bottom vt)"
  shows "\<exists>vt'. u_vt_scroll vt lines = Some vt' \<and>
    (\<forall>r c. 0 \<le> r \<and> r < rows vt \<and> 0 \<le> c \<and> c < cols vt \<longrightarrow>
      cell vt' r c = (if r + l < scroll_bottom vt then cell vt (r + l) c
                      else if r < scroll_bottom vt then blank_cell else cell vt r c))"
proof -
  have b: "0 < scroll_bottom vt" "scroll_bottom vt \<le> rows vt" using g t by (auto simp: vt_geom_def)
  obtain vt' where v: "u_vt_scroll vt lines = Some vt'"
    using scroll_redraws [OF g, of lines] t b by (auto simp: redraws_def)
  have lm: "(if lines > scroll_bottom vt - 0 then scroll_bottom vt - 0 else lines) = l" "0 < l" "l \<le> scroll_bottom vt" using l b by auto
  let ?rs = "map (\<lambda>r. scroll_bottom vt - r - 1) [0..l - 1]"
  have rs: "r \<in> set ?rs \<longleftrightarrow> scroll_bottom vt - l \<le> r \<and> r < scroll_bottom vt" for r
  proof
    assume "scroll_bottom vt - l \<le> r \<and> r < scroll_bottom vt"
    then have "r = scroll_bottom vt - (scroll_bottom vt - 1 - r) - 1" "scroll_bottom vt - 1 - r \<in> set [0..l - 1]" by auto
    then show "r \<in> set ?rs" unfolding set_map by (rule image_eqI)
  qed auto
  let ?m = "if l < scroll_bottom vt - 0 then memmove_cells (scr_buf vt) (vt_char vt 0 0) (vt_char vt (l + 0) 0) (cols vt * (scroll_bottom vt - l))
    else Some (scr_buf vt)"
  have eq: "u_vt_scroll vt lines = Option.bind ?m (\<lambda>b. fill_rows (vt\<lparr>scr_buf := b\<rparr>) ?rs 0 (cols vt) blank_cell)"
    using l(1) unfolding u_vt_scroll_def Let_def t lm(1) by simp
  obtain buf where m: "?m = Some buf" "fill_rows (vt\<lparr>scr_buf := buf\<rparr>) ?rs 0 (cols vt) blank_cell = Some vt'"
    using v unfolding eq bind_eq_Some_conv by blast
  have buf: "length buf = length (scr_buf vt)"
    using m(1) by (auto simp: memmove_cells_def split: if_splits dest: store_cells_length)
  have "cell vt' r c = (if r + l < scroll_bottom vt then cell vt (r + l) c else if r < scroll_bottom vt then blank_cell else cell vt r c)"
    if q: "0 \<le> r" "r < rows vt" "0 \<le> c" "c < cols vt" for r c
  proof -
    have "cell vt' r c = (if r \<in> set ?rs then blank_cell else cell (vt\<lparr>scr_buf := buf\<rparr>) r c)"
      by (rule fill_rows_cell) (use m(2) q g buf rs b lm in auto)
    moreover have "cell (vt\<lparr>scr_buf := buf\<rparr>) r c =
        (if l < scroll_bottom vt \<and> r < scroll_bottom vt - l then cell vt (r + l) c else cell vt r c)"
    proof (cases "l < scroll_bottom vt")
      case True
      then have "memmove_cells (scr_buf vt) (vt_char vt 0 0) (vt_char vt l 0) (cols vt * (scroll_bottom vt - l)) = Some buf" using m(1) by simp
      from move_rows_cell [OF g q _ _ _ _ _ this] True lm b q show ?thesis by (simp add: cell_def vt_char_def)
    next
      case False
      then show ?thesis using m(1) by (simp add: cell_def vt_char_def)
    qed
    ultimately show ?thesis using rs [of r] lm(2,3) q(1) by auto
  qed
  with v show ?thesis by blast
qed

theorem vt_scroll_rows_witness:
  "\<exists>vt'. u_vt_scroll (example_vt\<lparr>scr_buf := [blank_cell, blank_cell, blank_cell, \<lparr>chr = 65, clr = 7\<rparr>]\<rparr>) 1 = Some vt' \<and>
     cell vt' 0 1 = \<lparr>chr = 65, clr = 7\<rparr> \<and> cell vt' 1 1 = blank_cell"
proof -
  let ?v = "example_vt\<lparr>scr_buf := [blank_cell, blank_cell, blank_cell, \<lparr>chr = 65, clr = 7\<rparr>]\<rparr>"
  have g: "vt_geom ?v" "scroll_top ?v = 0" "rows ?v = 2" "cols ?v = 2" "scroll_bottom ?v = 2"
    by (simp_all add: example_vt_def vt_geom_def)
  from vt_scroll_rows [OF g(1,2), of 1 1] g(3-) obtain vt' where "u_vt_scroll ?v 1 = Some vt'"
    "\<forall>r c. 0 \<le> r \<and> r < 2 \<and> 0 \<le> c \<and> c < 2 \<longrightarrow>
      cell vt' r c = (if r + 1 < 2 then cell ?v (r + 1) c else if r < 2 then blank_cell else cell ?v r c)" by auto
  moreover have "cell ?v 1 1 = \<lparr>chr = 65, clr = 7\<rparr>" using g(4) by (simp add: cell_def vt_char_def)
  ultimately show ?thesis by (intro exI [of _ vt']) simp
qed

end
