(* ===== verification/Strings.thy ===== *)
theory Strings
  imports Prelude
begin

text \<open>
  C strings: \<^verbatim>\<open>src/kernel/str/string.c\<close> and \<^verbatim>\<open>src/kernel/str/strtol.c\<close>. A string is the list of its bytes without
  the terminating zero byte. Characters are compared as C's signed \<^verbatim>\<open>char\<close>.
\<close>

type_synonym cstr = "u8 list"

abbreviation ch :: "char \<Rightarrow> u8" where
  "ch \<equiv> of_char"

abbreviation cs :: "string \<Rightarrow> cstr" where
  "cs \<equiv> map of_char"

section \<open>Model\<close>

definition toupper :: "u8 \<Rightarrow> u8" where
  "toupper c = (if ch CHR ''a'' \<le> c \<and> c \<le> ch CHR ''z'' then c AND NOT 0x20 else c)"

fun memcmp :: "u8 list \<Rightarrow> u8 list \<Rightarrow> nat \<Rightarrow> int" where
  "memcmp (c1 # s1) (c2 # s2) (Suc n) = (if c1 < c2 then -1 else if c1 > c2 then 1 else memcmp s1 s2 n)"
| "memcmp _ _ _ = 0"

fun strcasecmp :: "cstr \<Rightarrow> cstr \<Rightarrow> int" where
  "strcasecmp (a # s1) (b # s2) =
     (let c1 = toupper a; c2 = toupper b
      in if sint c1 > sint c2 then 1 else if sint c1 < sint c2 then -1 else strcasecmp s1 s2)"
| "strcasecmp (a # s1) [] = 1"
| "strcasecmp [] (b # s2) = -1"
| "strcasecmp [] [] = 0"

fun strcmp :: "cstr \<Rightarrow> cstr \<Rightarrow> int" where
  "strcmp (a # s1) (b # s2) =
     (if sint a > sint b then 1 else if sint a < sint b then -1 else strcmp s1 s2)"
| "strcmp (a # s1) [] = 1"
| "strcmp [] (b # s2) = -1"
| "strcmp [] [] = 0"

definition strlen :: "cstr \<Rightarrow> nat" where
  "strlen s = length s"

text \<open>The loop of \<^verbatim>\<open>strnlen\<close> does not advance the pointer, so it counts up to the limit on any string that is not empty.\<close>

fun strnlen_loop :: "cstr \<Rightarrow> nat \<Rightarrow> nat \<Rightarrow> nat" where
  "strnlen_loop s l 0 = l"
| "strnlen_loop s l (Suc n) = (if s \<noteq> [] then strnlen_loop s (l + 1) n else l)"

definition strnlen :: "cstr \<Rightarrow> nat \<Rightarrow> nat" where
  "strnlen s len = strnlen_loop s 0 len"

text \<open>\<^verbatim>\<open>strncat\<close> as the resulting string.\<close>

definition strncat :: "cstr \<Rightarrow> cstr \<Rightarrow> nat \<Rightarrow> cstr" where
  "strncat s1 s2 len = s1 @ take len s2"

definition strcat :: "cstr \<Rightarrow> cstr \<Rightarrow> cstr" where
  "strcat s1 s2 = s1 @ s2"

fun strncmp :: "cstr \<Rightarrow> cstr \<Rightarrow> nat \<Rightarrow> int" where
  "strncmp (a # s1) (b # s2) (Suc n) =
     (if sint a > sint b then 1 else if sint a < sint b then -1 else strncmp s1 s2 n)"
| "strncmp (a # s1) [] (Suc n) = 1"
| "strncmp [] (b # s2) (Suc n) = -1"
| "strncmp [] [] (Suc n) = 0"
| "strncmp s1 s2 0 = 0"

definition hexdigit :: "u8 \<Rightarrow> bool" where
  "hexdigit d \<longleftrightarrow> (ch CHR ''0'' \<le> d \<and> d \<le> ch CHR ''9'') \<or> (ch CHR ''a'' \<le> d \<and> d \<le> ch CHR ''z'') \<or> (ch CHR ''A'' \<le> d \<and> d \<le> ch CHR ''Z'')"

definition digitval :: "u8 \<Rightarrow> int" where
  "digitval d =
     (if ch CHR ''0'' \<le> d \<and> d \<le> ch CHR ''9'' then uint d - of_char CHR ''0''
      else if ch CHR ''a'' \<le> d \<and> d \<le> ch CHR ''z'' then uint d - of_char CHR ''a'' + 10
      else uint d - of_char CHR ''A'' + 10)"

text \<open>\<^verbatim>\<open>long\<close> has 32 bits, so the value wraps; the result carries the rest of the string, C's \<^verbatim>\<open>endp\<close>.\<close>

fun strtol_loop :: "int \<Rightarrow> cstr \<Rightarrow> int \<Rightarrow> int \<times> cstr" where
  "strtol_loop ret [] base = (ret, [])"
| "strtol_loop ret (c # s) base =
     (if hexdigit c \<and> digitval c < base then strtol_loop (signed_take_bit 31 (ret * base + digitval c)) s base
      else (ret, c # s))"

definition strtol :: "cstr \<Rightarrow> nat \<Rightarrow> int \<times> cstr" where
  "strtol str base =
     (if base \<noteq> 0 then strtol_loop 0 str (int base)
      else case str of
             (c # s) \<Rightarrow>
               if c = ch CHR ''0'' then (case s of (x # s') \<Rightarrow> if x = ch CHR ''x'' then strtol_loop 0 s' 16 else strtol_loop 0 s 8
                                       | [] \<Rightarrow> strtol_loop 0 s 8)
               else strtol_loop 0 str 10
           | [] \<Rightarrow> strtol_loop 0 str 10)"

section \<open>Comparison\<close>

lemma sint_cancel: "sint (a :: u8) = sint b \<longleftrightarrow> a = b"
  using signed_word_eqI [of a b] by auto

lemma strcmp_eq_0: "strcmp s t = 0 \<longleftrightarrow> s = t"
  by (induction s t rule: strcmp.induct) (auto simp: sint_cancel dest: sint_cancel [THEN iffD1])

lemma strcasecmp_eq: "strcasecmp s t = strcmp (map toupper s) (map toupper t)"
  by (induction s t rule: strcasecmp.induct) (auto simp: Let_def)

lemma strncmp_eq: "strncmp s t n = strcmp (take n s) (take n t)"
  by (induction s t n rule: strncmp.induct) auto

lemma strnlen_eq: "strnlen s n = (if s = [] then 0 else n)"
proof -
  have "strnlen_loop s l n = (if s = [] then l else l + n)" for l
    by (induction n arbitrary: l) auto
  then show ?thesis by (simp add: strnlen_def)
qed

end
