(* ===== verification/Kparam.thy ===== *)
theory Kparam
  imports Strings
begin

text \<open>
  The kernel command line, \<^verbatim>\<open>src/kernel/kparam.c\<close>. The linker table of parameters is a list; a parameter points
  to a variable, named by a number, and may have a setup hook. The state holds the variables
  and the log of the hooks that were called. Messages are left out.
\<close>

section \<open>Model\<close>

datatype kparam_type = KPARAM_BOOL | KPARAM_INT | KPARAM_STRING | KPARAM_LOGLEVEL

record kparam =
  kp_name :: cstr
  kp_param :: nat
  kp_setup :: bool
  kp_type :: kparam_type

datatype kvalue = KInt int | KStr cstr

record kparam_state =
  kp_vars :: "nat \<Rightarrow> kvalue option"
  kp_setup_calls :: "nat list"

record cmd_arg =
  arg_name :: cstr
  arg_value :: cstr

definition parse_bool :: "cstr \<Rightarrow> int" where
  "parse_bool v =
     (if strcasecmp v (cs ''true'') = 0 then 1
      else if strcasecmp v (cs ''on'') = 0 then 1
      else if strcasecmp v (cs ''false'') = 0 then 0
      else if strcasecmp v (cs ''off'') = 0 then 0
      else if strcmp v (cs ''1'') = 0 then 1
      else if strcmp v (cs ''0'') = 0 then 0
      else -1)"

definition parse_int :: "cstr \<Rightarrow> int option" where
  "parse_int v = (case strtol v 10 of (result, endp) \<Rightarrow> if endp \<noteq> [] then None else Some result)"

text \<open>The parsers store the value and return success; on an invalid value the state is unchanged.\<close>

definition kparam_parse_bool :: "kparam \<Rightarrow> cmd_arg \<Rightarrow> kparam_state \<Rightarrow> kparam_state \<times> bool" where
  "kparam_parse_bool param arg s =
     (let val = parse_bool (arg_value arg)
      in if val = -1 then (s, False) else (s\<lparr>kp_vars := (kp_vars s)(kp_param param \<mapsto> KInt val)\<rparr>, True))"

definition kparam_parse_string :: "kparam \<Rightarrow> cmd_arg \<Rightarrow> kparam_state \<Rightarrow> kparam_state \<times> bool" where
  "kparam_parse_string param arg s = (s\<lparr>kp_vars := (kp_vars s)(kp_param param \<mapsto> KStr (arg_value arg))\<rparr>, True)"

definition kparam_parse_int :: "kparam \<Rightarrow> cmd_arg \<Rightarrow> kparam_state \<Rightarrow> kparam_state \<times> bool" where
  "kparam_parse_int param arg s =
     (case parse_int (arg_value arg) of
        None \<Rightarrow> (s, False)
      | Some val \<Rightarrow> (s\<lparr>kp_vars := (kp_vars s)(kp_param param \<mapsto> KInt val)\<rparr>, True))"

definition parse_loglevel :: "cstr \<Rightarrow> int option" where
  "parse_loglevel v =
     (if strcasecmp v (cs ''error'') = 0 then Some 0
      else if strcasecmp v (cs ''warning'') = 0 then Some 1
      else if strcasecmp v (cs ''normal'') = 0 then Some 2
      else if strcasecmp v (cs ''debug'') = 0 then Some 3
      else if strcasecmp v (cs ''trace'') = 0 then Some 4
      else case strtol v 10 of (result, endp) \<Rightarrow> if endp \<noteq> [] then None else Some result)"

definition kparam_parse_loglevel :: "kparam \<Rightarrow> cmd_arg \<Rightarrow> kparam_state \<Rightarrow> kparam_state \<times> bool" where
  "kparam_parse_loglevel param arg s =
     (case parse_loglevel (arg_value arg) of
        None \<Rightarrow> (s, False)
      | Some val \<Rightarrow> (s\<lparr>kp_vars := (kp_vars s)(kp_param param \<mapsto> KInt val)\<rparr>, True))"

fun process_argument :: "kparam list \<Rightarrow> cmd_arg \<Rightarrow> kparam_state \<Rightarrow> kparam_state" where
  "process_argument [] arg s = s"
| "process_argument (param # params) arg s =
     (if strcasecmp (kp_name param) (arg_name arg) \<noteq> 0 then process_argument params arg s
      else case (case kp_type param of
                   KPARAM_BOOL \<Rightarrow> kparam_parse_bool param arg s
                 | KPARAM_INT \<Rightarrow> kparam_parse_int param arg s
                 | KPARAM_STRING \<Rightarrow> kparam_parse_string param arg s
                 | KPARAM_LOGLEVEL \<Rightarrow> kparam_parse_loglevel param arg s) of
             (s, ok) \<Rightarrow>
               if ok \<and> kp_setup param then s\<lparr>kp_setup_calls := kp_setup_calls s @ [kp_param param]\<rparr> else s)"

definition is_whitespace :: "u8 \<Rightarrow> bool" where
  "is_whitespace c \<longleftrightarrow> c = ch CHR '' '' \<or> c = 9"

datatype parse_state = STATE_ARG_BEGIN | STATE_ARG_EQUALS | STATE_VALUE_BEGIN | STATE_ARG_END

text \<open>
  The loop of \<^verbatim>\<open>kernel_cmdline_init\<close>. The code cuts the names and the values out of the command line by
  overwriting the delimiters with zero bytes; here \<open>arg\<close> collects them character by character.
\<close>

fun cmdline_loop :: "kparam list \<Rightarrow> parse_state \<Rightarrow> cmd_arg \<Rightarrow> cstr \<Rightarrow> kparam_state \<Rightarrow> kparam_state" where
  "cmdline_loop params st arg [] s = (if st = STATE_ARG_END then process_argument params arg s else s)"
| "cmdline_loop params st arg (c # l) s =
     (case st of
        STATE_ARG_BEGIN \<Rightarrow>
          if \<not> is_whitespace c then cmdline_loop params STATE_ARG_EQUALS (arg\<lparr>arg_name := [c]\<rparr>) l s
          else cmdline_loop params STATE_ARG_BEGIN arg l s
      | STATE_ARG_EQUALS \<Rightarrow>
          if c = ch CHR ''='' then cmdline_loop params STATE_VALUE_BEGIN arg l s
          else if is_whitespace c then cmdline_loop params STATE_ARG_BEGIN (arg\<lparr>arg_name := []\<rparr>) l s
          else cmdline_loop params STATE_ARG_EQUALS (arg\<lparr>arg_name := arg_name arg @ [c]\<rparr>) l s
      | STATE_VALUE_BEGIN \<Rightarrow>
          if is_whitespace c
          then let arg = arg\<lparr>arg_value := []\<rparr>
               in cmdline_loop params STATE_ARG_BEGIN arg l (process_argument params arg s)
          else cmdline_loop params STATE_ARG_END (arg\<lparr>arg_value := [c]\<rparr>) l s
      | STATE_ARG_END \<Rightarrow>
          if is_whitespace c
          then cmdline_loop params STATE_ARG_BEGIN (arg\<lparr>arg_name := [], arg_value := []\<rparr>) l (process_argument params arg s)
          else cmdline_loop params STATE_ARG_END (arg\<lparr>arg_value := arg_value arg @ [c]\<rparr>) l s)"

definition kernel_cmdline_init :: "kparam list \<Rightarrow> cstr \<Rightarrow> kparam_state \<Rightarrow> kparam_state" where
  "kernel_cmdline_init params l s = cmdline_loop params STATE_ARG_BEGIN \<lparr>arg_name = [], arg_value = []\<rparr> l s"

section \<open>Command lines\<close>

text \<open>An argument as it is written on the command line, and what names and values may contain.\<close>

definition arg_text :: "cmd_arg \<Rightarrow> cstr" where
  "arg_text arg = arg_name arg @ [ch CHR ''=''] @ arg_value arg"

definition arg_ok :: "cmd_arg \<Rightarrow> bool" where
  "arg_ok arg \<longleftrightarrow> arg_name arg \<noteq> [] \<and> list_all (\<lambda>c. \<not> is_whitespace c \<and> c \<noteq> ch CHR ''='') (arg_name arg) \<and>
     list_all (\<lambda>c. \<not> is_whitespace c) (arg_value arg)"

text \<open>Every argument is followed by a blank.\<close>

definition cmdline_text :: "cmd_arg list \<Rightarrow> cstr" where
  "cmdline_text args = concat (map (\<lambda>arg. arg_text arg @ [ch CHR '' '']) args)"

lemma name_loop:
  "list_all (\<lambda>c. \<not> is_whitespace c \<and> c \<noteq> ch CHR ''='') n \<Longrightarrow>
   cmdline_loop params STATE_ARG_EQUALS arg (n @ [ch CHR ''=''] @ l) s =
   cmdline_loop params STATE_VALUE_BEGIN (arg\<lparr>arg_name := arg_name arg @ n\<rparr>) l s"
  by (induction n arbitrary: arg) auto

lemma value_loop:
  "list_all (\<lambda>c. \<not> is_whitespace c) v \<Longrightarrow>
   cmdline_loop params STATE_ARG_END arg (v @ l) s =
   cmdline_loop params STATE_ARG_END (arg\<lparr>arg_value := arg_value arg @ v\<rparr>) l s"
  by (induction v arbitrary: arg) auto

lemma blank [simp]: "is_whitespace (ch CHR '' '')" "is_whitespace 32"
  by (simp_all add: is_whitespace_def)

lemma arg_parsed:
  assumes "arg_ok a"
  shows "cmdline_loop params STATE_ARG_BEGIN arg (arg_text a @ l) s =
    (if arg_value a = [] then cmdline_loop params STATE_VALUE_BEGIN (arg\<lparr>arg_name := arg_name a\<rparr>) l s
     else cmdline_loop params STATE_ARG_END (arg\<lparr>arg_name := arg_name a, arg_value := arg_value a\<rparr>) l s)"
proof -
  obtain c n where n: "arg_name a = c # n" "\<not> is_whitespace c"
      "list_all (\<lambda>c. \<not> is_whitespace c \<and> c \<noteq> ch CHR ''='') n"
    using assms by (cases "arg_name a") (auto simp: arg_ok_def)
  have v: "list_all (\<lambda>c. \<not> is_whitespace c) (arg_value a)" using assms by (simp add: arg_ok_def)
  let ?arg = "arg\<lparr>arg_name := c # n\<rparr>"
  have "cmdline_loop params STATE_ARG_BEGIN arg (arg_text a @ l) s =
      cmdline_loop params STATE_VALUE_BEGIN ?arg (arg_value a @ l) s"
    using n(2) name_loop [OF n(3), of params "arg\<lparr>arg_name := [c]\<rparr>" "arg_value a @ l" s]
    unfolding arg_text_def n(1) by simp
  moreover have "cmdline_loop params STATE_VALUE_BEGIN ?arg (arg_value a @ l) s =
      cmdline_loop params STATE_ARG_END (?arg\<lparr>arg_value := arg_value a\<rparr>) l s" if "arg_value a = d # w" for d w
  proof -
    have "list_all (\<lambda>c. \<not> is_whitespace c) w" "\<not> is_whitespace d" using that v by simp_all
    with value_loop [OF this(1), of params "?arg\<lparr>arg_value := [d]\<rparr>" l s] show ?thesis by (simp add: that)
  qed
  ultimately show ?thesis by (cases "arg_value a") (simp_all add: n(1))
qed

definition process_all :: "kparam list \<Rightarrow> cmd_arg list \<Rightarrow> kparam_state \<Rightarrow> kparam_state" where
  "process_all params args s = foldl (\<lambda>s a. process_argument params a s) s args"

lemma args_loop:
  "list_all arg_ok args \<Longrightarrow>
   \<exists>arg'. cmdline_loop params STATE_ARG_BEGIN arg (cmdline_text args @ l) s =
     cmdline_loop params STATE_ARG_BEGIN arg' l (process_all params args s)"
proof (induction args arbitrary: arg s)
  case Nil
  show ?case by (rule exI [of _ arg]) (simp add: cmdline_text_def process_all_def)
next
  case (Cons a as)
  have "\<exists>arg'. cmdline_loop params STATE_ARG_BEGIN arg (arg_text a @ [ch CHR '' ''] @ cmdline_text as @ l) s =
      cmdline_loop params STATE_ARG_BEGIN arg' (cmdline_text as @ l) (process_argument params a s)"
    using arg_parsed [of a params arg "[ch CHR '' ''] @ cmdline_text as @ l" s] Cons.prems
    by (cases a; cases arg; cases "arg_value a = []") (auto simp: Let_def)
  then obtain arg' where "cmdline_loop params STATE_ARG_BEGIN arg (cmdline_text (a # as) @ l) s =
      cmdline_loop params STATE_ARG_BEGIN arg' (cmdline_text as @ l) (process_argument params a s)"
    by (auto simp: cmdline_text_def)
  then show ?case using Cons.IH [of arg' "process_argument params a s"] Cons.prems by (simp add: process_all_def)
qed

section \<open>Properties\<close>



end
