(* ===== verification/Printf.thy ===== *)
theory Printf
  imports Strings
begin

text \<open>
  The formatted output of \<^verbatim>\<open>src/kernel/str/basic_printf.c\<close> and the string backbone of
  \<^verbatim>\<open>src/kernel/str/sprintf.c\<close>. A backbone is the pair of output functions on a state type; the variable
  arguments are a list of typed values. A wrong argument type, a signed overflow or a write outside of the
  number buffer gives \<^term>\<open>None\<close>.
\<close>

section \<open>Backbones and arguments\<close>

record 'b printf_backbone =
  pb_putchar :: "'b \<Rightarrow> u8 \<Rightarrow> 'b"
  pb_putnstr :: "('b \<Rightarrow> u8 list \<Rightarrow> 'b) option"

datatype parg = AInt u32 | ALong "64 word" | AStr "cstr option"

type_synonym va_list = "parg list"

fun va_int :: "va_list \<Rightarrow> (u32 \<times> va_list) option" where
  "va_int (AInt i # args) = Some (i, args)"
| "va_int _ = None"

fun va_long :: "va_list \<Rightarrow> (64 word \<times> va_list) option" where
  "va_long (ALong i # args) = Some (i, args)"
| "va_long _ = None"

fun va_str :: "va_list \<Rightarrow> (cstr option \<times> va_list) option" where
  "va_str (AStr s # args) = Some (s, args)"
| "va_str _ = None"

text \<open>Signed 32-bit arithmetic: an overflow has no result.\<close>

definition c_int :: "int \<Rightarrow> int option" where
  "c_int i = (if - (2 ^ 31) \<le> i \<and> i < 2 ^ 31 then Some i else None)"

section \<open>Model\<close>

definition inttohex :: "bool \<Rightarrow> nat \<Rightarrow> u8" where
  "inttohex caps d = (if caps then cs ''0123456789ABCDEF'' else cs ''0123456789abcdef'') ! d"

definition basic_printf_add_str :: "'b printf_backbone \<Rightarrow> 'b \<Rightarrow> u8 list option \<Rightarrow> 'b" where
  "basic_printf_add_str backbone st s =
     (let s = (case s of None \<Rightarrow> cs ''(null)'' | Some s \<Rightarrow> s)
      in case pb_putnstr backbone of
           Some putnstr \<Rightarrow> putnstr st s
         | None \<Rightarrow> foldl (pb_putchar backbone) st s)"

text \<open>The width parser of \<^verbatim>\<open>escape_string\<close>: \<open>use_max\<close> says which of the two widths \<^verbatim>\<open>use_width\<close> points to.\<close>

fun string_widths :: "cstr \<Rightarrow> bool \<Rightarrow> int \<Rightarrow> int \<Rightarrow> va_list \<Rightarrow> (int \<times> int \<times> va_list) option" where
  "string_widths [] use_max width max_width args = Some (width, max_width, args)"
| "string_widths (c # code) use_max width max_width args =
     (let w = (if use_max then max_width else width);
          continue_with = (\<lambda>w args. if use_max then string_widths code use_max width w args
                                    else string_widths code use_max w max_width args)
      in if c = ch CHR ''0'' then
           (if w \<noteq> -1 then do { w' \<leftarrow> c_int (w * 10); continue_with w' args } else continue_with w args)
         else if ch CHR ''1'' \<le> c \<and> c \<le> ch CHR ''9'' then
           (if w = -1 then continue_with (uint c - of_char CHR ''0'') args
            else do { w' \<leftarrow> c_int (w * 10 + (uint c - of_char CHR ''0'')); continue_with w' args })
         else if c = ch CHR ''*'' then do { (i, args) \<leftarrow> va_int args; continue_with (sint i) args }
         else if c = ch CHR ''.'' then string_widths code True width max_width args
         else Some (width, max_width, args))"

text \<open>Comparisons of an \<^verbatim>\<open>int\<close> width with a \<^verbatim>\<open>size_t\<close> length are unsigned.\<close>

definition to_size :: "int \<Rightarrow> nat" where
  "to_size i = nat (i mod 2 ^ 32)"

definition escape_string ::
  "'b printf_backbone \<Rightarrow> 'b \<Rightarrow> cstr \<Rightarrow> va_list \<Rightarrow> ('b \<times> va_list) option" where
  "escape_string backbone st code args = do {
     (width, max_width, args) \<leftarrow> string_widths code False (-1) (-1) args;
     (s, args) \<leftarrow> va_str args;
     let s = (case s of None \<Rightarrow> cs ''(null)'' | Some s \<Rightarrow> s);
     let slen = strlen s;
     let (width, slen) =
       (if max_width \<noteq> -1
        then (if width > max_width then max_width else width, if slen > to_size max_width then to_size max_width else slen)
        else (width, slen));
     let st = basic_printf_add_str backbone st (Some (take slen s));
     let st = (if width \<noteq> -1 \<and> to_size width > slen
               then foldl (pb_putchar backbone) st (replicate (to_size width - slen) (ch CHR '' '')) else st);
     Some (st, args)
   }"

text \<open>The digits of the loop in \<^verbatim>\<open>display_integer\<close>, in the order in which they stand in the buffer.\<close>

fun integer_digits :: "nat \<Rightarrow> cstr \<Rightarrow> cstr" where
  "integer_digits i ebuf = (if i = 0 then ebuf else integer_digits (i div 10) (inttohex False (i mod 10) # ebuf))"

declare integer_digits.simps [simp del]

text \<open>The buffer has 26 bytes and is filled from its last but one byte downwards.\<close>

definition display_integer ::
  "'b printf_backbone \<Rightarrow> 'b \<Rightarrow> 64 word \<Rightarrow> u32 \<Rightarrow> bool \<Rightarrow> int \<Rightarrow> bool \<Rightarrow> 'b option" where
  "display_integer backbone st orig width zero_pad force_width is_neg =
     (let ebuf = (if orig = 0 then [ch CHR ''0''] else integer_digits (unat orig) []);
          ebuf = (if force_width \<noteq> 0 \<and> zero_pad then replicate (unat width - length ebuf) (ch CHR ''0'') @ ebuf else ebuf);
          ebuf = (if is_neg then ch CHR ''-'' # ebuf else ebuf)
      in if length ebuf \<le> 25 then Some (basic_printf_add_str backbone st (Some ebuf)) else None)"

record int_flags =
  if_width :: u32
  zero_pad :: bool
  force_width :: int
  l_count :: nat

fun integer_flags :: "cstr \<Rightarrow> int_flags \<Rightarrow> int_flags option" where
  "integer_flags [] fl = Some fl"
| "integer_flags (c # code) fl =
     (if c = ch CHR ''0'' then
        (if force_width fl = 0 then integer_flags code (fl\<lparr>zero_pad := True\<rparr>)
         else do { f \<leftarrow> c_int (force_width fl * 10); integer_flags code (fl\<lparr>force_width := f\<rparr>) })
      else if ch CHR ''1'' \<le> c \<and> c \<le> ch CHR ''9'' then
        integer_flags code (fl\<lparr>if_width := if_width fl * 10 + (ucast c - of_char CHR ''0''), force_width := 1\<rparr>)
      else if c = ch CHR ''l'' then integer_flags code (fl\<lparr>l_count := l_count fl + 1\<rparr>)
      else integer_flags code fl)"

definition escape_integer ::
  "'b printf_backbone \<Rightarrow> 'b \<Rightarrow> cstr \<Rightarrow> va_list \<Rightarrow> ('b \<times> va_list) option" where
  "escape_integer backbone st code args = do {
     fl \<leftarrow> integer_flags (butlast code) \<lparr>if_width = 0, zero_pad = False, force_width = 0, l_count = 0\<rparr>;
     (orig, is_neg, args) \<leftarrow>
       (if last code = ch CHR ''d'' then do {
          (signed_orig, args) \<leftarrow>
            (if l_count fl = 2 then map_option (\<lambda>(i, a). (sint i, a)) (va_long args)
             else map_option (\<lambda>(i, a). (sint i, a)) (va_int args));
          if signed_orig = - (2 ^ 63) then None
          else if signed_orig < 0 then Some (word_of_int (- signed_orig), True, args)
          else Some (word_of_int signed_orig, False, args) }
        else if last code = ch CHR ''u'' then
          (if l_count fl = 2 then map_option (\<lambda>(i, a). (i, False, a)) (va_long args)
           else map_option (\<lambda>(i, a). (ucast i, False, a)) (va_int args))
        else Some (0, False, args));
     st \<leftarrow> display_integer backbone st orig (if_width fl) (zero_pad fl) (force_width fl) is_neg;
     Some (st, args)
   }"

text \<open>The width of \<^verbatim>\<open>escape_hex\<close>; the third component is the index at which the loop stopped.\<close>

fun hex_flags :: "cstr \<Rightarrow> bool \<Rightarrow> int \<Rightarrow> nat \<Rightarrow> (bool \<times> int \<times> nat) option" where
  "hex_flags [] zp width i = Some (zp, width, i)"
| "hex_flags (c # code) zp width i =
     (if c = ch CHR ''0'' then
        (if width = -1 then hex_flags code True width (i + 1)
         else do { w \<leftarrow> c_int (width * 10); hex_flags code zp w (i + 1) })
      else if ch CHR ''1'' \<le> c \<and> c \<le> ch CHR ''9'' then
        (if width = -1 then hex_flags code zp (uint c - of_char CHR ''0'') (i + 1)
         else do { w \<leftarrow> c_int (width * 10 + (uint c - of_char CHR ''0'')); hex_flags code zp w (i + 1) })
      else Some (zp, width, i))"

function hex_loop :: "bool \<Rightarrow> bool \<Rightarrow> int \<Rightarrow> nat \<Rightarrow> int \<Rightarrow> cstr \<Rightarrow> int \<times> cstr" where
  "hex_loop caps zp width val i ebuf =
     (if (zp \<and> i < width) \<or> val \<noteq> 0
      then hex_loop caps zp width (val div 16) (i + 1) (inttohex caps (val mod 16) # ebuf)
      else (i, ebuf))"
  by pat_completeness auto

termination
  by (relation "measure (\<lambda>(caps, zp, width, val, i, ebuf). nat (width - i) + val)") auto

declare hex_loop.simps [simp del]

text \<open>Here the buffer has 18 bytes.\<close>

definition escape_hex ::
  "'b printf_backbone \<Rightarrow> 'b \<Rightarrow> cstr \<Rightarrow> va_list \<Rightarrow> ('b \<times> va_list) option" where
  "escape_hex backbone st code args = do {
     (zp, width, i) \<leftarrow> hex_flags (butlast code) False (-1) 0;
     let bytes = (if i < length code \<and> code ! i = ch CHR ''l'' \<and> i + 1 < length code \<and> code ! (i + 1) = ch CHR ''l''
                  then 8 else - 1 :: int);
     let c = last code;
     let caps = (c = ch CHR ''P'' \<or> c = ch CHR ''X'');
     let ptr = (c = ch CHR ''P'' \<or> c = ch CHR ''p'');
     let bytes = (if (ptr \<or> c = ch CHR ''X'' \<or> c = ch CHR ''x'') \<and> bytes = -1 then 4 else bytes);
     let zp = (zp \<or> ptr);
     (val, args) \<leftarrow> (if bytes = 4 then map_option (\<lambda>(v, a). (unat v, a)) (va_int args)
                     else map_option (\<lambda>(v, a). (unat v, a)) (va_long args));
     let width = (if width = -1 then bytes * 2 else width);
     let (i, ebuf) = hex_loop caps zp width val 0 [];
     let ebuf = replicate (nat (width - i)) (ch CHR '' '') @ ebuf;
     let ebuf = (if ptr then cs ''0x'' @ ebuf else ebuf);
     if length ebuf \<le> 17 then Some (basic_printf_add_str backbone st (Some ebuf), args) else None
   }"

definition escape_char ::
  "'b printf_backbone \<Rightarrow> 'b \<Rightarrow> cstr \<Rightarrow> va_list \<Rightarrow> ('b \<times> va_list) option" where
  "escape_char backbone st code args = do {
     (c, args) \<leftarrow> va_int args;
     Some (pb_putchar backbone st (ucast c), args)
   }"

definition escape_codes ::
  "(u8 \<times> ('b printf_backbone \<Rightarrow> 'b \<Rightarrow> cstr \<Rightarrow> va_list \<Rightarrow> ('b \<times> va_list) option)) list" where
  "escape_codes =
     [(ch CHR ''x'', escape_hex), (ch CHR ''X'', escape_hex), (ch CHR ''p'', escape_hex), (ch CHR ''P'', escape_hex),
      (ch CHR ''d'', escape_integer), (ch CHR ''u'', escape_integer), (ch CHR ''s'', escape_string),
      (ch CHR ''c'', escape_char)]"

text \<open>
  \<^verbatim>\<open>handle_escape\<close>: \<open>start\<close> holds the characters between the percent sign and the current position. The
  result carries the format behind the conversion character; without one, the whole rest is skipped.
\<close>

fun handle_escape ::
  "'b printf_backbone \<Rightarrow> 'b \<Rightarrow> cstr \<Rightarrow> cstr \<Rightarrow> va_list \<Rightarrow> ('b \<times> va_list \<times> cstr) option" where
  "handle_escape backbone st start [] args = Some (st, args, [])"
| "handle_escape backbone st start (c # s) args =
     (case map_of escape_codes c of
        Some write_fn \<Rightarrow> map_option (\<lambda>(st, args). (st, args, s)) (write_fn backbone st (start @ [c]) args)
      | None \<Rightarrow> handle_escape backbone st (start @ [c]) s args)"

lemma handle_escape_shorter:
  "handle_escape backbone st start s args = Some (st', args', rest) \<Longrightarrow> length rest \<le> length s"
  by (induction backbone st start s args rule: handle_escape.induct) (auto split: option.splits)

text \<open>\<open>lit\<close> holds the characters from \<^verbatim>\<open>last_c\<close> to the current position.\<close>

function basic_printfv_loop ::
  "'b printf_backbone \<Rightarrow> 'b \<Rightarrow> cstr \<Rightarrow> cstr \<Rightarrow> va_list \<Rightarrow> 'b option" where
  "basic_printfv_loop backbone st lit [] args =
     Some (if lit \<noteq> [] then basic_printf_add_str backbone st (Some lit) else st)"
| "basic_printfv_loop backbone st lit (c # s) args =
     (if c \<noteq> ch CHR ''%'' then basic_printfv_loop backbone st (lit @ [c]) s args
      else let st = (if lit \<noteq> [] then basic_printf_add_str backbone st (Some lit) else st)
           in case handle_escape backbone st [] s args of
                None \<Rightarrow> None
              | Some (st, args, rest) \<Rightarrow> basic_printfv_loop backbone st [] rest args)"
  by pat_completeness auto

termination
  by (relation "measure (\<lambda>(backbone, st, lit, s, args). length s)") (auto dest: handle_escape_shorter)

definition basic_printfv :: "'b printf_backbone \<Rightarrow> 'b \<Rightarrow> cstr \<Rightarrow> va_list \<Rightarrow> 'b option" where
  "basic_printfv backbone st s args = basic_printfv_loop backbone st [] s args"

text \<open>
  The string backbone: the target buffer, the position in it and the space that is left. A store
  outside of the buffer gives \<^term>\<open>None\<close>, which the state type carries along.
\<close>

record printf_backbone_str =
  str_mem :: "u8 list"
  str_buf :: nat
  str_left :: nat

definition str_put :: "printf_backbone_str \<Rightarrow> u8 list \<Rightarrow> printf_backbone_str option" where
  "str_put str bs =
     (if bs = [] \<or> str_buf str + length bs \<le> length (str_mem str)
      then Some (str\<lparr>str_mem := take (str_buf str) (str_mem str) @ bs @ drop (str_buf str + length bs) (str_mem str),
                     str_buf := str_buf str + length bs, str_left := str_left str - length bs\<rparr>)
      else None)"

definition str_putchar :: "printf_backbone_str option \<Rightarrow> u8 \<Rightarrow> printf_backbone_str option" where
  "str_putchar str c = do { str \<leftarrow> str; if str_left str \<le> 0 then Some str else str_put str [c] }"

definition str_putnstr :: "printf_backbone_str option \<Rightarrow> u8 list \<Rightarrow> printf_backbone_str option" where
  "str_putnstr str s = do {
     str \<leftarrow> str;
     if str_left str \<ge> length s then str_put str s else str_put str (take (str_left str) s)
   }"

text \<open>\<^verbatim>\<open>snprintfv\<close> on a buffer \<open>mem\<close>: \<open>len - 1\<close> is unsigned. The result is the new buffer and the returned count.\<close>

definition snprintfv :: "u8 list \<Rightarrow> nat \<Rightarrow> cstr \<Rightarrow> va_list \<Rightarrow> (u8 list \<times> int) option" where
  "snprintfv mem len fmt lst = do {
     str \<leftarrow> basic_printfv \<lparr>pb_putchar = str_putchar, pb_putnstr = Some str_putnstr\<rparr>
              (Some \<lparr>str_mem = mem, str_buf = 0, str_left = (len + 2 ^ 32 - 1) mod 2 ^ 32\<rparr>) fmt lst;
     str \<leftarrow> str;
     mem \<leftarrow> (if str_buf str < length (str_mem str) then Some ((str_mem str)[str_buf str := 0]) else None);
     Some (mem, signed_take_bit 31 (int len - int (str_left str) - 1))
   }"

section \<open>The text of a format\<close>

definition list_backbone :: "u8 list printf_backbone" where
  "list_backbone = \<lparr>pb_putchar = (\<lambda>out c. out @ [c]), pb_putnstr = Some (\<lambda>out s. out @ s)\<rparr>"

text \<open>The text that a format and its arguments denote: what the routine emits, without any bound.\<close>

definition format_text :: "cstr \<Rightarrow> va_list \<Rightarrow> u8 list option" where
  "format_text fmt args = basic_printfv list_backbone [] fmt args"

text \<open>Rules that descend in parallel into two programs that differ in their backbone only.\<close>

lemma rel_bind_same:
  "(\<And>x. rel_option R (f x) (g x)) \<Longrightarrow> rel_option R (Option.bind m f) (Option.bind m g)"
  by (cases m) auto

lemma rel_prod_same:
  "(\<And>a b. rel_option R (f a b) (g a b)) \<Longrightarrow> rel_option R (case x of (a, b) \<Rightarrow> f a b) (case x of (a, b) \<Rightarrow> g a b)"
  by (cases x) auto

lemma rel_let_same:
  "(\<And>y. rel_option R (f y) (g y)) \<Longrightarrow> rel_option R (Let x f) (Let x g)"
  by (simp add: Let_def)

lemmas rel_same = rel_bind_same rel_prod_same rel_let_same

text \<open>
  The contract between the formatter and a backbone: \<open>emitted out st\<close> says that \<open>st\<close> is a state of the
  backbone in which the text \<open>out\<close> has been emitted; both output functions extend the text.
\<close>

locale printf_sink =
  fixes bb :: "'b printf_backbone" and emitted :: "u8 list \<Rightarrow> 'b \<Rightarrow> bool"
  assumes putchar_emitted: "emitted out st \<Longrightarrow> emitted (out @ [c]) (pb_putchar bb st c)"
    and putnstr_emitted: "pb_putnstr bb = Some f \<Longrightarrow> emitted out st \<Longrightarrow> emitted (out @ s) (f st s)"
begin

lemma putchars_emitted: "emitted out st \<Longrightarrow> emitted (out @ s) (foldl (pb_putchar bb) st s)"
proof (induction s arbitrary: out st)
  case (Cons c s)
  from Cons.IH [OF putchar_emitted [OF Cons.prems, of c]] show ?case by simp
qed simp

lemma add_str_emitted: "emitted out st \<Longrightarrow> emitted (basic_printf_add_str list_backbone out s) (basic_printf_add_str bb st s)"
  by (auto simp: basic_printf_add_str_def list_backbone_def Let_def putchars_emitted putnstr_emitted split: option.split)

lemma list_putchars: "foldl (pb_putchar list_backbone) out s = out @ s"
  by (induction s arbitrary: out) (auto simp: list_backbone_def)

lemma escape_string_emitted:
  "emitted out st \<Longrightarrow>
   rel_option (rel_prod emitted (=)) (escape_string list_backbone out code args) (escape_string bb st code args)"
  unfolding escape_string_def by (intro rel_same) (auto simp: Let_def list_putchars intro!: add_str_emitted putchars_emitted)

lemma escape_integer_emitted:
  "emitted out st \<Longrightarrow>
   rel_option (rel_prod emitted (=)) (escape_integer list_backbone out code args) (escape_integer bb st code args)"
  unfolding escape_integer_def by (intro rel_same) (auto simp: display_integer_def Let_def intro!: add_str_emitted)

lemma escape_hex_emitted:
  "emitted out st \<Longrightarrow>
   rel_option (rel_prod emitted (=)) (escape_hex list_backbone out code args) (escape_hex bb st code args)"
  unfolding escape_hex_def by (intro rel_same) (auto intro!: add_str_emitted)

lemma escape_char_emitted:
  assumes "emitted out st"
  shows "rel_option (rel_prod emitted (=)) (escape_char list_backbone out code args) (escape_char bb st code args)"
proof -
  have "emitted (pb_putchar list_backbone out c) (pb_putchar bb st c)" for c
    using putchar_emitted [OF assms] by (simp add: list_backbone_def)
  then show ?thesis by (auto simp: escape_char_def split: Option.bind_split prod.split)
qed

lemmas escapes_emitted = escape_string_emitted escape_integer_emitted escape_hex_emitted escape_char_emitted

lemma handle_escape_emitted:
  "emitted out st \<Longrightarrow>
   rel_option (rel_prod emitted (=)) (handle_escape list_backbone out start s args) (handle_escape bb st start s args)"
proof (induction s arbitrary: start)
  case (Cons c s)
  consider (none) "map_of escape_codes c = (None :: (u8 list printf_backbone \<Rightarrow> _) option)" "map_of escape_codes c = (None :: ('b printf_backbone \<Rightarrow> _) option)"
    | (some) f g where "map_of escape_codes c = Some f" "map_of escape_codes c = Some g"
      "rel_option (rel_prod emitted (=)) (f list_backbone out (start @ [c]) args) (g bb st (start @ [c]) args)"
    using escapes_emitted [OF Cons.prems] by (fastforce simp: escape_codes_def split: if_splits)
  then show ?case
  proof cases
    case none
    then show ?thesis using Cons by simp
  next
    case some
    from some(3) show ?thesis using some(1,2)
      by (auto simp: option.rel_map intro: option.rel_mono_strong)
  qed
qed simp

lemma loop_emitted:
  "emitted out st \<Longrightarrow>
   rel_option emitted (basic_printfv_loop list_backbone out lit s args) (basic_printfv_loop bb st lit s args)"
proof (induction "length s" arbitrary: out st lit s args rule: less_induct)
  case less
  show ?case
  proof (cases s)
    case Nil
    then show ?thesis using less.prems by (auto intro: add_str_emitted)
  next
    case (Cons c s')
    show ?thesis
    proof (cases "c = ch CHR ''%''")
      case False
      then show ?thesis using less.hyps [OF _ less.prems, of s'] Cons by simp
    next
      case True
      let ?out = "if lit \<noteq> [] then basic_printf_add_str list_backbone out (Some lit) else out"
      let ?st = "if lit \<noteq> [] then basic_printf_add_str bb st (Some lit) else st"
      have "emitted ?out ?st" using less.prems by (auto intro: add_str_emitted)
      note h = handle_escape_emitted [OF this, of "[]" s' args]
      show ?thesis
      proof (cases "handle_escape list_backbone ?out [] s' args")
        case None
        then show ?thesis using h Cons True by (simp add: Let_def)
      next
        case (Some r)
        then obtain o2 a rest where r: "handle_escape list_backbone ?out [] s' args = Some (o2, a, rest)" by (cases r) auto
        then obtain s2 where s2: "handle_escape bb ?st [] s' args = Some (s2, a, rest)" "emitted o2 s2"
          using h by (auto simp: option_rel_Some1)
        have "length rest < length s" using handle_escape_shorter [OF r] Cons by simp
        from less.hyps [OF this s2(2)] show ?thesis using r s2(1) Cons True by (simp add: Let_def)
      qed
    qed
  qed
qed

theorem printfv_emits:
  assumes "emitted [] st"
  shows "rel_option emitted (format_text fmt args) (basic_printfv bb st fmt args)"
  using loop_emitted [OF assms] by (simp add: format_text_def basic_printfv_def)

end

section \<open>The string backbone keeps the contract\<close>

abbreviation str_backbone :: "printf_backbone_str option printf_backbone" where
  "str_backbone \<equiv> \<lparr>pb_putchar = str_putchar, pb_putnstr = Some str_putnstr\<rparr>"

definition str_emitted :: "u8 list \<Rightarrow> nat \<Rightarrow> u8 list \<Rightarrow> printf_backbone_str option \<Rightarrow> bool" where
  "str_emitted mem len out str \<longleftrightarrow> len < length mem \<and>
     (let n = min (length out) len
      in str = Some \<lparr>str_mem = take n out @ drop n mem, str_buf = n, str_left = len - n\<rparr>)"

lemma str_putnstr_emitted:
  assumes "str_emitted mem len out str"
  shows "str_emitted mem len (out @ s) (str_putnstr str s)"
proof (cases "length out + length s \<le> len")
  case True
  then have "length s \<le> len - length out" by simp
  with True show ?thesis using assms by (simp add: str_emitted_def str_putnstr_def str_put_def min_def Let_def add.commute)
next
  case False
  then have "min (length out + length s) len = len" by simp
  moreover have "s \<noteq> [] \<and> \<not> length s \<le> len - length out" if "length out \<le> len" using False that by auto
  ultimately show ?thesis using False assms
    by (cases "length out \<le> len") (simp_all add: str_emitted_def str_putnstr_def str_put_def Let_def min_def)
qed

lemma str_putchar_putnstr: "str_putchar str c = str_putnstr str [c]"
proof (cases str)
  case (Some st)
  then show ?thesis
    by (cases "str_left st") (auto simp: str_putchar_def str_putnstr_def str_put_def)
qed (simp add: str_putchar_def str_putnstr_def)

lemmas str_putchar_emitted = str_putnstr_emitted [of _ _ _ _ "[c]" for c, folded str_putchar_putnstr]

interpretation str_sink: printf_sink str_backbone "str_emitted mem len" for mem len
  by unfold_locales (auto simp: str_putchar_emitted str_putnstr_emitted)

section \<open>Numbers\<close>

text \<open>The value of a string of decimal or hexadecimal digits.\<close>

definition digits_value :: "int \<Rightarrow> int \<Rightarrow> cstr \<Rightarrow> int" where
  "digits_value base acc s = foldl (\<lambda>v c. v * base + digitval c) acc s"

lemma strtol_loop_digits:
  "list_all (\<lambda>c. hexdigit c \<and> digitval c < base) s \<Longrightarrow>
   strtol_loop (signed_take_bit 31 acc) s base = (signed_take_bit 31 (digits_value base acc s), [])"
proof (induction s arbitrary: acc)
  case (Cons c s)
  have "signed_take_bit 31 (signed_take_bit 31 acc * base + digitval c) = signed_take_bit 31 (acc * base + digitval c)"
    by (metis (no_types, opaque_lifting) signed_take_bit_add signed_take_bit_mult signed_take_bit_signed_take_bit min.idem)
  then show ?case using Cons by (simp add: digits_value_def)
qed (simp add: digits_value_def)

lemma less_numeral_cases:
  "(d :: nat) < 16 \<Longrightarrow> d = 0 \<or> d = 1 \<or> d = 2 \<or> d = 3 \<or> d = 4 \<or> d = 5 \<or> d = 6 \<or> d = 7 \<or> d = 8 \<or> d = 9 \<or> d = 10 \<or>
   d = 11 \<or> d = 12 \<or> d = 13 \<or> d = 14 \<or> d = 15"
  by presburger

lemma inttohex_digit:
  assumes "d < 16"
  shows "hexdigit (inttohex False d)" "digitval (inttohex False d) = int d"
  using less_numeral_cases [OF assms]
  by (elim disjE; simp add: inttohex_def hexdigit_def digitval_def)+

lemma integer_digits_ok:
  "list_all (\<lambda>c. hexdigit c \<and> digitval c < 10) acc \<Longrightarrow>
   list_all (\<lambda>c. hexdigit c \<and> digitval c < 10) (integer_digits i acc) \<and>
   digits_value 10 0 (integer_digits i acc) = digits_value 10 (int i) acc"
proof (induction i acc rule: integer_digits.induct)
  case (1 i acc)
  show ?case
  proof (cases "i = 0")
    case True
    then show ?thesis using 1 by (simp add: integer_digits.simps [of 0])
  next
    case False
    have d: "hexdigit (inttohex False (i mod 10))" "digitval (inttohex False (i mod 10)) = int (i mod 10)"
      by (simp_all add: inttohex_digit)
    have "int (i div 10) * 10 + int (i mod 10) = int i" by presburger
    then have "digits_value 10 (int (i div 10)) (inttohex False (i mod 10) # acc) = digits_value 10 (int i) acc"
      by (simp add: digits_value_def d)
    then show ?thesis using 1(1) [OF False] 1(2) d False by (simp add: integer_digits.simps [of i])
  qed
qed

lemma length_integer_digits: "i < 10 ^ n \<Longrightarrow> length (integer_digits i acc) \<le> n + length acc"
proof (induction n arbitrary: i acc)
  case 0
  then show ?case by (simp add: integer_digits.simps)
next
  case (Suc n)
  then have "i div 10 < 10 ^ n" by (simp add: less_mult_imp_div_less mult.commute)
  from Suc.IH [OF this, of "inttohex False (i mod 10) # acc"] show ?case by (simp add: integer_digits.simps [of i])
qed

lemma hex_loop_ok:
  assumes "w + i = 8" and "val < 16 ^ w" and "list_all (\<lambda>c. hexdigit c \<and> digitval c < 16) acc"
  shows "\<exists>s. hex_loop False True 8 val (int i) acc = (8, s) \<and> length s = w + length acc \<and>
    list_all (\<lambda>c. hexdigit c \<and> digitval c < 16) s \<and> digits_value 16 0 s = digits_value 16 (int val) acc"
  using assms
proof (induction w arbitrary: i val acc)
  case 0
  then show ?case by (simp add: hex_loop.simps)
next
  case (Suc w)
  have d: "hexdigit (inttohex False (val mod 16))" "digitval (inttohex False (val mod 16)) = int (val mod 16)"
    by (simp_all add: inttohex_digit)
  have b: "val div 16 < 16 ^ w" using Suc.prems(2) by (simp add: less_mult_imp_div_less mult.commute)
  have "int (val div 16) * 16 + int (val mod 16) = int val" by presburger
  then have e: "digits_value 16 (int (val div 16)) (inttohex False (val mod 16) # acc) = digits_value 16 (int val) acc"
    by (simp add: digits_value_def d)
  have l: "list_all (\<lambda>c. hexdigit c \<and> digitval c < 16) (inttohex False (val mod 16) # acc)" using Suc.prems(3) d by simp
  from Suc.IH [OF _ b l, of "Suc i"] Suc.prems(1) show ?case
    by (subst hex_loop.simps) (auto simp: e add.commute)
qed

section \<open>Properties\<close>

lemma unat_ucast_u64: "unat (ucast (x :: u32) :: 64 word) = unat x"
  using unat_u32_less [of x] by (simp add: unsigned_ucast_eq take_bit_nat_eq_self)

lemma format_u:
  "format_text (cs ''%u'') [AInt x] = Some (if x = 0 then [ch CHR ''0''] else integer_digits (unat x) [])"
proof -
  have "unat x < 10 ^ 10" using unat_u32_less [of x] by simp
  then have "length (integer_digits (unat x) []) \<le> 10 + length ([] :: cstr)" by (rule length_integer_digits)
  then have l: "length (integer_digits (unat x) []) \<le> 25" by simp
  have z: "(ucast x :: 64 word) = 0 \<longleftrightarrow> x = 0" using unat_ucast_u64 [of x] by (metis unat_0 unat_eq_0)
  show ?thesis using l z unat_ucast_u64
    by (simp add: format_text_def basic_printfv_def list_backbone_def escape_codes_def escape_integer_def
        display_integer_def basic_printf_add_str_def Let_def)
qed

text \<open>
  C30. Printing is undone by parsing: the text of \<^verbatim>\<open>%u\<close> is read back by \<^verbatim>\<open>strtol\<close> with base 10, and
  that of \<^verbatim>\<open>%p\<close>, prefix included, by \<^verbatim>\<open>strtol\<close> with base 0, as the 32-bit number that was printed (in its signed reading, the type of
  the result), with nothing left over.
\<close>

theorem printf_strtol:
  "\<exists>u p. format_text (cs ''%u'') [AInt x] = Some u \<and> strtol u 10 = (sint x, []) \<and>
     format_text (cs ''%p'') [AInt x] = Some p \<and> strtol p 0 = (sint x, [])"
proof -
  have x: "signed_take_bit 31 (int (unat x)) = sint x"
    by (simp add: sint_uint)
  let ?u = "if x = 0 then [ch CHR ''0''] else integer_digits (unat x) []"
  have "list_all (\<lambda>c. hexdigit c \<and> digitval c < 10) ?u \<and> digits_value 10 0 ?u = int (unat x)"
    using integer_digits_ok [of "[]" "unat x"] by (simp add: hexdigit_def digitval_def digits_value_def)
  then have "strtol ?u 10 = (sint x, [])"
    using strtol_loop_digits [of 10 ?u 0] x by (simp add: strtol_def)
  moreover have "unat x < 16 ^ 8" using unat_u32_less [of x] by simp
  then obtain s where s: "hex_loop False True 8 (unat x) 0 [] = (8, s)" "length s = 8"
      "list_all (\<lambda>c. hexdigit c \<and> digitval c < 16) s" "digits_value 16 0 s = int (unat x)"
    using hex_loop_ok [of 8 0 "unat x" "[]"] by (auto simp: digits_value_def)
  have "format_text (cs ''%p'') [AInt x] = Some (cs ''0x'' @ s)"
    using s(1,2) by (simp add: format_text_def basic_printfv_def list_backbone_def escape_codes_def escape_hex_def
        basic_printf_add_str_def Let_def)
  moreover have "strtol (cs ''0x'' @ s) 0 = (sint x, [])"
    using strtol_loop_digits [OF s(3), of 0] s(4) x by (simp add: strtol_def)
  ultimately show ?thesis using format_u by blast
qed

text \<open>
  C29. \<^verbatim>\<open>snprintf\<close> never writes outside of the \<open>len\<close> bytes it is given and always terminates the string: it stores
  the longest prefix of the formatted text that fits before a zero byte, leaves the bytes behind it alone, and
  returns the length of the stored string.
\<close>

theorem snprintf_truncates:
  assumes "0 < len" and "len \<le> length mem" and "len < 2 ^ 31" and "format_text fmt args = Some txt"
  shows "snprintfv mem len fmt args =
    (let n = min (length txt) (len - 1) in Some (take n txt @ [0] @ drop (n + 1) mem, int n))"
proof -
  let ?str = "\<lparr>str_mem = mem, str_buf = 0, str_left = len - 1\<rparr>" and ?n = "min (length txt) (len - 1)"
  have "(len + 2 ^ 32 - 1) mod 2 ^ 32 = (len - 1 + 2 ^ 32) mod 2 ^ 32" using assms(1) by simp
  also have "\<dots> = len - 1" using assms(3) by (simp only: mod_add_self2) (simp add: less_imp_diff_less)
  finally have left: "(len + 2 ^ 32 - 1) mod 2 ^ 32 = len - 1" .
  have "str_emitted mem (len - 1) [] (Some ?str)" using assms(1,2) by (simp add: str_emitted_def)
  from str_sink.printfv_emits [OF this, of fmt args] obtain r where
    r: "basic_printfv str_backbone (Some ?str) fmt args = Some r" "str_emitted mem (len - 1) txt r"
    using assms(4) by (auto simp: option_rel_Some1)
  have r2: "r = Some \<lparr>str_mem = take ?n txt @ drop ?n mem, str_buf = ?n, str_left = len - 1 - ?n\<rparr>"
    using r(2) by (simp add: str_emitted_def Let_def)
  have n: "?n < length mem" "length (take ?n txt) = ?n" using assms(1,2) by auto
  have "int len - int (len - 1 - ?n) - 1 = int ?n" using assms(1) by simp
  then have i: "signed_take_bit 31 (int len - int (len - 1 - ?n) - 1) = int ?n"
    using assms(3) by (simp add: signed_take_bit_int_eq_self)
  have m: "(take ?n txt @ drop ?n mem)[?n := 0] = take ?n txt @ [0] @ drop (?n + 1) mem"
    using n by (simp only: list_update_append) (simp add: Cons_nth_drop_Suc [symmetric])
  show ?thesis unfolding snprintfv_def left r(1) r2 using n(1) i m by (simp add: Let_def)
qed

theorem snprintf_truncates_witness:
  "snprintfv (replicate 6 9) 5 (cs ''%s=%d'') [AStr (Some (cs ''ab'')), AInt (-7)] = Some (cs ''ab=-'' @ [0, 9], 4)"
proof -
  have d: "integer_digits 7 [] = [ch CHR ''7'']" by (simp add: integer_digits.simps [of 7] integer_digits.simps [of 0] inttohex_def)
  have f: "format_text (cs ''%s=%d'') [AStr (Some (cs ''ab'')), AInt (-7)] = Some (cs ''ab=-7'')"
    by (simp add: format_text_def basic_printfv_def list_backbone_def escape_codes_def escape_string_def escape_integer_def
        display_integer_def basic_printf_add_str_def strlen_def Let_def d)
  have r: "replicate 6 (9 :: u8) = [9, 9, 9, 9, 9, 9]" by (simp add: numeral_eq_Suc)
  show ?thesis using snprintf_truncates [OF _ _ _ f, of 5 "replicate 6 9"] unfolding r by simp
qed

end
