(* ===== verification/KbufPrint.thy ===== *)
theory KbufPrint
  imports KBuf Printf
begin

text \<open>
  Formatted output into a page buffer, \<^verbatim>\<open>kbuf_printf\<close> of \<^verbatim>\<open>src/kernel/kbuf.c\<close>: the backbone that
  writes through \<^const>\<open>kbuf_write\<close> with a kernel buffer.
\<close>

section \<open>Model\<close>

record kbuf_backbone =
  kbb_kbuf :: kbuf
  kbb_written :: int
  hit_end :: bool

text \<open>A kernel buffer that holds the bytes \<open>bs\<close> at address 0, and nothing else.\<close>

definition kernel_bytes :: "u8 list \<Rightarrow> umem" where
  "kernel_bytes bs a = (if unat a < length bs then Some (bs ! unat a) else None)"

definition kbuf_ret :: "nat kresult \<Rightarrow> int" where
  "kbuf_ret r = (case r of Inl e \<Rightarrow> - int (errno_no e) | Inr n \<Rightarrow> int n)"

definition kbuf_putchar :: "kbuf_backbone \<Rightarrow> u8 \<Rightarrow> kbuf_backbone" where
  "kbuf_putchar kb c =
     (let (kbuf, r) = kbuf_write (kbb_kbuf kb) (kernel_bytes [c]) (make_kernel_buffer 0) 1;
          ret = kbuf_ret r;
          kb = kb\<lparr>kbb_kbuf := kbuf, kbb_written := kbb_written kb + ret\<rparr>
      in if ret = 0 then kb\<lparr>hit_end := True\<rparr> else kb)"

text \<open>The comparison of the signed result with the length is unsigned.\<close>

definition kbuf_putnstr :: "kbuf_backbone \<Rightarrow> u8 list \<Rightarrow> kbuf_backbone" where
  "kbuf_putnstr kb str =
     (let (kbuf, r) = kbuf_write (kbb_kbuf kb) (kernel_bytes str) (make_kernel_buffer 0) (length str);
          ret = kbuf_ret r;
          kb = kb\<lparr>kbb_kbuf := kbuf, kbb_written := kbb_written kb + ret\<rparr>
      in if to_size ret < length str then kb\<lparr>hit_end := True\<rparr> else kb)"

definition kbuf_printfv :: "kbuf \<Rightarrow> cstr \<Rightarrow> va_list \<Rightarrow> (kbuf \<times> int kresult) option" where
  "kbuf_printfv kbuf fmt args = do {
     kb \<leftarrow> basic_printfv \<lparr>pb_putchar = kbuf_putchar, pb_putnstr = Some kbuf_putnstr\<rparr>
             \<lparr>kbb_kbuf = kbuf, kbb_written = 0, hit_end = False\<rparr> fmt args;
     Some (kbb_kbuf kb, if hit_end kb then Err ENOSPC else Ok (kbb_written kb))
   }"

section \<open>The backbone keeps the contract\<close>

lemma read_kernel_bytes_from:
  "i + n \<le> length bs \<Longrightarrow> length bs < 2 ^ 32 \<Longrightarrow>
   read_bytes (kernel_bytes bs) (of_nat i) n = Some (take n (drop i bs))"
proof (induction n arbitrary: i)
  case (Suc n)
  then have u: "unat (of_nat i :: u32) = i" using unat_of_nat_u32 [of i] by simp
  have s: "(of_nat i :: u32) + 1 = of_nat (Suc i)" by simp
  have "read_bytes (kernel_bytes bs) (of_nat (Suc i)) n = Some (take n (drop (Suc i) bs))"
    by (rule Suc.IH) (use Suc.prems in simp_all)
  moreover have "take (Suc n) (drop i bs) = bs ! i # take n (drop (Suc i) bs)"
    using Suc.prems(1) by (simp add: Cons_nth_drop_Suc [symmetric])
  ultimately show ?case using Suc.prems(1) u unfolding read_bytes.simps s by (simp add: kernel_bytes_def)
qed simp

lemmas read_kernel_bytes = read_kernel_bytes_from [of 0, simplified]

lemma kbuf_write_kernel:
  assumes "kbuf_wf kb" and "length bs < 2 ^ 32" and "n = min (length bs) (kbuf_get_free_length kb)"
  shows "\<exists>kb'. kbuf_write kb (kernel_bytes bs) (make_kernel_buffer 0) (length bs) = (kb', Ok n) \<and> kbuf_wf kb' \<and>
    kbuf_content kb' = kbuf_content kb @ take n bs \<and> offset kb' = offset kb + n \<and> length (kb_pages kb') = length (kb_pages kb)"
proof (rule kbuf_write_ok [OF assms(1,3)])
  show "in_user_range (make_kernel_buffer 0) n" by (simp add: in_user_range_def make_kernel_buffer_def)
  show "read_bytes (kernel_bytes bs) (ub_ptr (make_kernel_buffer 0)) n = Some (take n bs)"
    using assms read_kernel_bytes [of n bs] by (simp add: make_kernel_buffer_def)
qed

text \<open>No text of 4 GiB or more exists in the address space, so the relation says nothing about one.\<close>

definition kbuf_emitted :: "kbuf \<Rightarrow> u8 list \<Rightarrow> kbuf_backbone \<Rightarrow> bool" where
  "kbuf_emitted kb0 out kb \<longleftrightarrow> (length out < 2 ^ 32 \<longrightarrow>
     kbuf_wf (kbb_kbuf kb) \<and> length (kb_pages (kbb_kbuf kb)) = length (kb_pages kb0) \<and>
     kbuf_content (kbb_kbuf kb) = kbuf_content kb0 @ take (kbuf_get_free_length kb0) out \<and>
     offset (kbb_kbuf kb) = offset kb0 + min (length out) (kbuf_get_free_length kb0) \<and>
     kbb_written kb = int (min (length out) (kbuf_get_free_length kb0)) \<and>
     (hit_end kb \<longleftrightarrow> kbuf_get_free_length kb0 < length out))"

lemma kbuf_free: "kbuf_wf kb \<Longrightarrow> kbuf_get_free_length kb = 4096 * length (kb_pages kb) - offset kb"
  by (simp add: kbuf_get_free_length_def kbuf_get_total_length_def kbuf_wf_def)

lemma kbuf_putnstr_ok:
  "kbuf_write (kbb_kbuf kb) (kernel_bytes s) (make_kernel_buffer 0) (length s) = (kb', Ok n) \<Longrightarrow> n < 2 ^ 32 \<Longrightarrow>
   kbuf_putnstr kb s = \<lparr>kbb_kbuf = kb', kbb_written = kbb_written kb + int n, hit_end = (hit_end kb \<or> n < length s)\<rparr>"
  by (cases kb) (simp add: kbuf_putnstr_def kbuf_ret_def to_size_def Let_def)

lemma kbuf_putnstr_emitted:
  assumes wf0: "kbuf_wf kb0" and e: "kbuf_emitted kb0 out kb"
  shows "kbuf_emitted kb0 (out @ s) (kbuf_putnstr kb s)"
proof (cases "length (out @ s) < 2 ^ 32")
  case True
  let ?F = "kbuf_get_free_length kb0" and ?k = "kbb_kbuf kb"
  have l: "length out < 2 ^ 32" "length s < 2 ^ 32" using True by auto
  then have k: "kbuf_wf ?k" "length (kb_pages ?k) = length (kb_pages kb0)" "kbuf_content ?k = kbuf_content kb0 @ take ?F out"
    "offset ?k = offset kb0 + min (length out) ?F" "kbb_written kb = int (min (length out) ?F)" "hit_end kb \<longleftrightarrow> ?F < length out"
    using e by (auto simp: kbuf_emitted_def)
  have f: "kbuf_get_free_length ?k = ?F - length out"
    using k(2,4) wf0 kbuf_free [OF k(1)] kbuf_free [OF wf0] by (simp add: kbuf_wf_def min_def)
  let ?n = "min (length s) (?F - length out)"
  obtain kb' where kb': "kbuf_write ?k (kernel_bytes s) (make_kernel_buffer 0) (length s) = (kb', Ok ?n)" "kbuf_wf kb'"
    "kbuf_content kb' = kbuf_content ?k @ take ?n s" "offset kb' = offset ?k + ?n" "length (kb_pages kb') = length (kb_pages ?k)"
    using kbuf_write_kernel [OF k(1) l(2), of ?n] f by auto
  have "kbuf_putnstr kb s = \<lparr>kbb_kbuf = kb', kbb_written = kbb_written kb + int ?n, hit_end = (hit_end kb \<or> ?n < length s)\<rparr>"
    by (rule kbuf_putnstr_ok [OF kb'(1)]) (use l(2) in simp)
  moreover have "take ?F out @ take ?n s = take ?F (out @ s)" by (simp add: min_def)
  moreover have "min (length out) ?F + ?n = min (length (out @ s)) ?F" by simp
  moreover have "hit_end kb \<or> ?n < length s \<longleftrightarrow> ?F < length (out @ s)" using k(6) by auto
  ultimately show ?thesis using k kb' by (simp add: kbuf_emitted_def)
qed (simp add: kbuf_emitted_def)

lemma kbuf_putchar_emitted:
  assumes "kbuf_wf kb0" and "kbuf_emitted kb0 out kb"
  shows "kbuf_emitted kb0 (out @ [c]) (kbuf_putchar kb c)"
proof (cases "length (out @ [c]) < 2 ^ 32")
  case True
  then have "kbuf_wf (kbb_kbuf kb)" using assms(2) by (simp add: kbuf_emitted_def)
  then obtain kb' n where w: "kbuf_write (kbb_kbuf kb) (kernel_bytes [c]) (make_kernel_buffer 0) 1 = (kb', Ok n)" "n \<le> 1"
    using kbuf_write_kernel [of "kbb_kbuf kb" "[c]"] by auto
  then have "kbuf_putchar kb c = kbuf_putnstr kb [c]"
    by (cases n) (simp_all add: kbuf_putchar_def kbuf_putnstr_def kbuf_ret_def to_size_def)
  then show ?thesis using kbuf_putnstr_emitted [OF assms, of "[c]"] by simp
qed (simp add: kbuf_emitted_def)

abbreviation kbuf_printf_backbone :: "kbuf_backbone printf_backbone" where
  "kbuf_printf_backbone \<equiv> \<lparr>pb_putchar = kbuf_putchar, pb_putnstr = Some kbuf_putnstr\<rparr>"

definition kbuf_emitted_wf :: "kbuf \<Rightarrow> u8 list \<Rightarrow> kbuf_backbone \<Rightarrow> bool" where
  "kbuf_emitted_wf kb0 out kb \<longleftrightarrow> kbuf_wf kb0 \<and> kbuf_emitted kb0 out kb"

interpretation kbuf_sink: printf_sink kbuf_printf_backbone "kbuf_emitted_wf kb0" for kb0
  by unfold_locales (auto simp: kbuf_emitted_wf_def kbuf_putchar_emitted kbuf_putnstr_emitted)

section \<open>Printing into the buffer\<close>

text \<open>
  \<^verbatim>\<open>kbuf_printf\<close> appends as much of the formatted text as there is room for; it returns the length of
  the text if all of it fits and \<open>ENOSPC\<close> otherwise.
\<close>

lemma kbuf_printfv_ok:
  assumes wf: "kbuf_wf kb" and f: "format_text fmt args = Some txt" and l: "length txt < 2 ^ 32"
  shows "\<exists>kb'. kbuf_printfv kb fmt args =
      Some (kb', if length txt \<le> kbuf_get_free_length kb then Ok (int (length txt)) else Err ENOSPC) \<and>
    kbuf_wf kb' \<and> length (kb_pages kb') = length (kb_pages kb) \<and>
    kbuf_content kb' = kbuf_content kb @ take (kbuf_get_free_length kb) txt \<and>
    offset kb' = offset kb + min (length txt) (kbuf_get_free_length kb)"
proof -
  have "offset kb \<le> 4096 * length (kb_pages kb)" using wf by (simp add: kbuf_wf_def)
  then have "kbuf_emitted_wf kb [] \<lparr>kbb_kbuf = kb, kbb_written = 0, hit_end = False\<rparr>"
    using wf by (simp add: kbuf_emitted_wf_def kbuf_emitted_def)
  from kbuf_sink.printfv_emits [OF this, of fmt args] f obtain r where
    r: "basic_printfv kbuf_printf_backbone \<lparr>kbb_kbuf = kb, kbb_written = 0, hit_end = False\<rparr> fmt args = Some r"
    "kbuf_emitted kb txt r" by (auto simp: option_rel_Some1 kbuf_emitted_wf_def)
  show ?thesis using r l by (auto simp: kbuf_printfv_def kbuf_emitted_def)
qed

end
