(* ===== verification/SeqFile.thy ===== *)
theory SeqFile
  imports KbufPrint
begin

text \<open>
  Generated files, \<^verbatim>\<open>src/fs/seq_file.c\<close>: a sequence of entries is rendered into a page buffer, which is then
  read. The operations of a concrete file are functions on the file and a state \<open>'w\<close> that holds what they
  work on. A result of \<^term>\<open>None\<close> means that a call never returns (or has no defined behaviour).
\<close>

section \<open>Model\<close>

record 'p seq_file =
  iter_offset :: nat
  sq_priv :: 'p
  seq_done :: bool
  seq_buf :: kbuf
  overflowed :: bool

text \<open>Return codes are integers, negative for errors.\<close>

record ('p, 'w) seq_file_ops =
  so_start :: "'p seq_file \<Rightarrow> 'w \<Rightarrow> ('p seq_file \<times> 'w \<times> int) option"
  so_end :: "('p seq_file \<Rightarrow> 'w \<Rightarrow> ('p seq_file \<times> 'w) option) option"
  so_next :: "'p seq_file \<Rightarrow> 'w \<Rightarrow> ('p seq_file \<times> 'w \<times> int) option"
  so_render :: "'p seq_file \<Rightarrow> 'w \<Rightarrow> ('p seq_file \<times> 'w \<times> int) option"

definition seq_file_init :: "'p \<Rightarrow> 'p seq_file" where
  "seq_file_init null =
     \<lparr>iter_offset = 0, sq_priv = null, seq_done = False, seq_buf = kbuf_init, overflowed = False\<rparr>"

definition seq_file_clear :: "'p seq_file \<Rightarrow> 'p seq_file" where
  "seq_file_clear seq = seq\<lparr>seq_buf := kbuf_clear (seq_buf seq)\<rparr>"

text \<open>The inner loop of \<^verbatim>\<open>__seq_file_fill\<close>, with the last error code.\<close>

partial_function (option) seq_fill_entries ::
  "('p, 'w) seq_file_ops \<Rightarrow> 'p seq_file \<Rightarrow> 'w \<Rightarrow> ('p seq_file \<times> 'w \<times> int) option" where
  "seq_fill_entries ops seq w =
     (let starting_pos = kbuf_get_pos (seq_buf seq)
      in do {
        (seq, w, err) \<leftarrow> so_render ops (seq\<lparr>overflowed := False\<rparr>) w;
        if err < 0 \<and> overflowed seq
        then Some (seq\<lparr>seq_buf := kbuf_reset_pos (seq_buf seq) starting_pos\<rparr>, w, err)
        else do {
          (seq, w, err) \<leftarrow> so_next ops seq w;
          if err < 0 then Some (seq, w, err)
          else if seq_done seq then Some (seq, w, err)
          else seq_fill_entries ops seq w } })"

text \<open>\<open>alloc n\<close> is the allocator's answer for the \<open>n\<close>-th page; its failure is ignored by the code.\<close>

partial_function (option) u_seq_file_fill ::
  "('p, 'w) seq_file_ops \<Rightarrow> (nat \<Rightarrow> u8 list option) \<Rightarrow> 'p seq_file \<Rightarrow> 'w \<Rightarrow> ('p seq_file \<times> 'w \<times> int) option" where
  "u_seq_file_fill ops alloc seq w =
     (if seq_done seq then Some (seq, w, 0)
      else let seq = (if kbuf_get_free_length (seq_buf seq) < 4096
                      then seq\<lparr>seq_buf := fst (kbuf_add_page (alloc (kb_page_count (seq_buf seq))) (seq_buf seq))\<rparr> else seq)
           in do {
             (seq, w, err) \<leftarrow> so_start ops seq w;
             if err < 0 then Some (seq, w, err)
             else if seq_done seq then Some (seq, w, 0)
             else do {
               (seq, w, err) \<leftarrow> seq_fill_entries ops seq w;
               (seq, w) \<leftarrow> (case so_end ops of None \<Rightarrow> Some (seq, w) | Some f \<Rightarrow> f seq w);
               if err \<noteq> - int (errno_no ENOSPC) then Some (seq, w, err)
               else u_seq_file_fill ops alloc seq w } })"

text \<open>Offsets are signed 32-bit numbers. The result of the fill is ignored.\<close>

definition seq_file_read ::
  "('p, 'w) seq_file_ops \<Rightarrow> (nat \<Rightarrow> u8 list option) \<Rightarrow> 'p seq_file \<Rightarrow> 'w \<Rightarrow> umem \<Rightarrow> int \<Rightarrow> user_buffer \<Rightarrow> nat \<Rightarrow>
   ('p seq_file \<times> 'w \<times> umem \<times> nat kresult) option" where
  "seq_file_read ops alloc seq w m off ptr len =
     (if off < 0 then Some (seq, w, m, Err EINVAL)
      else if len > 2147483647 then Some (seq, w, m, Err EINVAL)
      else do {
        (seq, w, _) \<leftarrow> u_seq_file_fill ops alloc seq w;
        let (m, r) = kbuf_read (seq_buf seq) m (nat off) ptr len;
        Some (seq, w, m, r) })"

definition seq_printf :: "'p seq_file \<Rightarrow> cstr \<Rightarrow> va_list \<Rightarrow> ('p seq_file \<times> int) option" where
  "seq_printf seq fmt args = do {
     (kb, r) \<leftarrow> kbuf_printfv (seq_buf seq) fmt args;
     let seq = seq\<lparr>seq_buf := kb\<rparr>;
     Some (case r of
             Inl e \<Rightarrow> (seq\<lparr>overflowed := True\<rparr>, - int (errno_no e))
           | Inr n \<Rightarrow> (if n < 0 then seq\<lparr>overflowed := True\<rparr> else seq, n)) }"

record sq_file =
  sq_offset :: int
  sq_readable :: bool

datatype seek_whence = SEEK_SET | SEEK_END | SEEK_CUR | SEEK_OTHER

definition seq_lseek ::
  "('p, 'w) seq_file_ops \<Rightarrow> (nat \<Rightarrow> u8 list option) \<Rightarrow> sq_file \<Rightarrow> 'p seq_file \<Rightarrow> 'w \<Rightarrow> int \<Rightarrow> seek_whence \<Rightarrow>
   (sq_file \<times> 'p seq_file \<times> 'w \<times> int kresult) option" where
  "seq_lseek ops alloc filp seq w off whence =
     (if whence = SEEK_OTHER then Some (filp, seq, w, Err EINVAL)
      else do {
        (new_offset, seq, w) \<leftarrow>
          (case whence of
             SEEK_END \<Rightarrow> do {
               (seq, w, _) \<leftarrow> u_seq_file_fill ops alloc seq w;
               Some (signed_take_bit 31 (int (kbuf_get_length (seq_buf seq)) + off), seq, w) }
           | SEEK_CUR \<Rightarrow> do { o' \<leftarrow> c_int (sq_offset filp + off); Some (o', seq, w) }
           | _ \<Rightarrow> Some (off, seq, w));
        let filp = filp\<lparr>sq_offset := (if new_offset < 0 then 0 else new_offset)\<rparr>;
        let seq = (if sq_offset filp = 0
                   then seq\<lparr>seq_done := False, iter_offset := 0, seq_buf := kbuf_clear (seq_buf seq)\<rparr> else seq);
        Some (filp, seq, w, Ok (sq_offset filp)) })"

definition seq_read ::
  "('p, 'w) seq_file_ops \<Rightarrow> (nat \<Rightarrow> u8 list option) \<Rightarrow> sq_file \<Rightarrow> 'p seq_file \<Rightarrow> 'w \<Rightarrow> umem \<Rightarrow> user_buffer \<Rightarrow> nat \<Rightarrow>
   (sq_file \<times> 'p seq_file \<times> 'w \<times> umem \<times> nat kresult) option" where
  "seq_read ops alloc filp seq w m ptr len =
     (if \<not> sq_readable filp then Some (filp, seq, w, m, Err EBADF)
      else do {
        (seq, w, m, r) \<leftarrow> seq_file_read ops alloc seq w m (sq_offset filp) ptr len;
        filp \<leftarrow> (case r of
                   Inr n \<Rightarrow> if n > 0 then map_option (\<lambda>i. filp\<lparr>sq_offset := i\<rparr>) (c_int (sq_offset filp + int n)) else Some filp
                 | Inl _ \<Rightarrow> Some filp);
        Some (filp, seq, w, m, r) })"

section \<open>Entries on a list\<close>

text \<open>
  The helpers for files whose entries are on a kernel list; the private pointer is the position of a
  node in the list, \<^term>\<open>None\<close> the null pointer.
\<close>

type_synonym list_seq = "nat option seq_file"

fun seq_list_iter_loop :: "list_seq \<Rightarrow> 'e list \<Rightarrow> nat \<Rightarrow> nat \<Rightarrow> list_seq \<times> nat option" where
  "seq_list_iter_loop seq xs node 0 = (seq, Some node)"
| "seq_list_iter_loop seq xs node (Suc i) =
     (if Suc node = length xs then (seq\<lparr>seq_done := True\<rparr>, None) else seq_list_iter_loop seq xs (Suc node) i)"

definition u_seq_list_iter :: "list_seq \<Rightarrow> 'e list \<Rightarrow> nat \<Rightarrow> list_seq \<times> nat option" where
  "u_seq_list_iter seq xs start_offset =
     (if xs = [] then (seq\<lparr>seq_done := True\<rparr>, None)
      else seq_list_iter_loop seq xs 0 (iter_offset seq - start_offset))"

definition seq_list_start_node :: "list_seq \<Rightarrow> 'e list \<Rightarrow> list_seq \<times> nat option" where
  "seq_list_start_node seq xs = u_seq_list_iter seq xs 0"

definition seq_list_start_header_node :: "list_seq \<Rightarrow> 'e list \<Rightarrow> list_seq \<times> nat option" where
  "seq_list_start_header_node seq xs = (if iter_offset seq = 0 then (seq, None) else u_seq_list_iter seq xs 1)"

definition seq_list_next_node :: "list_seq \<Rightarrow> nat option \<Rightarrow> 'e list \<Rightarrow> list_seq \<times> nat option" where
  "seq_list_next_node seq node xs =
     (let seq = seq\<lparr>iter_offset := iter_offset seq + 1\<rparr>
      in case node of
           None \<Rightarrow> if xs = [] then (seq\<lparr>seq_done := True\<rparr>, None) else (seq, Some 0)
         | Some i \<Rightarrow> if Suc i = length xs then (seq\<lparr>seq_done := True\<rparr>, None) else (seq, Some (Suc i)))"

definition seq_list_start :: "list_seq \<Rightarrow> 'e list \<Rightarrow> list_seq" where
  "seq_list_start seq xs = (case seq_list_start_node seq xs of (seq, n) \<Rightarrow> seq\<lparr>sq_priv := n\<rparr>)"

definition seq_list_start_header :: "list_seq \<Rightarrow> 'e list \<Rightarrow> list_seq" where
  "seq_list_start_header seq xs = (case seq_list_start_header_node seq xs of (seq, n) \<Rightarrow> seq\<lparr>sq_priv := n\<rparr>)"

definition seq_list_next :: "list_seq \<Rightarrow> 'e list \<Rightarrow> list_seq" where
  "seq_list_next seq xs = (case seq_list_next_node seq (sq_priv seq) xs of (seq, n) \<Rightarrow> seq\<lparr>sq_priv := n\<rparr>)"

definition seq_list_get :: "list_seq \<Rightarrow> 'e list \<Rightarrow> 'e option" where
  "seq_list_get seq xs = map_option (nth xs) (sq_priv seq)"

section \<open>Filling the buffer\<close>

definition seq_at :: "'p seq_file \<Rightarrow> u8 list list \<Rightarrow> nat \<Rightarrow> bool" where
  "seq_at seq texts k \<longleftrightarrow> iter_offset seq = k \<and> kbuf_wf (seq_buf seq) \<and> kbuf_content (seq_buf seq) = concat (take k texts)"

lemma kbuf_content_length: "kbuf_wf kb \<Longrightarrow> length (kbuf_content kb) = offset kb"
  using length_concat_pages [of "kb_pages kb"] by (simp add: kbuf_content_def kbuf_wf_def)

lemma kbuf_content_add_page:
  assumes "kbuf_wf kb" and "length p = 4096" and "4096 * (length (kb_pages kb) + 1) < 2 ^ 32"
  shows "kbuf_wf (fst (kbuf_add_page (Some p) kb))"
    and "kbuf_content (fst (kbuf_add_page (Some p) kb)) = kbuf_content kb"
    and "4096 \<le> kbuf_get_free_length (fst (kbuf_add_page (Some p) kb))"
  using assms length_concat_pages [of "kb_pages kb"]
  by (auto simp: kbuf_wf_def kbuf_add_page_def kbuf_content_def kbuf_get_free_length_def kbuf_get_total_length_def)

lemma kbuf_content_reset:
  assumes "kbuf_content kb' = kbuf_content kb @ t" and "kbuf_wf kb" and "kbuf_wf kb'"
  shows "kbuf_content (kbuf_reset_pos kb' (kbuf_get_pos kb)) = kbuf_content kb" "kbuf_wf (kbuf_reset_pos kb' (kbuf_get_pos kb))"
proof -
  have o: "offset kb \<le> offset kb'" using assms(1) kbuf_content_length [OF assms(2)] kbuf_content_length [OF assms(3)]
    by (metis le_add1 length_append)
  then have "kbuf_content (kbuf_reset_pos kb' (kbuf_get_pos kb)) = take (offset kb) (kbuf_content kb')"
    by (simp add: kbuf_content_def kbuf_reset_pos_def kbuf_get_pos_def min_def)
  then show "kbuf_content (kbuf_reset_pos kb' (kbuf_get_pos kb)) = kbuf_content kb"
    using assms(1) kbuf_content_length [OF assms(2)] by simp
  show "kbuf_wf (kbuf_reset_pos kb' (kbuf_get_pos kb))" using o assms(3) by (simp add: kbuf_wf_def kbuf_reset_pos_def kbuf_get_pos_def)
qed

lemma seq_printf_ok:
  assumes "kbuf_wf (seq_buf seq)" and "format_text fmt args = Some txt" and "length txt < 2 ^ 32"
  shows "\<exists>kb. seq_printf seq fmt args =
      Some (if length txt \<le> kbuf_get_free_length (seq_buf seq) then (seq\<lparr>seq_buf := kb\<rparr>, int (length txt))
            else (seq\<lparr>seq_buf := kb, overflowed := True\<rparr>, - int (errno_no ENOSPC))) \<and>
    kbuf_wf kb \<and> length (kb_pages kb) = length (kb_pages (seq_buf seq)) \<and>
    kbuf_content kb = kbuf_content (seq_buf seq) @ take (kbuf_get_free_length (seq_buf seq)) txt"
  using kbuf_printfv_ok [OF assms] by (auto simp: seq_printf_def)

text \<open>
  The contract of the operations of a file: the entries have the texts \<open>texts\<close>; \<open>at_pos k p\<close> says that the private
  pointer \<open>p\<close> stands at entry \<open>k\<close>; the state is \<open>idle\<close> outside and \<open>busy\<close> between \<^verbatim>\<open>start\<close> and \<^verbatim>\<open>end\<close>.
\<close>

locale seq_source =
  fixes ops :: "('p, 'w) seq_file_ops" and texts :: "u8 list list" and at_pos :: "nat \<Rightarrow> 'p \<Rightarrow> bool"
    and idle busy :: "'w \<Rightarrow> bool"
  assumes start_pos: "idle w \<Longrightarrow> iter_offset seq < length texts \<Longrightarrow>
      \<exists>p w'. so_start ops seq w = Some (seq\<lparr>sq_priv := p\<rparr>, w', 0) \<and> at_pos (iter_offset seq) p \<and> busy w'"
    and render_pos: "busy w \<Longrightarrow> k < length texts \<Longrightarrow> at_pos k (sq_priv seq) \<Longrightarrow>
      \<exists>fmt args. format_text fmt args = Some (texts ! k) \<and>
        so_render ops seq w = map_option (\<lambda>(seq, r). (seq, w, r)) (seq_printf seq fmt args)"
    and next_pos: "busy w \<Longrightarrow> iter_offset seq < length texts \<Longrightarrow> at_pos (iter_offset seq) (sq_priv seq) \<Longrightarrow>
      \<exists>p. so_next ops seq w = Some (seq\<lparr>iter_offset := iter_offset seq + 1, sq_priv := p,
              seq_done := (seq_done seq \<or> iter_offset seq + 1 = length texts)\<rparr>, w, 0) \<and>
        (iter_offset seq + 1 < length texts \<longrightarrow> at_pos (iter_offset seq + 1) p)"
    and end_pos: "busy w \<Longrightarrow> \<exists>f w'. so_end ops = Some f \<and> f seq w = Some (seq, w') \<and> idle w'"
begin

lemma entry_rendered:
  assumes "busy w" and k: "k < length texts" and "at_pos k (sq_priv seq)" and s: "seq_at seq texts k"
    and t: "length (texts ! k) < 2 ^ 32" and "\<not> seq_done seq"
  shows "\<exists>kb. seq_fill_entries ops seq w =
    (if length (texts ! k) \<le> kbuf_get_free_length (seq_buf seq)
     then (let seq' = seq\<lparr>overflowed := False, seq_buf := kb\<rparr>
           in do { (seq, w, err) \<leftarrow> so_next ops seq' w;
                   if err < 0 then Some (seq, w, err) else if seq_done seq then Some (seq, w, err)
                   else seq_fill_entries ops seq w })
     else Some (seq\<lparr>overflowed := True, seq_buf := kb\<rparr>, w, - int (errno_no ENOSPC))) \<and>
    kbuf_wf kb \<and> length (kb_pages kb) = length (kb_pages (seq_buf seq)) \<and>
    kbuf_content kb = (if length (texts ! k) \<le> kbuf_get_free_length (seq_buf seq)
                       then concat (take (Suc k) texts) else concat (take k texts))"
proof -
  let ?seq = "seq\<lparr>overflowed := False\<rparr>"
  have wf: "kbuf_wf (seq_buf ?seq)" "kbuf_content (seq_buf seq) = concat (take k texts)" using s by (simp_all add: seq_at_def)
  obtain fmt args where f: "format_text fmt args = Some (texts ! k)"
      "so_render ops ?seq w = map_option (\<lambda>(seq, r). (seq, w, r)) (seq_printf ?seq fmt args)"
    using render_pos [of w k ?seq] assms by auto
  obtain kb where kb: "seq_printf ?seq fmt args =
      Some (if length (texts ! k) \<le> kbuf_get_free_length (seq_buf ?seq) then (?seq\<lparr>seq_buf := kb\<rparr>, int (length (texts ! k)))
            else (?seq\<lparr>seq_buf := kb, overflowed := True\<rparr>, - int (errno_no ENOSPC)))"
      "kbuf_wf kb" "length (kb_pages kb) = length (kb_pages (seq_buf ?seq))"
      "kbuf_content kb = kbuf_content (seq_buf ?seq) @ take (kbuf_get_free_length (seq_buf ?seq)) (texts ! k)"
    using seq_printf_ok [OF wf(1) f(1) t] by blast
  show ?thesis
  proof (cases "length (texts ! k) \<le> kbuf_get_free_length (seq_buf seq)")
    case True
    then have "kbuf_content kb = concat (take (Suc k) texts)" using kb(4) wf(2) k by (simp add: take_Suc_conv_app_nth)
    then show ?thesis using True f kb by (subst seq_fill_entries.simps) (auto simp: Let_def)
  next
    case False
    let ?kb = "kbuf_reset_pos kb (kbuf_get_pos (seq_buf seq))"
    have r: "kbuf_content ?kb = concat (take k texts)" "kbuf_wf ?kb" "length (kb_pages ?kb) = length (kb_pages (seq_buf seq))"
      using kbuf_content_reset [OF kb(4)] wf kb(2,3) by (simp_all add: kbuf_reset_pos_def)
    show ?thesis
      by (rule exI [of _ ?kb]) (use False f kb r in \<open>subst seq_fill_entries.simps, simp add: Let_def\<close>)
  qed
qed

lemma entries_filled:
  assumes "busy w" and "list_all (\<lambda>t. length t < 2 ^ 32) texts" and "k < length texts"
    and "at_pos k (sq_priv seq)" and "seq_at seq texts k" and "\<not> seq_done seq"
  shows "\<exists>seq' j. seq_at seq' texts j \<and> k \<le> j \<and> j \<le> length texts \<and>
    length (kb_pages (seq_buf seq')) = length (kb_pages (seq_buf seq)) \<and> (seq_done seq' \<longleftrightarrow> j = length texts) \<and>
    (length (texts ! k) \<le> kbuf_get_free_length (seq_buf seq) \<longrightarrow> k < j) \<and>
    seq_fill_entries ops seq w = Some (seq', w, if j = length texts then 0 else - int (errno_no ENOSPC))"
  using assms(3-)
proof (induction "length texts - k" arbitrary: k seq)
  case (Suc n)
  have t: "length (texts ! k) < 2 ^ 32" using assms(2) Suc.prems(1) by (simp add: list_all_length)
  obtain kb where kb: "seq_fill_entries ops seq w =
      (if length (texts ! k) \<le> kbuf_get_free_length (seq_buf seq)
       then (let seq' = seq\<lparr>overflowed := False, seq_buf := kb\<rparr>
             in do { (seq, w, err) \<leftarrow> so_next ops seq' w;
                     if err < 0 then Some (seq, w, err) else if seq_done seq then Some (seq, w, err)
                     else seq_fill_entries ops seq w })
       else Some (seq\<lparr>overflowed := True, seq_buf := kb\<rparr>, w, - int (errno_no ENOSPC)))"
      "kbuf_wf kb" "length (kb_pages kb) = length (kb_pages (seq_buf seq))"
      "kbuf_content kb = (if length (texts ! k) \<le> kbuf_get_free_length (seq_buf seq)
                          then concat (take (Suc k) texts) else concat (take k texts))"
    using entry_rendered [OF assms(1) Suc.prems(1-3) t Suc.prems(4)] by blast
  show ?case
  proof (cases "length (texts ! k) \<le> kbuf_get_free_length (seq_buf seq)")
    case False
    then show ?thesis using kb Suc.prems by (intro exI [of _ "seq\<lparr>overflowed := True, seq_buf := kb\<rparr>"] exI [of _ k]) (simp add: seq_at_def)
  next
    case True
    let ?s1 = "seq\<lparr>overflowed := False, seq_buf := kb\<rparr>"
    have it: "iter_offset ?s1 = k" "iter_offset ?s1 < length texts" "at_pos (iter_offset ?s1) (sq_priv ?s1)" "\<not> seq_done ?s1"
      using Suc.prems by (simp_all add: seq_at_def)
    obtain p where p: "so_next ops ?s1 w = Some (?s1\<lparr>iter_offset := k + 1, sq_priv := p, seq_done := (k + 1 = length texts)\<rparr>, w, 0)"
        "k + 1 < length texts \<longrightarrow> at_pos (k + 1) p"
      using next_pos [OF assms(1) it(2,3)] it(1,4) by auto
    let ?s2 = "?s1\<lparr>iter_offset := k + 1, sq_priv := p, seq_done := (k + 1 = length texts)\<rparr>"
    have s2: "seq_at ?s2 texts (k + 1)" using kb True by (simp add: seq_at_def)
    show ?thesis
    proof (cases "k + 1 = length texts")
      case last: True
      then show ?thesis using kb(1,3) p True s2 by (intro exI [of _ ?s2] exI [of _ "k + 1"]) (simp add: Let_def)
    next
      case more: False
      then have k1: "n = length texts - (k + 1)" "k + 1 < length texts" "at_pos (k + 1) (sq_priv ?s2)" "\<not> seq_done ?s2"
        using Suc.hyps(2) Suc.prems(1) p(2) by auto
      obtain seq' j where j: "seq_at seq' texts j" "k + 1 \<le> j" "j \<le> length texts"
          "length (kb_pages (seq_buf seq')) = length (kb_pages (seq_buf ?s2))" "seq_done seq' \<longleftrightarrow> j = length texts"
          "seq_fill_entries ops ?s2 w = Some (seq', w, if j = length texts then 0 else - int (errno_no ENOSPC))"
        using Suc.hyps(1) [OF k1(1,2,3) s2 k1(4)] by blast
      have "seq_fill_entries ops seq w = seq_fill_entries ops ?s2 w" using kb(1) p True more by (simp add: Let_def)
      then show ?thesis using j kb(3) by (intro exI [of _ seq'] exI [of _ j]) simp
    qed
  qed
qed simp

lemma room_made:
  assumes al: "\<And>n. \<exists>pg. alloc n = Some pg \<and> length pg = 4096" and sz: "length (concat texts) + 8192 < 2 ^ 32"
    and s: "seq_at seq texts k"
  shows "\<exists>kb. (if kbuf_get_free_length (seq_buf seq) < 4096
          then seq\<lparr>seq_buf := fst (kbuf_add_page (alloc (kb_page_count (seq_buf seq))) (seq_buf seq))\<rparr> else seq) =
      seq\<lparr>seq_buf := kb\<rparr> \<and> kbuf_wf kb \<and> kbuf_content kb = concat (take k texts) \<and> 4096 \<le> kbuf_get_free_length kb"
proof (cases "kbuf_get_free_length (seq_buf seq) < 4096")
  case True
  let ?kb = "seq_buf seq"
  obtain pg where pg: "alloc (kb_page_count ?kb) = Some pg" "length pg = 4096" using al by blast
  have wf: "kbuf_wf ?kb" and c: "kbuf_content ?kb = concat (take k texts)" using s by (simp_all add: seq_at_def)
  have "concat texts = concat (take k texts) @ concat (drop k texts)" by (metis append_take_drop_id concat_append)
  then have "offset ?kb \<le> length (concat texts)" using c kbuf_content_length [OF wf] by simp
  then have "4096 * (length (kb_pages ?kb) + 1) < 2 ^ 32" using True kbuf_free [OF wf] sz by simp
  from kbuf_content_add_page [OF wf pg(2) this] show ?thesis using True pg(1) c by auto
qed (use s in \<open>auto simp: seq_at_def intro!: exI [of _ "seq_buf seq"]\<close>)

theorem fill_completes:
  assumes al: "\<And>n. \<exists>pg. alloc n = Some pg \<and> length pg = 4096"
    and sz: "length (concat texts) + 8192 < 2 ^ 32" and t: "list_all (\<lambda>t. length t \<le> 4096) texts"
  shows "idle w \<Longrightarrow> k < length texts \<Longrightarrow> seq_at seq texts k \<Longrightarrow> \<not> seq_done seq \<Longrightarrow>
    \<exists>seq' w'. u_seq_file_fill ops alloc seq w = Some (seq', w', 0) \<and> seq_done seq' \<and> idle w' \<and> seq_at seq' texts (length texts)"
proof (induction "length texts - k" arbitrary: k seq w rule: less_induct)
  case less
  obtain kb where kb: "(if kbuf_get_free_length (seq_buf seq) < 4096
          then seq\<lparr>seq_buf := fst (kbuf_add_page (alloc (kb_page_count (seq_buf seq))) (seq_buf seq))\<rparr> else seq) =
      seq\<lparr>seq_buf := kb\<rparr>" "kbuf_wf kb" "kbuf_content kb = concat (take k texts)" "4096 \<le> kbuf_get_free_length kb"
    using room_made [of alloc, OF al sz less.prems(3)] by blast
  have i: "iter_offset (seq\<lparr>seq_buf := kb\<rparr>) = k" using less.prems(3) by (simp add: seq_at_def)
  obtain p w1 where p: "so_start ops (seq\<lparr>seq_buf := kb\<rparr>) w = Some (seq\<lparr>seq_buf := kb, sq_priv := p\<rparr>, w1, 0)" "at_pos k p" "busy w1"
    using start_pos [OF less.prems(1), of "seq\<lparr>seq_buf := kb\<rparr>"] less.prems(2) unfolding i by auto
  let ?s = "seq\<lparr>seq_buf := kb, sq_priv := p\<rparr>"
  have s: "seq_at ?s texts k" "at_pos k (sq_priv ?s)" "\<not> seq_done ?s" using kb i p(2) less.prems(4) by (simp_all add: seq_at_def)
  have t32: "list_all (\<lambda>t. length t < 2 ^ 32) texts" using t by (simp add: list_all_iff) (use le_less_trans in fastforce)
  have fits: "length (texts ! k) \<le> kbuf_get_free_length (seq_buf ?s)" using t less.prems(2) kb(4) by (auto simp: list_all_length)
  obtain seq' j where j: "seq_at seq' texts j" "k < j" "j \<le> length texts" "seq_done seq' \<longleftrightarrow> j = length texts"
      "seq_fill_entries ops ?s w1 = Some (seq', w1, if j = length texts then 0 else - int (errno_no ENOSPC))"
    using entries_filled [OF p(3) t32 less.prems(2) s(2,1,3)] fits by blast
  obtain f w2 where f: "so_end ops = Some f" "f seq' w1 = Some (seq', w2)" "idle w2" using end_pos [OF p(3)] by blast
  have u: "u_seq_file_fill ops alloc seq w =
      (if j = length texts then Some (seq', w2, 0) else u_seq_file_fill ops alloc seq' w2)"
    using less.prems(4) p j f s(3) by (subst u_seq_file_fill.simps) (simp add: kb(1) Let_def)
  show ?case
  proof (cases "j = length texts")
    case True
    then show ?thesis using u j f by auto
  next
    case False
    then show ?thesis using u less.hyps [OF _ f(3) _ j(1)] j(2-4) by simp
  qed
qed

lemma no_page_hangs:
  assumes "u_seq_file_fill ops (\<lambda>_. None) seq w = Some res"
  shows "idle w \<Longrightarrow> k < length texts \<Longrightarrow> seq_at seq texts k \<Longrightarrow> length (texts ! k) < 2 ^ 32 \<Longrightarrow>
    kbuf_get_free_length (seq_buf seq) < length (texts ! k) \<Longrightarrow> kbuf_get_free_length (seq_buf seq) < 4096 \<Longrightarrow> seq_done seq"
  using assms
proof (induction ops' \<equiv> ops alloc' \<equiv> "\<lambda>_ :: nat. None :: u8 list option" seq w res rule: u_seq_file_fill.raw_induct [rotated, consumes 1])
  case (1 fill seq w res)
  show ?case
  proof (rule ccontr)
    assume nd: "\<not> seq_done seq"
    have add: "fst (kbuf_add_page None (seq_buf seq)) = seq_buf seq" by (simp add: kbuf_add_page_def)
    have i: "iter_offset seq = k" using 1(5) by (simp add: seq_at_def)
    obtain p w1 where p: "so_start ops seq w = Some (seq\<lparr>sq_priv := p\<rparr>, w1, 0)" "at_pos k p" "busy w1"
      using start_pos [OF 1(3), of seq] 1(4) unfolding i by blast
    let ?s = "seq\<lparr>sq_priv := p\<rparr>"
    have s: "seq_at ?s texts k" "at_pos k (sq_priv ?s)" "\<not> seq_done ?s" using 1(5) p(2) nd by (simp_all add: seq_at_def)
    obtain kb where kb: "seq_fill_entries ops ?s w1 = Some (?s\<lparr>overflowed := True, seq_buf := kb\<rparr>, w1, - int (errno_no ENOSPC))"
        "kbuf_wf kb" "length (kb_pages kb) = length (kb_pages (seq_buf ?s))" "kbuf_content kb = concat (take k texts)"
      using entry_rendered [OF p(3) 1(4) s(2,1) 1(6) s(3)] 1(7) by (auto simp: Let_def)
    let ?s2 = "?s\<lparr>overflowed := True, seq_buf := kb\<rparr>"
    obtain f w2 where f: "so_end ops = Some f" "f ?s2 w1 = Some (?s2, w2)" "idle w2" using end_pos [OF p(3)] by blast
    have s2: "seq_at ?s2 texts k" "\<not> seq_done ?s2" using kb i nd by (simp_all add: seq_at_def)
    have "offset kb = offset (seq_buf seq)"
      using kbuf_content_length [OF kb(2)] kbuf_content_length [of "seq_buf seq"] 1(5) kb(4) by (simp add: seq_at_def)
    then have free: "kbuf_get_free_length (seq_buf ?s2) = kbuf_get_free_length (seq_buf seq)"
      using kbuf_free [OF kb(2)] kbuf_free [of "seq_buf seq"] kb(3) 1(5) by (simp add: seq_at_def)
    have "fill ops (\<lambda>_. None) ?s2 w2 = Some res"
      using 1(2) nd p(1) kb(1) f s(3) 1(8) by (simp add: add Let_def split: if_splits)
    from 1(1) [OF this f(3) 1(4) s2(1) 1(6)] s2(2) show False using 1(7,8) unfolding free by simp
  qed
qed

end

end
