(* ===== verification/SeqTables.thy ===== *)
theory SeqTables
  imports SeqFile
begin

text \<open>
  Kernel tables that are shown as generated files: the file system types of \<^verbatim>\<open>src/fs/file_system.c\<close>, the executable
  formats of \<^verbatim>\<open>src/fs/binfmt_table.c\<close> and the socket list of \<^verbatim>\<open>src/net/socket.c\<close>. A table is a list under a
  lock. Taking a lock that is held never returns on one processor, so it gives \<^term>\<open>None\<close>.
\<close>

section \<open>Model\<close>

record 'e locked_list =
  ll_locked :: bool
  ll_list :: "'e list"

definition lock_acquire :: "'e locked_list \<Rightarrow> 'e locked_list option" where
  "lock_acquire l = (if ll_locked l then None else Some (l\<lparr>ll_locked := True\<rparr>))"

definition lock_release :: "'e locked_list \<Rightarrow> 'e locked_list" where
  "lock_release l = l\<lparr>ll_locked := False\<rparr>"

subsection \<open>File system types\<close>

record file_system =
  fs_name :: cstr
  fs_id :: nat

definition file_system_register :: "file_system locked_list \<Rightarrow> file_system \<Rightarrow> file_system locked_list option" where
  "file_system_register l system = do {
     l \<leftarrow> lock_acquire l;
     Some (lock_release (l\<lparr>ll_list := ll_list l @ [system]\<rparr>)) }"

fun remove_first :: "('e \<Rightarrow> bool) \<Rightarrow> 'e list \<Rightarrow> 'e list" where
  "remove_first P [] = []"
| "remove_first P (x # xs) = (if P x then xs else x # remove_first P xs)"

definition file_system_unregister :: "file_system locked_list \<Rightarrow> cstr \<Rightarrow> file_system locked_list option" where
  "file_system_unregister l name = do {
     l \<leftarrow> lock_acquire l;
     Some (lock_release (l\<lparr>ll_list := remove_first (\<lambda>s. strcmp (fs_name s) name = 0) (ll_list l)\<rparr>)) }"

definition file_system_lookup :: "file_system locked_list \<Rightarrow> cstr \<Rightarrow> (file_system locked_list \<times> file_system option) option" where
  "file_system_lookup l name = do {
     l \<leftarrow> lock_acquire l;
     let found = List.find (\<lambda>s. strcmp (fs_name s) name = 0) (ll_list l);
     Some (lock_release l, found) }"

definition file_system_seq_start ::
  "list_seq \<Rightarrow> file_system locked_list \<Rightarrow> (list_seq \<times> file_system locked_list \<times> int) option" where
  "file_system_seq_start seq l = do { l \<leftarrow> lock_acquire l; Some (seq_list_start seq (ll_list l), l, 0) }"

definition file_system_seq_end ::
  "list_seq \<Rightarrow> file_system locked_list \<Rightarrow> (list_seq \<times> file_system locked_list) option" where
  "file_system_seq_end seq l = Some (seq, lock_release l)"

definition file_system_seq_render ::
  "list_seq \<Rightarrow> file_system locked_list \<Rightarrow> (list_seq \<times> file_system locked_list \<times> int) option" where
  "file_system_seq_render seq l = do {
     file_system \<leftarrow> seq_list_get seq (ll_list l);
     (seq, r) \<leftarrow> seq_printf seq (cs ''%s'' @ [10]) [AStr (Some (fs_name file_system))];
     Some (seq, l, r) }"

definition file_system_seq_next ::
  "list_seq \<Rightarrow> file_system locked_list \<Rightarrow> (list_seq \<times> file_system locked_list \<times> int) option" where
  "file_system_seq_next seq l = Some (seq_list_next seq (ll_list l), l, 0)"

definition file_system_seq_file_ops :: "(nat option, file_system locked_list) seq_file_ops" where
  "file_system_seq_file_ops =
     \<lparr>so_start = file_system_seq_start, so_end = Some file_system_seq_end, so_next = file_system_seq_next,
      so_render = file_system_seq_render\<rparr>"

subsection \<open>Executable formats\<close>

record binfmt =
  bf_name :: cstr
  bf_magic :: cstr
  bf_use_count :: nat
  bf_id :: nat

definition binfmt_register :: "binfmt locked_list \<Rightarrow> binfmt \<Rightarrow> binfmt locked_list option" where
  "binfmt_register l fmt = do {
     l \<leftarrow> lock_acquire l;
     Some (lock_release (l\<lparr>ll_list := fmt # ll_list l\<rparr>)) }"

definition binfmt_unregister :: "binfmt locked_list \<Rightarrow> binfmt \<Rightarrow> binfmt locked_list option" where
  "binfmt_unregister l fmt = do {
     l \<leftarrow> lock_acquire l;
     if bf_use_count fmt = 0
     then Some (lock_release (l\<lparr>ll_list := remove_first (\<lambda>f. bf_id f = bf_id fmt) (ll_list l)\<rparr>))
     else None }"

text \<open>
  \<open>begin_str\<close> is the string that the first 128 bytes of the file form: \<^verbatim>\<open>strncmp\<close> stops at a zero byte. The loader of a
  format, called without the lock, is the parameter \<open>load_bin\<close>.
\<close>

fun binary_load_loop :: "(binfmt \<Rightarrow> int) \<Rightarrow> cstr \<Rightarrow> binfmt list \<Rightarrow> int" where
  "binary_load_loop load_bin begin_str [] = - int (errno_no ENOEXEC)"
| "binary_load_loop load_bin begin_str (fmt # fmts) =
     (if strncmp begin_str (bf_magic fmt) (strlen (bf_magic fmt)) \<noteq> 0 then binary_load_loop load_bin begin_str fmts
      else load_bin fmt)"

definition binary_load :: "(binfmt \<Rightarrow> int) \<Rightarrow> cstr \<Rightarrow> binfmt locked_list \<Rightarrow> (binfmt locked_list \<times> int) option" where
  "binary_load load_bin exe l = do {
     let begin_str = takeWhile (\<lambda>c. c \<noteq> 0) (take 128 exe);
     l \<leftarrow> lock_acquire l;
     let ret = binary_load_loop load_bin begin_str (ll_list l);
     Some (lock_release l, ret) }"

definition binfmt_seq_start ::
  "list_seq \<Rightarrow> binfmt locked_list \<Rightarrow> (list_seq \<times> binfmt locked_list \<times> int) option" where
  "binfmt_seq_start seq l = do { l \<leftarrow> lock_acquire l; Some (seq_list_start seq (ll_list l), l, 0) }"

definition binfmt_seq_end :: "list_seq \<Rightarrow> binfmt locked_list \<Rightarrow> (list_seq \<times> binfmt locked_list) option" where
  "binfmt_seq_end seq l = Some (seq, lock_release l)"

definition binfmt_seq_render ::
  "list_seq \<Rightarrow> binfmt locked_list \<Rightarrow> (list_seq \<times> binfmt locked_list \<times> int) option" where
  "binfmt_seq_render seq l = do {
     binfmt \<leftarrow> seq_list_get seq (ll_list l);
     (seq, r) \<leftarrow> seq_printf seq (cs ''%s'' @ [10]) [AStr (Some (bf_name binfmt))];
     Some (seq, l, r) }"

definition binfmt_seq_next ::
  "list_seq \<Rightarrow> binfmt locked_list \<Rightarrow> (list_seq \<times> binfmt locked_list \<times> int) option" where
  "binfmt_seq_next seq l = Some (seq_list_next seq (ll_list l), l, 0)"

definition binfmt_seq_file_ops :: "(nat option, binfmt locked_list) seq_file_ops" where
  "binfmt_seq_file_ops =
     \<lparr>so_start = binfmt_seq_start, so_end = Some binfmt_seq_end, so_next = binfmt_seq_next, so_render = binfmt_seq_render\<rparr>"

subsection \<open>Sockets\<close>

datatype socket_state = SOCKET_UNCONNECTED | SOCKET_CONNECTING | SOCKET_CONNECTED | SOCKET_DISCONNECTING

record socket_row =
  sr_refs :: u32
  sr_address_family :: u32
  sr_sock_type :: u32
  sr_protocol :: u32
  sr_state :: socket_state

fun socket_state_name :: "socket_state \<Rightarrow> cstr" where
  "socket_state_name SOCKET_UNCONNECTED = cs ''UNCONNECTED''"
| "socket_state_name SOCKET_CONNECTING = cs ''CONNECTING''"
| "socket_state_name SOCKET_CONNECTED = cs ''CONNECTED''"
| "socket_state_name SOCKET_DISCONNECTING = cs ''DISCONNECTING''"

definition socket_seq_start ::
  "list_seq \<Rightarrow> socket_row locked_list \<Rightarrow> (list_seq \<times> socket_row locked_list \<times> int) option" where
  "socket_seq_start seq l = do { l \<leftarrow> lock_acquire l; Some (seq_list_start_header seq (ll_list l), l, 0) }"

definition socket_header :: cstr where
  "socket_header = cs ''refs'' @ [9] @ cs ''af'' @ [9] @ cs ''type'' @ [9] @ cs ''proto'' @ [9] @ cs ''state'' @ [10]"

definition socket_row_fmt :: cstr where
  "socket_row_fmt = cs ''%d'' @ [9] @ cs ''%d'' @ [9] @ cs ''%d'' @ [9] @ cs ''%d'' @ [9] @ cs ''%s'' @ [10]"

definition socket_row_args :: "socket_row \<Rightarrow> va_list" where
  "socket_row_args s =
     [AInt (sr_refs s), AInt (sr_address_family s), AInt (sr_sock_type s), AInt (sr_protocol s),
      AStr (Some (socket_state_name (sr_state s)))]"

definition socket_seq_render ::
  "list_seq \<Rightarrow> socket_row locked_list \<Rightarrow> (list_seq \<times> socket_row locked_list \<times> int) option" where
  "socket_seq_render seq l =
     (case seq_list_get seq (ll_list l) of
        None \<Rightarrow> map_option (\<lambda>(seq, r). (seq, l, r)) (seq_printf seq socket_header [])
      | Some s \<Rightarrow> map_option (\<lambda>(seq, r). (seq, l, r)) (seq_printf seq socket_row_fmt (socket_row_args s)))"

definition socket_seq_next ::
  "list_seq \<Rightarrow> socket_row locked_list \<Rightarrow> (list_seq \<times> socket_row locked_list \<times> int) option" where
  "socket_seq_next seq l = Some (seq_list_next seq (ll_list l), l, 0)"

definition socket_seq_end :: "list_seq \<Rightarrow> socket_row locked_list \<Rightarrow> (list_seq \<times> socket_row locked_list) option" where
  "socket_seq_end seq l = Some (seq, lock_release l)"

definition socket_seq_file_ops :: "(nat option, socket_row locked_list) seq_file_ops" where
  "socket_seq_file_ops =
     \<lparr>so_start = socket_seq_start, so_end = Some socket_seq_end, so_next = socket_seq_next, so_render = socket_seq_render\<rparr>"

section \<open>The operations keep the contract of a source\<close>

definition unlocked :: "'e list \<Rightarrow> 'e locked_list \<Rightarrow> bool" where
  "unlocked xs l \<longleftrightarrow> \<not> ll_locked l \<and> ll_list l = xs"

definition held :: "'e list \<Rightarrow> 'e locked_list \<Rightarrow> bool" where
  "held xs l \<longleftrightarrow> ll_locked l \<and> ll_list l = xs"

lemma unlocked_acquire: "unlocked xs l \<Longrightarrow> lock_acquire l = Some (l\<lparr>ll_locked := True\<rparr>) \<and> held xs (l\<lparr>ll_locked := True\<rparr>)"
  by (simp add: unlocked_def held_def lock_acquire_def)

lemma held_release: "held xs l \<Longrightarrow> unlocked xs (lock_release l)"
  by (simp add: unlocked_def held_def lock_release_def)

lemma seq_list_iter_loop_ok: "node + i < length xs \<Longrightarrow> seq_list_iter_loop seq xs node i = (seq, Some (node + i))"
  by (induction i arbitrary: node) auto

lemma seq_list_start_ok: "iter_offset seq < length xs \<Longrightarrow> seq_list_start seq xs = seq\<lparr>sq_priv := Some (iter_offset seq)\<rparr>"
  by (auto simp: seq_list_start_def seq_list_start_node_def u_seq_list_iter_def seq_list_iter_loop_ok)

definition header_pos :: "nat \<Rightarrow> nat option" where
  "header_pos k = (case k of 0 \<Rightarrow> None | Suc i \<Rightarrow> Some i)"

lemma seq_list_start_header_ok:
  "iter_offset seq < Suc (length xs) \<Longrightarrow> seq_list_start_header seq xs = seq\<lparr>sq_priv := header_pos (iter_offset seq)\<rparr>"
  by (cases "iter_offset seq"; cases xs)
    (auto simp: seq_list_start_header_def seq_list_start_header_node_def u_seq_list_iter_def seq_list_iter_loop_ok header_pos_def)

lemma seq_list_next_ok:
  assumes "sq_priv seq = Some k" and "k < length xs"
  shows "\<exists>p. seq_list_next seq xs = seq\<lparr>iter_offset := iter_offset seq + 1, sq_priv := p, seq_done := (seq_done seq \<or> k + 1 = length xs)\<rparr> \<and>
    (k + 1 < length xs \<longrightarrow> p = Some (k + 1))"
  using assms by (cases seq) (auto simp: seq_list_next_def seq_list_next_node_def Let_def)

lemma seq_list_next_header_ok:
  assumes "sq_priv seq = header_pos k" and "k < Suc (length xs)"
  shows "\<exists>p. seq_list_next seq xs = seq\<lparr>iter_offset := iter_offset seq + 1, sq_priv := p, seq_done := (seq_done seq \<or> k = length xs)\<rparr> \<and>
    (k < length xs \<longrightarrow> p = header_pos (k + 1))"
  using assms by (cases seq; cases k) (auto simp: seq_list_next_def seq_list_next_node_def Let_def header_pos_def)

lemma printf_simple:
  "basic_printf_add_str list_backbone out (Some s) = out @ s" "pb_putchar list_backbone out c = out @ [c]"
  by (simp_all add: basic_printf_add_str_def list_backbone_def)

lemma format_line: "format_text (cs ''%s'' @ [10]) [AStr (Some s)] = Some (s @ [10])"
  by (simp add: format_text_def basic_printfv_def escape_codes_def escape_string_def printf_simple strlen_def Let_def)

definition int_text :: "u32 \<Rightarrow> cstr" where
  "int_text i = (let m = nat \<bar>sint i\<bar>; d = (if m = 0 then [ch CHR ''0''] else integer_digits m [])
                 in if sint i < 0 then ch CHR ''-'' # d else d)"

lemma sint_u32: "- 2147483648 \<le> sint (i :: u32)" "sint (i :: u32) < 2147483648"
  using sint_ge [of i] sint_lt [of i] by simp_all

lemma escape_d: "escape_integer list_backbone out [100] (AInt i # args) = Some (out @ int_text i, args)"
proof -
  let ?m = "nat \<bar>sint i\<bar>"
  have m: "?m < 10 ^ 10" using sint_u32 [of i] by simp
  have l: "length (integer_digits ?m []) \<le> 10" using length_integer_digits [OF m, of "[]"] by simp
  have u: "unat (word_of_int (\<bar>sint i\<bar>) :: 64 word) = ?m" using sint_u32 [of i]
    by (simp add: unsigned_of_int nat_take_bit_eq take_bit_nat_eq_self)
  have z: "(word_of_int (\<bar>sint i\<bar>) :: 64 word) = 0 \<longleftrightarrow> ?m = 0" using u by (metis unat_0 unat_eq_0)
  show ?thesis using l u z sint_u32 [of i]
    by (cases "sint i < 0") (auto simp: escape_integer_def display_integer_def printf_simple int_text_def Let_def)
qed

definition socket_texts :: "socket_row list \<Rightarrow> u8 list list" where
  "socket_texts xs = socket_header # map (\<lambda>s. int_text (sr_refs s) @ [9] @ int_text (sr_address_family s) @ [9] @
     int_text (sr_sock_type s) @ [9] @ int_text (sr_protocol s) @ [9] @ socket_state_name (sr_state s) @ [10]) xs"

lemma format_header: "format_text socket_header [] = Some socket_header"
  by (simp add: format_text_def basic_printfv_def socket_header_def printf_simple)

lemma format_socket_row: "format_text socket_row_fmt (socket_row_args s) = Some (socket_texts [s] ! 1)"
  by (simp add: format_text_def basic_printfv_def socket_row_fmt_def socket_row_args_def escape_codes_def escape_d printf_simple
      escape_string_def strlen_def Let_def socket_texts_def)

definition name_texts :: "cstr list \<Rightarrow> u8 list list" where
  "name_texts names = map (\<lambda>n. n @ [10]) names"

lemmas fs_ops_defs = file_system_seq_file_ops_def file_system_seq_start_def file_system_seq_end_def
  file_system_seq_next_def file_system_seq_render_def

lemmas binfmt_ops_defs = binfmt_seq_file_ops_def binfmt_seq_start_def binfmt_seq_end_def binfmt_seq_next_def
  binfmt_seq_render_def

lemmas socket_ops_defs = socket_seq_file_ops_def socket_seq_start_def socket_seq_end_def socket_seq_next_def
  socket_seq_render_def

interpretation fs_seq: seq_source file_system_seq_file_ops "name_texts (map fs_name xs)" "\<lambda>k p. p = Some k" "unlocked xs" "held xs" for xs
proof
  fix w and seq :: list_seq
  assume "unlocked xs w" "iter_offset seq < length (name_texts (map fs_name xs))"
  then show "\<exists>p w'. so_start file_system_seq_file_ops seq w = Some (seq\<lparr>sq_priv := p\<rparr>, w', 0) \<and> p = Some (iter_offset seq) \<and> held xs w'"
    using unlocked_acquire [of xs w] by (simp add: fs_ops_defs name_texts_def seq_list_start_ok unlocked_def)
next
  fix w k and seq :: list_seq
  assume "held xs w" "k < length (name_texts (map fs_name xs))" "sq_priv seq = Some k"
  then show "\<exists>fmt args. format_text fmt args = Some (name_texts (map fs_name xs) ! k) \<and>
      so_render file_system_seq_file_ops seq w = map_option (\<lambda>(seq, r). (seq, w, r)) (seq_printf seq fmt args)"
    using format_line [of "fs_name (xs ! k)"]
    by (intro exI [of _ "cs ''%s'' @ [10]"] exI [of _ "[AStr (Some (fs_name (xs ! k)))]"])
      (cases "seq_printf seq (cs ''%s'' @ [10]) [AStr (Some (fs_name (xs ! k)))]",
        auto simp: fs_ops_defs name_texts_def seq_list_get_def held_def)
next
  fix w and seq :: list_seq
  assume "held xs w" "iter_offset seq < length (name_texts (map fs_name xs))" "sq_priv seq = Some (iter_offset seq)"
  then show "\<exists>p. so_next file_system_seq_file_ops seq w = Some (seq\<lparr>iter_offset := iter_offset seq + 1, sq_priv := p,
        seq_done := (seq_done seq \<or> iter_offset seq + 1 = length (name_texts (map fs_name xs)))\<rparr>, w, 0) \<and>
      (iter_offset seq + 1 < length (name_texts (map fs_name xs)) \<longrightarrow> p = Some (iter_offset seq + 1))"
    using seq_list_next_ok [of seq "iter_offset seq" xs] by (auto simp: fs_ops_defs name_texts_def held_def)
qed (auto simp: fs_ops_defs held_release)

interpretation binfmt_seq: seq_source binfmt_seq_file_ops "name_texts (map bf_name xs)" "\<lambda>k p. p = Some k" "unlocked xs" "held xs" for xs
proof
  fix w and seq :: list_seq
  assume "unlocked xs w" "iter_offset seq < length (name_texts (map bf_name xs))"
  then show "\<exists>p w'. so_start binfmt_seq_file_ops seq w = Some (seq\<lparr>sq_priv := p\<rparr>, w', 0) \<and> p = Some (iter_offset seq) \<and> held xs w'"
    using unlocked_acquire [of xs w] by (simp add: binfmt_ops_defs name_texts_def seq_list_start_ok unlocked_def)
next
  fix w k and seq :: list_seq
  assume "held xs w" "k < length (name_texts (map bf_name xs))" "sq_priv seq = Some k"
  then show "\<exists>fmt args. format_text fmt args = Some (name_texts (map bf_name xs) ! k) \<and>
      so_render binfmt_seq_file_ops seq w = map_option (\<lambda>(seq, r). (seq, w, r)) (seq_printf seq fmt args)"
    using format_line [of "bf_name (xs ! k)"]
    by (intro exI [of _ "cs ''%s'' @ [10]"] exI [of _ "[AStr (Some (bf_name (xs ! k)))]"])
      (cases "seq_printf seq (cs ''%s'' @ [10]) [AStr (Some (bf_name (xs ! k)))]",
        auto simp: binfmt_ops_defs name_texts_def seq_list_get_def held_def)
next
  fix w and seq :: list_seq
  assume "held xs w" "iter_offset seq < length (name_texts (map bf_name xs))" "sq_priv seq = Some (iter_offset seq)"
  then show "\<exists>p. so_next binfmt_seq_file_ops seq w = Some (seq\<lparr>iter_offset := iter_offset seq + 1, sq_priv := p,
        seq_done := (seq_done seq \<or> iter_offset seq + 1 = length (name_texts (map bf_name xs)))\<rparr>, w, 0) \<and>
      (iter_offset seq + 1 < length (name_texts (map bf_name xs)) \<longrightarrow> p = Some (iter_offset seq + 1))"
    using seq_list_next_ok [of seq "iter_offset seq" xs] by (auto simp: binfmt_ops_defs name_texts_def held_def)
qed (auto simp: binfmt_ops_defs held_release)

lemma socket_render_ok:
  assumes "held xs w" and "k < length (socket_texts xs)" and "sq_priv seq = header_pos k"
  shows "\<exists>fmt args. format_text fmt args = Some (socket_texts xs ! k) \<and>
    so_render socket_seq_file_ops seq w = map_option (\<lambda>(seq, r). (seq, w, r)) (seq_printf seq fmt args)"
proof (cases k)
  case 0
  then show ?thesis using assms format_header
    by (intro exI [of _ socket_header] exI [of _ "[]"]) (simp add: socket_ops_defs seq_list_get_def header_pos_def socket_texts_def)
next
  case (Suc i)
  then have "socket_texts xs ! k = socket_texts [xs ! i] ! 1" using assms(2) by (simp add: socket_texts_def)
  then show ?thesis using assms Suc format_socket_row [of "xs ! i"]
    by (intro exI [of _ socket_row_fmt] exI [of _ "socket_row_args (xs ! i)"])
      (simp add: socket_ops_defs seq_list_get_def header_pos_def held_def)
qed

interpretation socket_seq: seq_source socket_seq_file_ops "socket_texts xs" "\<lambda>k p. p = header_pos k" "unlocked xs" "held xs" for xs
proof
  fix w and seq :: list_seq
  assume "unlocked xs w" "iter_offset seq < length (socket_texts xs)"
  then show "\<exists>p w'. so_start socket_seq_file_ops seq w = Some (seq\<lparr>sq_priv := p\<rparr>, w', 0) \<and> p = header_pos (iter_offset seq) \<and> held xs w'"
    using unlocked_acquire [of xs w] by (simp add: socket_ops_defs socket_texts_def seq_list_start_header_ok unlocked_def)
next
  fix w and seq :: list_seq
  assume "held xs w" "iter_offset seq < length (socket_texts xs)" "sq_priv seq = header_pos (iter_offset seq)"
  then show "\<exists>p. so_next socket_seq_file_ops seq w = Some (seq\<lparr>iter_offset := iter_offset seq + 1, sq_priv := p,
        seq_done := (seq_done seq \<or> iter_offset seq + 1 = length (socket_texts xs))\<rparr>, w, 0) \<and>
      (iter_offset seq + 1 < length (socket_texts xs) \<longrightarrow> p = header_pos (iter_offset seq + 1))"
    using seq_list_next_header_ok [of seq "iter_offset seq" xs] by (auto simp: socket_ops_defs socket_texts_def held_def)
qed (auto simp: socket_ops_defs held_release intro: socket_render_ok [unfolded socket_ops_defs, simplified])

section \<open>Properties\<close>

lemma binary_load_loop_find:
  "binary_load_loop load_bin b fmts =
     (case List.find (\<lambda>f. take (length (bf_magic f)) b = bf_magic f) fmts of
        None \<Rightarrow> - int (errno_no ENOEXEC) | Some f \<Rightarrow> load_bin f)"
  by (induction fmts) (auto simp: strncmp_eq strcmp_eq_0 strlen_def)

lemma fresh_seq_at: "seq_at (seq_file_init p) texts 0" "\<not> seq_done (seq_file_init p)"
  by (simp_all add: seq_at_def seq_file_init_def kbuf_init_def kbuf_wf_def kbuf_content_def)



lemma length_int_text: "length (int_text i) \<le> 11"
proof -
  have "nat \<bar>sint i\<bar> < 10 ^ 10" using sint_u32 [of i] by simp
  from length_integer_digits [OF this, of "[]"] show ?thesis by (auto simp: int_text_def Let_def abs_if)
qed

text \<open>
  The socket list is shown completely whatever it contains, also when it is empty: a file with a header
  line is never empty, so filling it always ends, with the lock free again.
\<close>

theorem socket_list_shown:
  assumes "unlocked xs w" and "\<And>n. \<exists>pg. alloc n = Some pg \<and> length pg = 4096"
    and "length (concat (socket_texts xs)) + 8192 < 2 ^ 32"
  shows "\<exists>seq w'. u_seq_file_fill socket_seq_file_ops alloc (seq_file_init None) w = Some (seq, w', 0) \<and>
    seq_done seq \<and> unlocked xs w' \<and> kbuf_content (seq_buf seq) = concat (socket_texts xs)"
proof -
  have n: "length (socket_state_name st) \<le> 13" for st by (cases st) simp_all
  have "length (int_text a @ [9] @ int_text b @ [9] @ int_text c @ [9] @ int_text d @ [9] @ socket_state_name st @ [10]) \<le> 4096" for a b c d st
    using length_int_text [of a] length_int_text [of b] length_int_text [of c] length_int_text [of d] n [of st] by simp
  then have t: "list_all (\<lambda>t. length t \<le> 4096) (socket_texts xs)" by (auto simp: socket_texts_def list_all_iff socket_header_def)
  have "0 < length (socket_texts xs)" by (simp add: socket_texts_def)
  from socket_seq.fill_completes [where alloc = alloc, OF assms(2,3) t assms(1) this fresh_seq_at [of None]]
  show ?thesis by (auto simp: seq_at_def)
qed

theorem socket_list_shown_witness:
  "\<exists>seq w'. u_seq_file_fill socket_seq_file_ops (\<lambda>n. Some (replicate 4096 0)) (seq_file_init None)
       \<lparr>ll_locked = False, ll_list = []\<rparr> = Some (seq, w', 0) \<and> kbuf_content (seq_buf seq) = socket_header"
proof -
  have "unlocked [] \<lparr>ll_locked = False, ll_list = []\<rparr>" "length (concat (socket_texts [])) + 8192 < 2 ^ 32"
    by (simp_all add: unlocked_def socket_texts_def socket_header_def)
  from socket_list_shown [OF this(1) _ this(2), of "\<lambda>n. Some (replicate 4096 0)"] show ?thesis by (auto simp: socket_texts_def)
qed

text \<open>
  A file without a header line leaks its lock when the list is empty: the fill finds the
  sequence finished right after \<^verbatim>\<open>start\<close> and returns without calling \<^verbatim>\<open>end\<close>, so the lock stays held and the
  next use of the list, here the lookup of a file system, never returns.
\<close>

theorem empty_list_leaks_lock:
  assumes "unlocked [] w"
  shows "\<exists>seq w'. u_seq_file_fill file_system_seq_file_ops alloc (seq_file_init None) w = Some (seq, w', 0) \<and>
    seq_done seq \<and> ll_locked w' \<and> file_system_lookup w' name = None"
  using assms by (subst u_seq_file_fill.simps)
    (auto simp: fs_ops_defs lock_acquire_def unlocked_def seq_list_start_def seq_list_start_node_def u_seq_list_iter_def
      file_system_lookup_def seq_file_init_def kbuf_init_def kbuf_get_free_length_def kbuf_get_total_length_def Let_def)

theorem empty_list_leaks_lock_witness:
  "\<exists>seq w'. u_seq_file_fill file_system_seq_file_ops (\<lambda>n. Some (replicate 4096 0)) (seq_file_init None)
       \<lparr>ll_locked = False, ll_list = []\<rparr> = Some (seq, w', 0) \<and> file_system_lookup w' (cs ''ext2'') = None"
  using empty_list_leaks_lock [of "\<lparr>ll_locked = False, ll_list = []\<rparr>" "\<lambda>n. Some (replicate 4096 0)" "cs ''ext2''"]
  by (auto simp: unlocked_def)

text \<open>
  Without memory the fill never returns: the failure to allocate a page is ignored, the renderer
  runs out of space, and the loop starts again with the same buffer, forever.
\<close>

theorem fill_without_memory_hangs:
  assumes "unlocked (x # xs) w" and "length (fs_name x) < 4096"
  shows "u_seq_file_fill file_system_seq_file_ops (\<lambda>_. None) (seq_file_init None) w = None"
proof (rule ccontr)
  assume "u_seq_file_fill file_system_seq_file_ops (\<lambda>_. None) (seq_file_init None) w \<noteq> None"
  then obtain res where r: "u_seq_file_fill file_system_seq_file_ops (\<lambda>_. None) (seq_file_init None) w = Some res" by blast
  have f: "kbuf_get_free_length (seq_buf (seq_file_init (None :: nat option))) = 0"
    by (simp add: seq_file_init_def kbuf_init_def kbuf_get_free_length_def kbuf_get_total_length_def)
  have "seq_done (seq_file_init (None :: nat option))"
    by (rule fs_seq.no_page_hangs [OF r assms(1) _ fresh_seq_at(1)]) (use assms(2) in \<open>auto simp: name_texts_def f\<close>)
  then show False using fresh_seq_at(2) [of "None :: nat option"] by simp
qed

theorem fill_without_memory_hangs_witness:
  "u_seq_file_fill file_system_seq_file_ops (\<lambda>_. None) (seq_file_init None)
     \<lparr>ll_locked = False, ll_list = [\<lparr>fs_name = cs ''ext2'', fs_id = 0\<rparr>]\<rparr> = None"
  using fill_without_memory_hangs [of "\<lparr>fs_name = cs ''ext2'', fs_id = 0\<rparr>" "[]"] by (simp add: unlocked_def)

end
