(* ===== verification/Sched.thy ===== *)
theory Sched
  imports Errno
begin

text \<open>
  The scheduler, \<^verbatim>\<open>src/kernel/sched/scheduler.c\<close> and \<^verbatim>\<open>include/protura/scheduler.h\<close>. Tasks are named by numbers; the
  list of tasks is a list of names. Every function runs under the lock of the task list, so each is one
  step. \<^verbatim>\<open>struct task\<close> is modelled by the fields that scheduling and signals use.
\<close>

section \<open>Tasks\<close>

datatype task_state = TASK_NONE | TASK_SLEEPING | TASK_INTR_SLEEPING | TASK_RUNNING | TASK_STOPPED | TASK_ZOMBIE | TASK_DEAD

record sigaction =
  sa_handler :: u32
  sa_mask :: u32
  sa_flags :: u32

record task =
  t_pid :: int
  t_pgid :: int
  t_sid :: int
  t_state :: task_state
  t_tty :: "nat option"
  t_preempted :: bool
  t_on_cpu :: bool
  t_ret_signal :: int
  t_parent :: "nat option"
  t_pending :: u32
  t_blocked :: u32
  t_actions :: "sigaction list"

record sched =
  tasks :: "nat \<Rightarrow> task"
  ktasks :: "nat list"
  dead_tasks :: "nat list"
  next_pid :: int
  current :: "nat option"

definition task_upd :: "sched \<Rightarrow> nat \<Rightarrow> (task \<Rightarrow> task) \<Rightarrow> sched" where
  "task_upd s t f = s\<lparr>tasks := (tasks s)(t := f (tasks s t))\<rparr>"

section \<open>Model\<close>

definition scheduler_next_pid :: "sched \<Rightarrow> sched \<times> int" where
  "scheduler_next_pid s = (s\<lparr>next_pid := next_pid s + 1\<rparr>, next_pid s)"

definition scheduler_task_add :: "sched \<Rightarrow> nat \<Rightarrow> sched" where
  "scheduler_task_add s t = s\<lparr>ktasks := ktasks s @ [t]\<rparr>"

definition scheduler_task_remove :: "sched \<Rightarrow> nat \<Rightarrow> sched" where
  "scheduler_task_remove s t = s\<lparr>ktasks := remove1 t (ktasks s)\<rparr>"

definition scheduler_task_mark_dead :: "sched \<Rightarrow> nat \<Rightarrow> sched" where
  "scheduler_task_mark_dead s t =
     (let s = task_upd s t (\<lambda>k. k\<lparr>t_state := TASK_DEAD\<rparr>)
      in s\<lparr>ktasks := remove1 t (ktasks s), dead_tasks := t # dead_tasks s\<rparr>)"

definition scheduler_task_exists :: "sched \<Rightarrow> int \<Rightarrow> unit kresult" where
  "scheduler_task_exists s pid = (if List.find (\<lambda>t. t_pid (tasks s t) = pid) (ktasks s) = None then Err ESRCH else Ok ())"

definition scheduler_task_set_state :: "sched \<Rightarrow> nat \<Rightarrow> task_state \<Rightarrow> sched" where
  "scheduler_task_set_state s t st = task_upd s t (\<lambda>k. k\<lparr>t_state := st\<rparr>)"

definition scheduler_task_wake :: "sched \<Rightarrow> nat \<Rightarrow> sched" where
  "scheduler_task_wake s t =
     (if t_state (tasks s t) = TASK_SLEEPING \<or> t_state (tasks s t) = TASK_INTR_SLEEPING
      then task_upd s t (\<lambda>k. k\<lparr>t_state := TASK_RUNNING\<rparr>) else s)"

definition scheduler_task_intr_wake :: "sched \<Rightarrow> nat \<Rightarrow> sched" where
  "scheduler_task_intr_wake s t =
     (if t_state (tasks s t) = TASK_INTR_SLEEPING then task_upd s t (\<lambda>k. k\<lparr>t_state := TASK_RUNNING\<rparr>) else s)"

subsection \<open>Signals\<close>

definition SIGKILL :: nat where "SIGKILL = 9"
definition SIGCHLD :: nat where "SIGCHLD = 17"
definition SIGCONT :: nat where "SIGCONT = 18"
definition SIGSTOP :: nat where "SIGSTOP = 19"
definition SIGTSTP :: nat where "SIGTSTP = 20"
definition SIGTTIN :: nat where "SIGTTIN = 21"
definition SIGTTOU :: nat where "SIGTTOU = 22"
definition SIGWINCH :: nat where "SIGWINCH = 28"
definition NSIG :: int where "NSIG = 32"

definition SIG_BIT :: "nat \<Rightarrow> u32" where
  "SIG_BIT x = push_bit (x - 1) 1"

definition SIG_UNBLOCKABLE :: u32 where
  "SIG_UNBLOCKABLE = SIG_BIT SIGKILL OR SIG_BIT SIGSTOP"

definition SIGSET_SET :: "u32 \<Rightarrow> nat \<Rightarrow> u32" where
  "SIGSET_SET w sig = set_bit (sig - 1) w"

definition SIGSET_UNSET :: "u32 \<Rightarrow> nat \<Rightarrow> u32" where
  "SIGSET_UNSET w sig = unset_bit (sig - 1) w"

definition has_pending_signal :: "task \<Rightarrow> bool" where
  "has_pending_signal t \<longleftrightarrow> t_pending t AND NOT (t_blocked t) \<noteq> 0"

text \<open>\<^verbatim>\<open>TASK_SIGNAL_CONT\<close> is 0x200.\<close>

definition send_sig :: "sched \<Rightarrow> nat \<Rightarrow> nat \<Rightarrow> bool \<Rightarrow> sched" where
  "send_sig s t signal force =
     (let notify_parent = (signal = SIGCONT \<and> t_state (tasks s t) = TASK_STOPPED);
          s = (if notify_parent then task_upd s t (\<lambda>k. k\<lparr>t_ret_signal := 0x200, t_state := TASK_RUNNING\<rparr>) else s);
          s = (if signal = SIGCONT
               then task_upd s t (\<lambda>k. k\<lparr>t_pending := SIGSET_UNSET (SIGSET_UNSET (SIGSET_UNSET (SIGSET_UNSET
                      (t_pending k) SIGSTOP) SIGTSTP) SIGTTOU) SIGTTIN\<rparr>)
               else s);
          s = (if signal = SIGSTOP \<or> signal = SIGTSTP \<or> signal = SIGTTOU \<or> signal = SIGTTIN
               then task_upd s t (\<lambda>k. k\<lparr>t_pending := SIGSET_UNSET (t_pending k) SIGCONT\<rparr>) else s);
          s = (if signal = SIGKILL \<and> t_state (tasks s t) = TASK_STOPPED
               then task_upd s t (\<lambda>k. k\<lparr>t_state := TASK_RUNNING\<rparr>) else s);
          s = task_upd s t (\<lambda>k. k\<lparr>t_pending := SIGSET_SET (t_pending k) signal\<rparr>);
          s = (if force then task_upd s t (\<lambda>k. k\<lparr>t_blocked := SIGSET_UNSET (t_blocked k) signal\<rparr>) else s);
          s = scheduler_task_intr_wake s t
      in case t_parent (tasks s t) of
           Some p \<Rightarrow> if notify_parent then scheduler_task_wake s p else s
         | None \<Rightarrow> s)"

text \<open>The loop over the task list; the boolean says whether a task was found.\<close>

fun send_signal_loop :: "sched \<Rightarrow> nat list \<Rightarrow> int \<Rightarrow> nat \<Rightarrow> bool \<Rightarrow> sched \<times> bool" where
  "send_signal_loop s [] pid signal force = (s, False)"
| "send_signal_loop s (t # ts) pid signal force =
     (if pid > 0 \<and> t_pid (tasks s t) = pid then (send_sig s t signal force, True)
      else if pid < 0 \<and> t_pgid (tasks s t) = - pid
           then (fst (send_signal_loop (send_sig s t signal force) ts pid signal force), True)
      else send_signal_loop s ts pid signal force)"

definition scheduler_task_send_signal :: "sched \<Rightarrow> int \<Rightarrow> int \<Rightarrow> bool \<Rightarrow> sched \<times> unit kresult" where
  "scheduler_task_send_signal s pid signal force =
     (if signal < 1 \<or> signal > NSIG then (s, Err EINVAL)
      else case send_signal_loop s (ktasks s) pid (nat signal) force of
             (s, found) \<Rightarrow> (s, if found then Ok () else Err ESRCH))"

definition scheduler_task_clear_sid_tty :: "sched \<Rightarrow> nat \<Rightarrow> int \<Rightarrow> sched" where
  "scheduler_task_clear_sid_tty s tty sid =
     foldl (\<lambda>s t. if t_sid (tasks s t) = sid \<and> t_tty (tasks s t) = Some tty
                  then task_upd s t (\<lambda>k. k\<lparr>t_tty := None\<rparr>) else s) s (ktasks s)"

definition scheduler_task_get :: "sched \<Rightarrow> int \<Rightarrow> nat option" where
  "scheduler_task_get s pid = List.find (\<lambda>t. t_pid (tasks s t) = pid) (ktasks s)"

subsection \<open>Choosing a task\<close>

text \<open>The flag that \<^verbatim>\<open>scheduler_task_yield_preempt\<close> sets before it gives up the processor.\<close>

definition set_preempted :: "sched \<Rightarrow> nat \<Rightarrow> sched" where
  "set_preempted s t = task_upd s t (\<lambda>k. k\<lparr>t_preempted := True\<rparr>)"

fun pick_task :: "(nat \<Rightarrow> task) \<Rightarrow> nat list \<Rightarrow> nat option" where
  "pick_task ts [] = None"
| "pick_task ts (t # xs) =
     (if t_preempted (ts t) then Some t else if t_state (ts t) = TASK_RUNNING then Some t else pick_task ts xs)"

text \<open>\<^verbatim>\<open>list_new_last\<close> turns the list around so that the given node is the last one and the order is kept.\<close>

definition rotate_to_last :: "nat \<Rightarrow> nat list \<Rightarrow> nat list" where
  "rotate_to_last t xs = tl (dropWhile (\<lambda>x. x \<noteq> t) xs) @ takeWhile (\<lambda>x. x \<noteq> t) xs @ [t]"

text \<open>
  One round of the loop in \<^verbatim>\<open>scheduler\<close>, up to the switch to the task. Freeing the dead tasks empties
  their list; \<open>kidle\<close> is the idle task of the processor.
\<close>

definition schedule :: "nat \<Rightarrow> sched \<Rightarrow> sched" where
  "schedule kidle s =
     (let s = s\<lparr>dead_tasks := []\<rparr>;
          (s, t) = (case pick_task (tasks s) (ktasks s) of
                      None \<Rightarrow> (s, kidle)
                    | Some t \<Rightarrow>
                        let s = task_upd s t (\<lambda>k. k\<lparr>t_preempted := False\<rparr>)
                        in (s\<lparr>ktasks := rotate_to_last t (ktasks s)\<rparr>, t))
      in (task_upd s t (\<lambda>k. k\<lparr>t_on_cpu := True\<rparr>))\<lparr>current := Some t\<rparr>)"

text \<open>The end of the round, when the task has switched back.\<close>

definition schedule_back :: "sched \<Rightarrow> sched" where
  "schedule_back s =
     (case current s of None \<Rightarrow> s | Some t \<Rightarrow> (task_upd s t (\<lambda>k. k\<lparr>t_on_cpu := False\<rparr>))\<lparr>current := None\<rparr>)"

section \<open>States after the basic operations\<close>

lemma task_state_simps [simp]:
  "t_state (tasks (scheduler_task_set_state s t st) u) = (if u = t then st else t_state (tasks s u))"
  "t_state (tasks (scheduler_task_wake s t) u) =
     (if u = t \<and> t_state (tasks s t) \<in> {TASK_SLEEPING, TASK_INTR_SLEEPING} then TASK_RUNNING else t_state (tasks s u))"
  by (auto simp: scheduler_task_set_state_def scheduler_task_wake_def task_upd_def)

section \<open>Examples\<close>

text \<open>Two runnable tasks, used to show that the properties below can be applied.\<close>

definition example_task :: task where
  "example_task = \<lparr>t_pid = 5, t_pgid = 5, t_sid = 5, t_state = TASK_RUNNING, t_tty = None, t_preempted = False, t_on_cpu = False,
     t_ret_signal = 0, t_parent = None, t_pending = 0, t_blocked = 0, t_actions = replicate 32 \<lparr>sa_handler = 0, sa_mask = 0, sa_flags = 0\<rparr>\<rparr>"

definition example_sched :: sched where
  "example_sched = \<lparr>tasks = (\<lambda>_. example_task), ktasks = [0, 1], dead_tasks = [], next_pid = 7, current = None\<rparr>"

end
