(* ===== verification/SchedFair.thy ===== *)
theory SchedFair
  imports Sched
begin

text \<open>
  The scheduler is fair: a task that stays runnable is passed over at most once by every task that is
  in front of it, whatever the tasks do in between.
\<close>

section \<open>What happens between two rounds\<close>

definition runnable :: "sched \<Rightarrow> nat \<Rightarrow> bool" where
  "runnable s t \<longleftrightarrow> t_preempted (tasks s t) \<or> t_state (tasks s t) = TASK_RUNNING"

text \<open>The operations of other code between two rounds; the task \<open>t\<close> under consideration is not taken off the list.\<close>

inductive sched_env :: "nat \<Rightarrow> sched \<Rightarrow> sched \<Rightarrow> bool" for t where
  env_add: "sched_env t s (scheduler_task_add s u)"
| env_remove: "u \<noteq> t \<Longrightarrow> sched_env t s (scheduler_task_remove s u)"
| env_dead: "u \<noteq> t \<Longrightarrow> sched_env t s (scheduler_task_mark_dead s u)"
| env_state: "sched_env t s (scheduler_task_set_state s u st)"
| env_wake: "sched_env t s (scheduler_task_wake s u)"
| env_preempt: "sched_env t s (set_preempted s u)"
| env_signal: "sched_env t s (fst (scheduler_task_send_signal s pid sig force))"
| env_back: "sched_env t s (schedule_back s)"

text \<open>\<open>passed_over kidle t n s s'\<close>: from \<open>s\<close> to \<open>s'\<close> there were \<open>n\<close> rounds in which \<open>t\<close> was runnable, but not chosen.\<close>

inductive passed_over :: "nat \<Rightarrow> nat \<Rightarrow> nat \<Rightarrow> sched \<Rightarrow> sched \<Rightarrow> bool" for kidle t where
  passed_none: "passed_over kidle t 0 s s"
| passed_env: "passed_over kidle t n s s1 \<Longrightarrow> sched_env t s1 s2 \<Longrightarrow> passed_over kidle t n s s2"
| passed_round: "passed_over kidle t n s s1 \<Longrightarrow> runnable s1 t \<Longrightarrow> current (schedule kidle s1) \<noteq> Some t \<Longrightarrow>
    passed_over kidle t (Suc n) s (schedule kidle s1)"

section \<open>Positions\<close>

definition position :: "nat \<Rightarrow> nat list \<Rightarrow> nat" where
  "position t xs = length (takeWhile (\<lambda>x. x \<noteq> t) xs)"

lemma position_append: "t \<notin> set as \<Longrightarrow> position t (as @ t # bs) = length as"
proof (induction as)
  case (Cons a as)
  then show ?case by (simp add: position_def)
qed (simp add: position_def)

lemma position_less: "t \<in> set xs \<Longrightarrow> position t xs < length xs"
  by (induction xs) (auto simp: position_def)

lemma position_add: "t \<in> set xs \<Longrightarrow> position t (xs @ ys) = position t xs"
  by (induction xs) (auto simp: position_def)

lemma position_remove1: "t \<in> set xs \<Longrightarrow> u \<noteq> t \<Longrightarrow> position t (remove1 u xs) \<le> position t xs"
  by (induction xs) (auto simp: position_def)

lemma pick_task_first:
  "pick_task ts xs = Some t \<Longrightarrow> \<exists>as bs. xs = as @ t # bs \<and> t \<notin> set as \<and>
     (\<forall>x \<in> set as. \<not> t_preempted (ts x) \<and> t_state (ts x) \<noteq> TASK_RUNNING)"
proof (induction xs)
  case (Cons x xs)
  show ?case
  proof (cases "x = t")
    case True
    then show ?thesis by (intro exI [of _ "[]"] exI [of _ xs]) simp
  next
    case False
    then have x: "\<not> t_preempted (ts x)" "t_state (ts x) \<noteq> TASK_RUNNING" "pick_task ts xs = Some t"
      using Cons.prems by (auto split: if_splits)
    from Cons.IH [OF x(3)] obtain as bs where "xs = as @ t # bs" "t \<notin> set as"
      "\<forall>x \<in> set as. \<not> t_preempted (ts x) \<and> t_state (ts x) \<noteq> TASK_RUNNING" by blast
    then show ?thesis using False x by (intro exI [of _ "x # as"] exI [of _ bs]) auto
  qed
qed simp

lemma pick_task_some: "t \<in> set xs \<Longrightarrow> t_preempted (ts t) \<or> t_state (ts t) = TASK_RUNNING \<Longrightarrow> pick_task ts xs \<noteq> None"
  by (induction xs) auto

lemma rotate_split: "t \<notin> set as \<Longrightarrow> rotate_to_last t (as @ t # bs) = bs @ as @ [t]"
proof -
  assume "t \<notin> set as"
  then have "\<forall>x \<in> set as. x \<noteq> t" by auto
  then have "takeWhile (\<lambda>x. x \<noteq> t) (as @ t # bs) = as" "dropWhile (\<lambda>x. x \<noteq> t) (as @ t # bs) = t # bs"
    by (simp_all add: takeWhile_append2 dropWhile_append2)
  then show ?thesis by (simp add: rotate_to_last_def)
qed

text \<open>A round that chooses another task brings a runnable task nearer to the front.\<close>

lemma schedule_position:
  assumes "t \<in> set (ktasks s)" and "runnable s t" and "current (schedule kidle s) \<noteq> Some t"
  shows "t \<in> set (ktasks (schedule kidle s))" and "position t (ktasks (schedule kidle s)) < position t (ktasks s)"
proof -
  obtain c where c: "pick_task (tasks s) (ktasks s) = Some c"
    using pick_task_some [OF assms(1)] assms(2) by (auto simp: runnable_def)
  obtain as bs where ab: "ktasks s = as @ c # bs" "c \<notin> set as"
      "\<forall>x \<in> set as. \<not> t_preempted (tasks s x) \<and> t_state (tasks s x) \<noteq> TASK_RUNNING"
    using pick_task_first [OF c] by blast
  have n: "ktasks (schedule kidle s) = bs @ as @ [c]" "current (schedule kidle s) = Some c"
    using c ab(1) rotate_split [OF ab(2)] by (simp_all add: schedule_def Let_def task_upd_def)
  have t: "t \<noteq> c" "t \<notin> set as" using n(2) assms(2,3) ab(3) by (auto simp: runnable_def)
  then obtain as' bs' where b: "bs = as' @ t # bs'" "t \<notin> set as'"
    using assms(1) ab(1) split_list_first [of t bs] by auto
  have "ktasks s = (as @ c # as') @ t # bs'" "t \<notin> set (as @ c # as')" using ab(1) b t by simp_all
  then have "position t (ktasks s) = length (as @ c # as')" using position_append by metis
  moreover have "position t (ktasks (schedule kidle s)) = length as'"
    using n(1) b position_append [OF b(2), of "bs' @ as @ [c]"] by simp
  ultimately show "position t (ktasks (schedule kidle s)) < position t (ktasks s)" by simp
  show "t \<in> set (ktasks (schedule kidle s))" using n(1) b(1) by simp
qed

lemma send_sig_list: "ktasks (send_sig s t sig force) = ktasks s"
  by (simp add: send_sig_def Let_def task_upd_def scheduler_task_intr_wake_def scheduler_task_wake_def split: option.split)

lemma send_signal_loop_list: "ktasks (fst (send_signal_loop s ts pid sig force)) = ktasks s"
  by (induction s ts pid sig force rule: send_signal_loop.induct) (auto simp: send_sig_list)

lemma send_signal_list: "ktasks (fst (scheduler_task_send_signal s pid sig force)) = ktasks s"
  using send_signal_loop_list [of s "ktasks s" pid "nat sig" force]
  by (auto simp: scheduler_task_send_signal_def split: prod.split)

lemma env_position:
  assumes "sched_env t s s'" and "t \<in> set (ktasks s)"
  shows "t \<in> set (ktasks s') \<and> position t (ktasks s') \<le> position t (ktasks s)"
  using assms
  by cases (auto simp: scheduler_task_add_def scheduler_task_remove_def scheduler_task_mark_dead_def scheduler_task_set_state_def
      scheduler_task_wake_def set_preempted_def send_signal_list schedule_back_def task_upd_def Let_def position_add position_remove1
      split: option.split)

lemma passed_over_position:
  assumes "passed_over kidle t n s s'" and "t \<in> set (ktasks s)"
  shows "t \<in> set (ktasks s') \<and> n + position t (ktasks s') \<le> position t (ktasks s)"
  using assms
proof (induction rule: passed_over.induct)
  case (passed_env n s s1 s2)
  then show ?case using env_position [OF passed_env(2)] by force
next
  case (passed_round n s s1)
  then have "t \<in> set (ktasks s1)" "n + position t (ktasks s1) \<le> position t (ktasks s)" by simp_all
  then show ?case using schedule_position [of t s1 kidle] passed_round(2,3) by fastforce
qed simp

section \<open>Properties\<close>



end
