(* ===== verification/Semaphore.thy ===== *)
theory Semaphore
  imports Sched
begin

text \<open>
  Semaphores and mutexes, \<^verbatim>\<open>src/kernel/sched/semaphore.c\<close> and \<^verbatim>\<open>include/protura/mutex.h\<close>. The code under the semaphore's
  spinlock runs with interrupts off, so it is one step; \<^verbatim>\<open>sleep_event_spinlock\<close> gives the lock up only around the
  call of the scheduler. The queue entries are the waiting tasks.
\<close>

section \<open>Model\<close>

record semaphore =
  sem_count :: int
  sem_queue :: "nat list"

definition sem_init :: "int \<Rightarrow> semaphore" where
  "sem_init value = \<lparr>sem_count = value, sem_queue = []\<rparr>"

definition u_sem_wake_if_waiting :: "sched \<Rightarrow> semaphore \<Rightarrow> sched" where
  "u_sem_wake_if_waiting s sem = (if sem_queue sem \<noteq> [] then scheduler_task_wake s (hd (sem_queue sem)) else s)"

text \<open>
  One pass of the loop in \<^verbatim>\<open>__sem_down\<close> for the task \<open>t\<close>: it marks itself as sleeping, then tests the count. With
  a positive count it leaves the queue and takes the semaphore; otherwise (result \<^term>\<open>False\<close>) it
  goes on to release the lock and yield.
\<close>

definition sem_down_pass :: "nat \<Rightarrow> sched \<Rightarrow> semaphore \<Rightarrow> sched \<times> semaphore \<times> bool" where
  "sem_down_pass t s sem =
     (let s = scheduler_task_set_state s t TASK_SLEEPING
      in if sem_count sem > 0
         then let s = scheduler_task_set_state s t TASK_RUNNING;
                  sem = sem\<lparr>sem_queue := remove1 t (sem_queue sem)\<rparr>;
                  sem = sem\<lparr>sem_count := sem_count sem - 1\<rparr>;
                  s = (if sem_count sem > 0 then u_sem_wake_if_waiting s sem else s)
              in (s, sem, True)
         else (s, sem, False))"

definition u_sem_down :: "nat \<Rightarrow> sched \<Rightarrow> semaphore \<Rightarrow> sched \<times> semaphore \<times> bool" where
  "u_sem_down t s sem = sem_down_pass t s (sem\<lparr>sem_queue := sem_queue sem @ [t]\<rparr>)"

definition u_sem_try_down :: "semaphore \<Rightarrow> semaphore \<times> bool" where
  "u_sem_try_down sem = (if sem_count sem \<le> 0 then (sem, False) else (sem\<lparr>sem_count := sem_count sem - 1\<rparr>, True))"

definition u_sem_up :: "sched \<Rightarrow> semaphore \<Rightarrow> sched \<times> semaphore" where
  "u_sem_up s sem =
     (let sem = sem\<lparr>sem_count := sem_count sem + 1\<rparr> in (u_sem_wake_if_waiting s sem, sem))"

definition sem_waiting :: "semaphore \<Rightarrow> int" where
  "sem_waiting sem = sem_count sem"

definition mutex_init :: semaphore where
  "mutex_init = sem_init 1"

definition mutex_is_locked :: "semaphore \<Rightarrow> bool" where
  "mutex_is_locked m \<longleftrightarrow> sem_count m = 0"

section \<open>Runs\<close>

text \<open>
  The tasks and one semaphore; \<open>blocked\<close> are the tasks between a pass that failed and the next one, \<open>holders\<close>
  lists the tasks that have the semaphore, once for each unit.
\<close>

record sem_sys =
  ss_sched :: sched
  ss_sem :: semaphore
  blocked :: "nat set"
  holders :: "nat list"

definition down_result :: "sem_sys \<Rightarrow> nat \<Rightarrow> sched \<times> semaphore \<times> bool \<Rightarrow> sem_sys" where
  "down_result y t r =
     (case r of (s, sem, got) \<Rightarrow>
        if got then \<lparr>ss_sched = s, ss_sem = sem, blocked = blocked y - {t}, holders = t # holders y\<rparr>
        else \<lparr>ss_sched = s, ss_sem = sem, blocked = insert t (blocked y), holders = holders y\<rparr>)"

text \<open>
  A task that is blocked goes on when the scheduler runs it, so only in the running state. Other code may wake any
  task and may change the state of tasks that are not blocked here.
\<close>

inductive sem_step :: "sem_sys \<Rightarrow> sem_sys \<Rightarrow> bool" where
  step_down: "t \<notin> blocked y \<Longrightarrow> sem_step y (down_result y t (u_sem_down t (ss_sched y) (ss_sem y)))"
| step_resume: "t \<in> blocked y \<Longrightarrow> t_state (tasks (ss_sched y) t) = TASK_RUNNING \<Longrightarrow>
    sem_step y (down_result y t (sem_down_pass t (ss_sched y) (ss_sem y)))"
| step_try: "u_sem_try_down (ss_sem y) = (sem, True) \<Longrightarrow>
    sem_step y (y\<lparr>ss_sem := sem, holders := t # holders y\<rparr>)"
| step_up: "t \<in> set (holders y) \<Longrightarrow> u_sem_up (ss_sched y) (ss_sem y) = (s, sem) \<Longrightarrow>
    sem_step y (y\<lparr>ss_sched := s, ss_sem := sem, holders := remove1 t (holders y)\<rparr>)"
| step_wake: "sem_step y (y\<lparr>ss_sched := scheduler_task_wake (ss_sched y) u\<rparr>)"
| step_state: "u \<notin> blocked y \<Longrightarrow> sem_step y (y\<lparr>ss_sched := scheduler_task_set_state (ss_sched y) u st\<rparr>)"

definition sem_start :: "sched \<Rightarrow> int \<Rightarrow> sem_sys" where
  "sem_start s n = \<lparr>ss_sched = s, ss_sem = sem_init n, blocked = {}, holders = []\<rparr>"

inductive sem_reach :: "int \<Rightarrow> sem_sys \<Rightarrow> bool" for n where
  reach_start: "sem_reach n (sem_start s n)"
| reach_step: "sem_reach n y \<Longrightarrow> sem_step y y' \<Longrightarrow> sem_reach n y'"

section \<open>Invariant\<close>

definition sem_inv :: "int \<Rightarrow> sem_sys \<Rightarrow> bool" where
  "sem_inv n y \<longleftrightarrow>
     0 \<le> sem_count (ss_sem y) \<and> sem_count (ss_sem y) + int (length (holders y)) = n \<and>
     distinct (sem_queue (ss_sem y)) \<and> set (sem_queue (ss_sem y)) = blocked y \<and>
     (\<forall>t \<in> blocked y. t_state (tasks (ss_sched y) t) \<in> {TASK_SLEEPING, TASK_RUNNING}) \<and>
     (0 < sem_count (ss_sem y) \<and> sem_queue (ss_sem y) \<noteq> [] \<longrightarrow>
        t_state (tasks (ss_sched y) (hd (sem_queue (ss_sem y)))) = TASK_RUNNING)"

lemma sem_pass_inv:
  assumes "sem_inv n y" and q: "sem_queue sem = q" "distinct q" "set q = insert t (blocked y)" "sem_count sem = sem_count (ss_sem y)"
  shows "sem_inv n (down_result y t (sem_down_pass t (ss_sched y) sem))"
proof (cases "0 < sem_count sem")
  case False
  then show ?thesis using assms by (auto simp: sem_inv_def down_result_def sem_down_pass_def Let_def)
next
  case True
  let ?q = "remove1 t q" and ?s = "scheduler_task_set_state (scheduler_task_set_state (ss_sched y) t TASK_SLEEPING) t TASK_RUNNING"
  let ?s2 = "if sem_count sem - 1 > 0 \<and> ?q \<noteq> [] then scheduler_task_wake ?s (hd ?q) else ?s"
  have r: "down_result y t (sem_down_pass t (ss_sched y) sem) =
      \<lparr>ss_sched = ?s2, ss_sem = sem\<lparr>sem_queue := ?q, sem_count := sem_count sem - 1\<rparr>, blocked = blocked y - {t}, holders = t # holders y\<rparr>"
    using True q(1) by (simp add: down_result_def sem_down_pass_def u_sem_wake_if_waiting_def Let_def)
  have sq: "set ?q = blocked y - {t}" "distinct ?q" using q(2,3) by (auto simp: set_remove1_eq)
  have st: "t_state (tasks (ss_sched y) u) \<in> {TASK_SLEEPING, TASK_RUNNING}" if "u \<in> set ?q" for u
    using assms(1) that sq(1) by (auto simp: sem_inv_def)
  have "t_state (tasks ?s2 (hd ?q)) = TASK_RUNNING" if "0 < sem_count sem - 1" "?q \<noteq> []"
    using that st [of "hd ?q"] hd_in_set [OF that(2)] sq(1) by auto
  moreover have "t_state (tasks ?s2 u) \<in> {TASK_SLEEPING, TASK_RUNNING}" if "u \<in> set ?q" for u
    using st [OF that] sq(1) that by auto
  ultimately show ?thesis unfolding r using assms(1) True q(4) sq by (auto simp: sem_inv_def)
qed

lemma sem_step_inv:
  assumes "sem_step y y'" and inv: "sem_inv n y"
  shows "sem_inv n y'"
  using assms(1)
proof cases
  case (step_down t)
  then show ?thesis using sem_pass_inv [OF inv, of "ss_sem y\<lparr>sem_queue := sem_queue (ss_sem y) @ [t]\<rparr>"] inv
    by (auto simp: u_sem_down_def sem_inv_def)
next
  case (step_resume t)
  then show ?thesis using sem_pass_inv [OF inv, of "ss_sem y"] inv by (auto simp: sem_inv_def)
next
  case (step_try sem t)
  then show ?thesis using inv by (auto simp: sem_inv_def u_sem_try_down_def split: if_splits)
next
  case (step_up t s sem)
  have h: "hd (sem_queue (ss_sem y)) \<in> blocked y" if "sem_queue (ss_sem y) \<noteq> []" using inv that by (auto simp: sem_inv_def)
  have l: "int (length (remove1 t (holders y))) = int (length (holders y)) - 1"
    using step_up(2) by (simp add: length_remove1) (metis One_nat_def Suc_leI in_set_conv_nth length_greater_0_conv length_pos_if_in_set of_nat_diff of_nat_1)
  have s: "s = (if sem_queue (ss_sem y) \<noteq> [] then scheduler_task_wake (ss_sched y) (hd (sem_queue (ss_sem y))) else ss_sched y)"
    "sem = ss_sem y\<lparr>sem_count := sem_count (ss_sem y) + 1\<rparr>"
    using step_up(3) by (auto simp: u_sem_up_def u_sem_wake_if_waiting_def Let_def)
  show ?thesis unfolding step_up(1) s using inv h l by (auto simp: sem_inv_def)
next
  case (step_wake u)
  then show ?thesis using inv by (auto simp: sem_inv_def)
next
  case (step_state u st)
  then show ?thesis using inv hd_in_set [of "sem_queue (ss_sem y)"] by (auto simp: sem_inv_def)
qed

lemma sem_reach_inv:
  assumes "sem_reach n y" and "0 \<le> n"
  shows "sem_inv n y"
  using assms
proof (induction rule: sem_reach.induct)
  case (reach_start s)
  then show ?case by (simp add: sem_inv_def sem_start_def sem_init_def)
qed (rule sem_step_inv)

section \<open>Properties\<close>

text \<open>
  C5. A semaphore with the initial count \<open>n\<close> never has more than \<open>n\<close> holders, in every interleaving of downs,
  attempts, ups and spurious wake-ups by any number of tasks; a mutex has at most one, and it is locked exactly while it has one.
\<close>

theorem semaphore_exclusion:
  assumes "sem_reach n y" and "0 \<le> n"
  shows "int (length (holders y)) \<le> n \<and> sem_count (ss_sem y) = n - int (length (holders y)) \<and>
    (n = 1 \<longrightarrow> (mutex_is_locked (ss_sem y) \<longleftrightarrow> (\<exists>t. holders y = [t])))"
proof -
  have "0 \<le> sem_count (ss_sem y)" "sem_count (ss_sem y) + int (length (holders y)) = n"
    using sem_reach_inv [OF assms] by (simp_all add: sem_inv_def)
  moreover from this have "length (holders y) = 0 \<or> length (holders y) = Suc 0" if "n = 1" using that by linarith
  ultimately show ?thesis by (auto simp: mutex_is_locked_def length_Suc_conv)
qed

definition example_sem1 :: sem_sys where
  "example_sem1 = down_result (sem_start example_sched 1) 0 (u_sem_down 0 example_sched (sem_init 1))"

definition example_sem2 :: sem_sys where
  "example_sem2 = down_result example_sem1 1 (u_sem_down 1 (ss_sched example_sem1) (ss_sem example_sem1))"

definition example_sem3 :: sem_sys where
  "example_sem3 = (case u_sem_up (ss_sched example_sem2) (ss_sem example_sem2) of
     (s, sem) \<Rightarrow> example_sem2\<lparr>ss_sched := s, ss_sem := sem, holders := remove1 0 (holders example_sem2)\<rparr>)"

lemmas example_sem_defs = example_sem1_def example_sem2_def example_sem3_def sem_start_def sem_init_def down_result_def
  u_sem_down_def sem_down_pass_def u_sem_up_def u_sem_wake_if_waiting_def example_sched_def example_task_def

lemma example_sem_reach: "sem_reach 1 example_sem1" "sem_reach 1 example_sem2" "sem_reach 1 example_sem3"
proof -
  have "sem_step (sem_start example_sched 1) example_sem1"
    using step_down [of 0 "sem_start example_sched 1"] by (simp add: example_sem1_def sem_start_def)
  then show 1: "sem_reach 1 example_sem1" by (rule reach_step [OF reach_start])
  have "1 \<notin> blocked example_sem1" by (simp add: example_sem_defs Let_def)
  then show 2: "sem_reach 1 example_sem2" unfolding example_sem2_def by (rule reach_step [OF 1 step_down])
  have "0 \<in> set (holders example_sem2)" by (simp add: example_sem_defs Let_def)
  then show "sem_reach 1 example_sem3" unfolding example_sem3_def
    by (cases "u_sem_up (ss_sched example_sem2) (ss_sem example_sem2)") (auto intro: reach_step [OF 2 step_up])
qed

theorem semaphore_exclusion_witness:
  "mutex_is_locked (ss_sem example_sem2) \<and> holders example_sem2 = [0] \<and> blocked example_sem2 = {1}"
  using semaphore_exclusion [OF example_sem_reach(2)] by (simp add: example_sem_defs Let_def)

text \<open>
  C6. No wake-up is lost: in every reachable state in which the semaphore is free while tasks wait, the first of them is
  runnable, and when it runs it gets the semaphore. So tasks never sleep forever on a free semaphore, also when
  several ups come before the first waiter has run.
\<close>

theorem semaphore_no_lost_wakeup:
  assumes "sem_reach n y" and "0 \<le> n" and "0 < sem_count (ss_sem y)" and "blocked y \<noteq> {}"
  shows "\<exists>t q. sem_queue (ss_sem y) = t # q \<and> t \<in> blocked y \<and> t_state (tasks (ss_sched y) t) = TASK_RUNNING \<and>
    (\<exists>y'. sem_step y y' \<and> t \<in> set (holders y') \<and> blocked y' = blocked y - {t})"
proof -
  have inv: "sem_inv n y" by (rule sem_reach_inv [OF assms(1,2)])
  then obtain t q where q: "sem_queue (ss_sem y) = t # q" using assms(4) by (cases "sem_queue (ss_sem y)") (auto simp: sem_inv_def)
  then have t: "t \<in> blocked y" "t_state (tasks (ss_sched y) t) = TASK_RUNNING" using inv assms(3) by (auto simp: sem_inv_def)
  let ?y = "down_result y t (sem_down_pass t (ss_sched y) (ss_sem y))"
  have "sem_step y ?y" by (rule step_resume [OF t])
  moreover have "t \<in> set (holders ?y)" "blocked ?y = blocked y - {t}"
    using assms(3) by (simp_all add: down_result_def sem_down_pass_def Let_def)
  ultimately show ?thesis using q t by blast
qed

theorem semaphore_no_lost_wakeup_witness:
  "\<exists>y'. sem_step example_sem3 y' \<and> 1 \<in> set (holders y') \<and> blocked y' = {}"
proof -
  have "0 < sem_count (ss_sem example_sem3)" "blocked example_sem3 \<noteq> {}" "sem_queue (ss_sem example_sem3) = [1]"
    "blocked example_sem3 = {1}" by (simp_all add: example_sem_defs Let_def)
  with semaphore_no_lost_wakeup [OF example_sem_reach(3) _ this(1,2)] show ?thesis by auto
qed

end
