(* ===== verification/Work.thy ===== *)
theory Work
  imports Sched
begin

text \<open>
  Work items, work queues and wait queues: \<^verbatim>\<open>src/kernel/sched/workqueue.c\<close>, \<^verbatim>\<open>src/kernel/sched/wait_queue.c\<close> and the structures of
  \<^verbatim>\<open>include/protura/work.h\<close> and \<^verbatim>\<open>include/protura/wait.h\<close>. Items, queues and wait nodes are named by numbers. Callbacks
  that run at once are recorded in a log. Code under a spinlock is one step.
\<close>

section \<open>State\<close>

datatype work_type = WORK_NONE | WORK_TASK | WORK_CALLBACK | WORK_KWORK | WORK_WORKQUEUE

record work =
  work_scheduled :: bool
  work_oneshot :: bool
  work_type :: work_type
  work_task :: nat
  work_queue :: nat

record workqueue =
  work_list :: "nat list"
  work_running_list :: "nat list"
  work_threads :: "nat list"
  wake_next_thread :: nat

text \<open>A wait node carries the work to schedule and the queue it is registered in.\<close>

record wait_node =
  wn_queue :: "nat option"
  wn_on_complete :: nat

record wsys =
  ws_sched :: sched
  works :: "nat \<Rightarrow> work"
  workqueues :: "nat \<Rightarrow> workqueue"
  wait_nodes :: "nat \<Rightarrow> wait_node"
  wait_queues :: "nat \<Rightarrow> nat list"
  callback_log :: "nat list"

definition work_upd :: "wsys \<Rightarrow> nat \<Rightarrow> (work \<Rightarrow> work) \<Rightarrow> wsys" where
  "work_upd s w f = s\<lparr>works := (works s)(w := f (works s w))\<rparr>"

definition wq_upd :: "wsys \<Rightarrow> nat \<Rightarrow> (workqueue \<Rightarrow> workqueue) \<Rightarrow> wsys" where
  "wq_upd s q f = s\<lparr>workqueues := (workqueues s)(q := f (workqueues s q))\<rparr>"

definition ws_wake :: "wsys \<Rightarrow> nat \<Rightarrow> wsys" where
  "ws_wake s t = s\<lparr>ws_sched := scheduler_task_wake (ws_sched s) t\<rparr>"

section \<open>Work queues\<close>

text \<open>Initialisation macros.\<close>

definition workqueue_init :: workqueue where
  "workqueue_init = \<lparr>work_list = [], work_running_list = [], work_threads = [], wake_next_thread = 0\<rparr>"

definition work_init :: work where
  "work_init = \<lparr>work_scheduled = False, work_oneshot = False, work_type = WORK_NONE, work_task = 0, work_queue = 0\<rparr>"

definition work_init_kwork :: work where
  "work_init_kwork = work_init\<lparr>work_type := WORK_KWORK\<rparr>"

definition work_init_callback :: work where
  "work_init_callback = work_init\<lparr>work_type := WORK_CALLBACK\<rparr>"

definition work_init_task :: "nat \<Rightarrow> work" where
  "work_init_task t = work_init\<lparr>work_type := WORK_TASK, work_task := t\<rparr>"

definition work_init_workqueue :: "nat \<Rightarrow> work" where
  "work_init_workqueue q = work_init\<lparr>work_type := WORK_WORKQUEUE, work_queue := q\<rparr>"

text \<open>The item is on a list when it is on the work list or on the running list of its queue.\<close>

definition workqueue_add_work :: "wsys \<Rightarrow> nat \<Rightarrow> nat \<Rightarrow> wsys" where
  "workqueue_add_work s q w =
     (let s = work_upd s w (\<lambda>k. k\<lparr>work_scheduled := True\<rparr>);
          k = workqueues s q;
          s = (if w \<notin> set (work_list k) \<union> set (work_running_list k)
               then wq_upd s q (\<lambda>k. k\<lparr>work_list := work_list k @ [w]\<rparr>) else s)
      in if work_threads k \<noteq> []
         then wq_upd (ws_wake s (work_threads k ! wake_next_thread k)) q
                (\<lambda>k. k\<lparr>wake_next_thread := (wake_next_thread k + 1) mod length (work_threads k)\<rparr>)
         else s)"

text \<open>The system work queue \<^verbatim>\<open>kwork\<close> has the number 0.\<close>

definition work_schedule :: "wsys \<Rightarrow> nat \<Rightarrow> wsys" where
  "work_schedule s w =
     (case work_type (works s w) of
        WORK_CALLBACK \<Rightarrow> s\<lparr>callback_log := callback_log s @ [w]\<rparr>
      | WORK_KWORK \<Rightarrow> workqueue_add_work s 0 w
      | WORK_TASK \<Rightarrow> ws_wake s (work_task (works s w))
      | WORK_WORKQUEUE \<Rightarrow> workqueue_add_work s (work_queue (works s w)) w
      | WORK_NONE \<Rightarrow> s)"

text \<open>
  The loop of \<^verbatim>\<open>workqueue_thread\<close> in two parts that both run under the lock: putting back the item that was just
  run, and the test for new work. The test marks the thread as sleeping first; without work the thread releases the
  lock and yields (result \<^term>\<open>None\<close>).
\<close>

definition workqueue_put_back :: "wsys \<Rightarrow> nat \<Rightarrow> nat option \<Rightarrow> wsys" where
  "workqueue_put_back s q work =
     (case work of
        None \<Rightarrow> s
      | Some w \<Rightarrow>
          let s = wq_upd s q (\<lambda>k. k\<lparr>work_list := remove1 w (work_list k), work_running_list := remove1 w (work_running_list k)\<rparr>)
          in if work_scheduled (works s w) then wq_upd s q (\<lambda>k. k\<lparr>work_list := work_list k @ [w]\<rparr>) else s)"

definition workqueue_take :: "wsys \<Rightarrow> nat \<Rightarrow> nat \<Rightarrow> wsys \<times> (nat \<times> bool) option" where
  "workqueue_take s q thread =
     (let s = s\<lparr>ws_sched := scheduler_task_set_state (ws_sched s) thread TASK_SLEEPING\<rparr>
      in case work_list (workqueues s q) of
           [] \<Rightarrow> (s, None)
         | w # rest \<Rightarrow>
             let s = s\<lparr>ws_sched := scheduler_task_set_state (ws_sched s) thread TASK_RUNNING\<rparr>;
                 s = wq_upd s q (\<lambda>k. k\<lparr>work_list := rest\<rparr>);
                 clear_work = work_oneshot (works s w);
                 s = (if \<not> clear_work then wq_upd s q (\<lambda>k. k\<lparr>work_running_list := work_running_list k @ [w]\<rparr>) else s);
                 s = work_upd s w (\<lambda>k. k\<lparr>work_scheduled := False\<rparr>)
             in (s, Some (w, clear_work)))"

section \<open>Wait queues\<close>

definition wait_node_upd :: "wsys \<Rightarrow> nat \<Rightarrow> (wait_node \<Rightarrow> wait_node) \<Rightarrow> wsys" where
  "wait_node_upd s n f = s\<lparr>wait_nodes := (wait_nodes s)(n := f (wait_nodes s n))\<rparr>"

text \<open>A node is on a list if it is on that of the queue it names. Joining a second queue panics.\<close>

definition node_in_list :: "wsys \<Rightarrow> nat \<Rightarrow> bool" where
  "node_in_list s n = (case wn_queue (wait_nodes s n) of None \<Rightarrow> False | Some q \<Rightarrow> n \<in> set (wait_queues s q))"

definition wait_queue_register :: "wsys \<Rightarrow> nat \<Rightarrow> nat \<Rightarrow> wsys option" where
  "wait_queue_register s q n =
     (if \<not> node_in_list s n
      then Some (wait_node_upd (s\<lparr>wait_queues := (wait_queues s)(q := wait_queues s q @ [n])\<rparr>) n (\<lambda>k. k\<lparr>wn_queue := Some q\<rparr>))
      else if wn_queue (wait_nodes s n) \<noteq> Some q then None else Some s)"

definition wait_queue_unregister :: "wsys \<Rightarrow> nat \<Rightarrow> wsys option" where
  "wait_queue_unregister s n =
     (case wn_queue (wait_nodes s n) of
        None \<Rightarrow> Some s
      | Some q \<Rightarrow>
          if node_in_list s n
          then Some (wait_node_upd (s\<lparr>wait_queues := (wait_queues s)(q := remove1 n (wait_queues s q))\<rparr>) n (\<lambda>k. k\<lparr>wn_queue := None\<rparr>))
          else None)"

text \<open>\<^verbatim>\<open>wait_queue_wake\<close> takes every node off the queue and schedules its work; it returns how many there were.\<close>

fun wake_nodes :: "wsys \<Rightarrow> nat list \<Rightarrow> wsys" where
  "wake_nodes s [] = s"
| "wake_nodes s (n # ns) =
     wake_nodes (work_schedule (wait_node_upd s n (\<lambda>k. k\<lparr>wn_queue := None\<rparr>)) (wn_on_complete (wait_nodes s n))) ns"

definition wait_queue_wake :: "wsys \<Rightarrow> nat \<Rightarrow> wsys \<times> nat" where
  "wait_queue_wake s q =
     (wake_nodes (s\<lparr>wait_queues := (wait_queues s)(q := [])\<rparr>) (wait_queues s q), length (wait_queues s q))"

definition wait_queue_waiting :: "wsys \<Rightarrow> nat \<Rightarrow> bool" where
  "wait_queue_waiting s q \<longleftrightarrow> wait_queues s q \<noteq> []"

section \<open>Examples\<close>

text \<open>A system in which nothing is queued: one work queue with the thread 0, and wait nodes that wake their tasks.\<close>

definition example_wsys :: wsys where
  "example_wsys = \<lparr>ws_sched = example_sched, works = work_init_task,
     workqueues = (\<lambda>_. workqueue_init\<lparr>work_threads := [0]\<rparr>),
     wait_nodes = (\<lambda>t. \<lparr>wn_queue = None, wn_on_complete = t\<rparr>), wait_queues = (\<lambda>_. []), callback_log = []\<rparr>"

end
