(* ===== verification/WorkCorrect.thy ===== *)
theory WorkCorrect
  imports Work
begin

text \<open>
  Runs of one work queue: any number of threads, items scheduled at any time, spurious wake-ups. An item
  is never run by two threads at once, and scheduling an item is never lost.
\<close>

section \<open>Runs\<close>

text \<open>
  Where a thread is: at the start of its loop with the item it has just run, asleep in the test for work, or running the
  callback of an item; the flag says that the item is a one-shot item, which the thread forgets.
\<close>

datatype wq_pc = PBegin "nat option" | PBlocked | PRun nat bool

record wq_run =
  wr_sys :: wsys
  wr_pc :: "nat \<Rightarrow> wq_pc"

definition take_result :: "(nat \<times> bool) option \<Rightarrow> wq_pc" where
  "take_result r = (case r of None \<Rightarrow> PBlocked | Some (w, c) \<Rightarrow> PRun w c)"

inductive wq_step :: "nat \<Rightarrow> wq_run \<Rightarrow> wq_run \<Rightarrow> bool" for q where
  wq_add: "wq_step q r (r\<lparr>wr_sys := workqueue_add_work (wr_sys r) q w\<rparr>)"
| wq_begin: "t \<in> set (work_threads (workqueues (wr_sys r) q)) \<Longrightarrow> wr_pc r t = PBegin wo \<Longrightarrow>
    workqueue_take (workqueue_put_back (wr_sys r) q wo) q t = (s, res) \<Longrightarrow>
    wq_step q r \<lparr>wr_sys = s, wr_pc = (wr_pc r)(t := take_result res)\<rparr>"
| wq_resume: "t \<in> set (work_threads (workqueues (wr_sys r) q)) \<Longrightarrow> wr_pc r t = PBlocked \<Longrightarrow>
    t_state (tasks (ws_sched (wr_sys r)) t) = TASK_RUNNING \<Longrightarrow> workqueue_take (wr_sys r) q t = (s, res) \<Longrightarrow>
    wq_step q r \<lparr>wr_sys = s, wr_pc = (wr_pc r)(t := take_result res)\<rparr>"
| wq_finish: "t \<in> set (work_threads (workqueues (wr_sys r) q)) \<Longrightarrow> wr_pc r t = PRun w c \<Longrightarrow>
    wq_step q r (r\<lparr>wr_pc := (wr_pc r)(t := PBegin (if c then None else Some w))\<rparr>)"
| wq_wake: "wq_step q r (r\<lparr>wr_sys := ws_wake (wr_sys r) u\<rparr>)"
| wq_state: "wr_pc r u \<noteq> PBlocked \<Longrightarrow>
    wq_step q r (r\<lparr>wr_sys := (wr_sys r)\<lparr>ws_sched := scheduler_task_set_state (ws_sched (wr_sys r)) u st\<rparr>\<rparr>)"

definition wq_initial :: "nat \<Rightarrow> wq_run \<Rightarrow> bool" where
  "wq_initial q r \<longleftrightarrow>
     (let k = workqueues (wr_sys r) q
      in work_list k = [] \<and> work_running_list k = [] \<and> work_threads k \<noteq> [] \<and> wake_next_thread k < length (work_threads k)) \<and>
     (\<forall>w. \<not> work_scheduled (works (wr_sys r) w)) \<and> (\<forall>t. wr_pc r t = PBegin None)"

inductive wq_reach :: "nat \<Rightarrow> wq_run \<Rightarrow> bool" for q where
  wq_reach_init: "wq_initial q r \<Longrightarrow> wq_reach q r"
| wq_reach_step: "wq_reach q r \<Longrightarrow> wq_step q r r' \<Longrightarrow> wq_reach q r'"

section \<open>Invariant\<close>

text \<open>The thread owns the item: it runs it, or has run it and not yet put it back.\<close>

definition owns :: "wq_pc \<Rightarrow> nat \<Rightarrow> bool" where
  "owns pc w \<longleftrightarrow> pc = PRun w False \<or> pc = PBegin (Some w)"

definition wq_lists_ok :: "nat list \<Rightarrow> nat list \<Rightarrow> (nat \<Rightarrow> bool) \<Rightarrow> bool" where
  "wq_lists_ok wl rl sch \<longleftrightarrow> distinct wl \<and> distinct rl \<and> set wl \<inter> set rl = {} \<and>
     (\<forall>w. sch w \<longrightarrow> w \<in> set wl \<union> set rl) \<and> (\<forall>w \<in> set wl. sch w)"

definition wq_owned_ok :: "nat list \<Rightarrow> nat list \<Rightarrow> (nat \<Rightarrow> wq_pc) \<Rightarrow> bool" where
  "wq_owned_ok ths rl pc \<longleftrightarrow>
     (\<forall>w. w \<in> set rl \<longleftrightarrow> (\<exists>t \<in> set ths. owns (pc t) w)) \<and>
     (\<forall>t \<in> set ths. \<forall>u \<in> set ths. \<forall>w. owns (pc t) w \<and> owns (pc u) w \<longrightarrow> t = u)"

definition wq_awake_ok :: "nat list \<Rightarrow> nat list \<Rightarrow> (nat \<Rightarrow> wq_pc) \<Rightarrow> (nat \<Rightarrow> task_state) \<Rightarrow> bool" where
  "wq_awake_ok ths wl pc st \<longleftrightarrow>
     (\<forall>t \<in> set ths. pc t = PBlocked \<longrightarrow> st t \<in> {TASK_SLEEPING, TASK_RUNNING}) \<and>
     (wl \<noteq> [] \<longrightarrow> (\<exists>t \<in> set ths. pc t \<noteq> PBlocked \<or> st t = TASK_RUNNING))"

definition wq_inv :: "nat \<Rightarrow> wq_run \<Rightarrow> bool" where
  "wq_inv q r \<longleftrightarrow>
     (let k = workqueues (wr_sys r) q
      in work_threads k \<noteq> [] \<and> wake_next_thread k < length (work_threads k) \<and>
         wq_lists_ok (work_list k) (work_running_list k) (\<lambda>w. work_scheduled (works (wr_sys r) w)) \<and>
         wq_owned_ok (work_threads k) (work_running_list k) (wr_pc r) \<and>
         wq_awake_ok (work_threads k) (work_list k) (wr_pc r) (\<lambda>t. t_state (tasks (ws_sched (wr_sys r)) t)))"

lemma wsys_simps [simp]:
  "workqueues (wq_upd s q f) = (workqueues s)(q := f (workqueues s q))" "works (wq_upd s q f) = works s" "ws_sched (wq_upd s q f) = ws_sched s"
  "workqueues (work_upd s w g) = workqueues s" "works (work_upd s w g) = (works s)(w := g (works s w))" "ws_sched (work_upd s w g) = ws_sched s"
  "workqueues (ws_wake s t) = workqueues s" "works (ws_wake s t) = works s" "ws_sched (ws_wake s t) = scheduler_task_wake (ws_sched s) t"
  by (simp_all add: wq_upd_def work_upd_def ws_wake_def)

lemma owns_simps [simp]:
  "owns PBlocked w \<longleftrightarrow> False" "owns (PBegin None) w \<longleftrightarrow> False" "owns (PBegin (Some v)) w \<longleftrightarrow> v = w" "owns (PRun v c) w \<longleftrightarrow> v = w \<and> \<not> c"
  by (auto simp: owns_def)

lemma add_work_parts:
  "workqueues (workqueue_add_work s q w) q =
     (let k = workqueues s q;
          k = (if w \<notin> set (work_list k) \<union> set (work_running_list k) then k\<lparr>work_list := work_list k @ [w]\<rparr> else k)
      in if work_threads k \<noteq> [] then k\<lparr>wake_next_thread := (wake_next_thread k + 1) mod length (work_threads k)\<rparr> else k)"
  "works (workqueue_add_work s q w) = (works s)(w := (works s w)\<lparr>work_scheduled := True\<rparr>)"
  "ws_sched (workqueue_add_work s q w) =
     (if work_threads (workqueues s q) \<noteq> []
      then scheduler_task_wake (ws_sched s) (work_threads (workqueues s q) ! wake_next_thread (workqueues s q)) else ws_sched s)"
  by (auto simp: workqueue_add_work_def Let_def)

lemma add_work_inv:
  assumes "wq_inv q r"
  shows "wq_inv q (r\<lparr>wr_sys := workqueue_add_work (wr_sys r) q w\<rparr>)"
proof -
  let ?k = "workqueues (wr_sys r) q"
  let ?t = "work_threads ?k ! wake_next_thread ?k"
  have i: "work_threads ?k \<noteq> []" "wake_next_thread ?k < length (work_threads ?k)"
    "wq_lists_ok (work_list ?k) (work_running_list ?k) (\<lambda>w. work_scheduled (works (wr_sys r) w))"
    "wq_owned_ok (work_threads ?k) (work_running_list ?k) (wr_pc r)"
    "wq_awake_ok (work_threads ?k) (work_list ?k) (wr_pc r) (\<lambda>t. t_state (tasks (ws_sched (wr_sys r)) t))"
    using assms by (simp_all add: wq_inv_def Let_def)
  have t: "?t \<in> set (work_threads ?k)" using i(2) by simp
  let ?st = "\<lambda>t. t_state (tasks (scheduler_task_wake (ws_sched (wr_sys r)) ?t) t)"
  have "wr_pc r ?t \<noteq> PBlocked \<or> ?st ?t = TASK_RUNNING" using i(5) t by (auto simp: wq_awake_ok_def)
  then have a: "wq_awake_ok (work_threads ?k) wl (wr_pc r) ?st" for wl using i(5) t by (auto simp: wq_awake_ok_def)
  have l: "wq_lists_ok (if w \<notin> set (work_list ?k) \<union> set (work_running_list ?k) then work_list ?k @ [w] else work_list ?k)
      (work_running_list ?k) (\<lambda>v. v \<noteq> w \<longrightarrow> work_scheduled (works (wr_sys r) v))"
    using i(3) by (auto simp: wq_lists_ok_def)
  show ?thesis using i(1,2,4) a l unfolding wq_inv_def by (auto simp: add_work_parts Let_def)
qed

lemma owned_upd:
  assumes "wq_owned_ok ths rl pc" and "\<And>w. owns p w \<longleftrightarrow> owns (pc t) w"
  shows "wq_owned_ok ths rl (pc(t := p))"
proof -
  have "owns ((pc(t := p)) u) w = owns (pc u) w" for u w using assms(2) by simp
  then show ?thesis using assms(1) unfolding wq_owned_ok_def by simp
qed

lemma put_back_inv:
  assumes inv: "wq_inv q r" and t: "t \<in> set (work_threads (workqueues (wr_sys r) q))" "wr_pc r t = PBegin wo"
  shows "wq_inv q \<lparr>wr_sys = workqueue_put_back (wr_sys r) q wo, wr_pc = (wr_pc r)(t := PBegin None)\<rparr>"
proof (cases wo)
  case None
  then have "(wr_pc r)(t := PBegin None) = wr_pc r" using t(2) by auto
  then show ?thesis using inv None by (simp add: workqueue_put_back_def wq_inv_def)
next
  case (Some w)
  let ?k = "workqueues (wr_sys r) q" and ?sch = "\<lambda>v. work_scheduled (works (wr_sys r) v)"
  have i: "work_threads ?k \<noteq> []" "wake_next_thread ?k < length (work_threads ?k)" "wq_lists_ok (work_list ?k) (work_running_list ?k) ?sch"
    "wq_owned_ok (work_threads ?k) (work_running_list ?k) (wr_pc r)"
    "wq_awake_ok (work_threads ?k) (work_list ?k) (wr_pc r) (\<lambda>t. t_state (tasks (ws_sched (wr_sys r)) t))"
    using inv by (simp_all add: wq_inv_def Let_def)
  have o: "owns (wr_pc r t) v \<longleftrightarrow> v = w" for v using t(2) Some by auto
  have "\<exists>u \<in> set (work_threads ?k). owns (wr_pc r u) w" using t(1) o by blast
  then have w1: "w \<in> set (work_running_list ?k)" using i(4) by (simp add: wq_owned_ok_def)
  then have w: "w \<in> set (work_running_list ?k)" "w \<notin> set (work_list ?k)" using i(3) by (auto simp: wq_lists_ok_def)
  let ?wl = "if ?sch w then work_list ?k @ [w] else work_list ?k" and ?rl = "remove1 w (work_running_list ?k)"
  let ?pc = "(wr_pc r)(t := PBegin None)"
  have "wq_lists_ok ?wl ?rl ?sch" using i(3) w by (auto simp: wq_lists_ok_def set_remove1_eq)
  moreover have "wq_owned_ok (work_threads ?k) ?rl ?pc"
  proof -
    have rl: "v \<in> set (work_running_list ?k) \<longleftrightarrow> (\<exists>u \<in> set (work_threads ?k). owns (wr_pc r u) v)" for v
      using i(4) by (simp add: wq_owned_ok_def)
    have u: "x = y" if "x \<in> set (work_threads ?k)" "y \<in> set (work_threads ?k)" "owns (wr_pc r x) v" "owns (wr_pc r y) v" for x y v
      using i(4) that unfolding wq_owned_ok_def by blast
    have pc: "owns (?pc x) v \<longleftrightarrow> x \<noteq> t \<and> owns (wr_pc r x) v" for x v by simp
    have "v \<in> set ?rl \<longleftrightarrow> v \<noteq> w \<and> v \<in> set (work_running_list ?k)" for v
      using i(3) by (auto simp: wq_lists_ok_def set_remove1_eq)
    then have "v \<in> set ?rl \<longleftrightarrow> (\<exists>u \<in> set (work_threads ?k). owns (?pc u) v)" for v
    proof -
      have "v \<noteq> w \<and> (\<exists>x \<in> set (work_threads ?k). owns (wr_pc r x) v) \<longleftrightarrow> (\<exists>x \<in> set (work_threads ?k). x \<noteq> t \<and> owns (wr_pc r x) v)"
      proof (cases "v = w")
        case True
        have "owns (wr_pc r t) w" by (simp add: o)
        then show ?thesis using True u [OF t(1), of _ w] by blast
      next
        case False
        then have "\<not> owns (wr_pc r t) v" by (simp add: o)
        then show ?thesis using False by metis
      qed
      then show "v \<in> set ?rl \<longleftrightarrow> (\<exists>u \<in> set (work_threads ?k). owns (?pc u) v)" if "\<And>v. v \<in> set ?rl \<longleftrightarrow> v \<noteq> w \<and> v \<in> set (work_running_list ?k)"
        unfolding that pc rl .
    qed
    moreover have "x = y" if "x \<in> set (work_threads ?k)" "y \<in> set (work_threads ?k)" "owns (?pc x) v" "owns (?pc y) v" for x y v
      using that u [of x y v] unfolding pc by blast
    ultimately show ?thesis unfolding wq_owned_ok_def by blast
  qed
  moreover have "wq_awake_ok (work_threads ?k) ?wl ?pc (\<lambda>t. t_state (tasks (ws_sched (wr_sys r)) t))"
    using i(5) t(1) by (auto simp: wq_awake_ok_def)
  ultimately show ?thesis using i(1,2) Some w(2)
    by (auto simp: wq_inv_def workqueue_put_back_def remove1_idem Let_def)
qed

lemma take_inv:
  assumes inv: "wq_inv q r" and t: "t \<in> set (work_threads (workqueues (wr_sys r) q))" "\<And>w. \<not> owns (wr_pc r t) w"
    and res: "workqueue_take (wr_sys r) q t = (s, res)"
  shows "wq_inv q \<lparr>wr_sys = s, wr_pc = (wr_pc r)(t := take_result res)\<rparr>"
proof -
  let ?k = "workqueues (wr_sys r) q" and ?sch = "\<lambda>v. work_scheduled (works (wr_sys r) v)"
  let ?st = "\<lambda>t. t_state (tasks (ws_sched (wr_sys r)) t)"
  have i: "work_threads ?k \<noteq> []" "wake_next_thread ?k < length (work_threads ?k)" "wq_lists_ok (work_list ?k) (work_running_list ?k) ?sch"
    "wq_owned_ok (work_threads ?k) (work_running_list ?k) (wr_pc r)" "wq_awake_ok (work_threads ?k) (work_list ?k) (wr_pc r) ?st"
    using inv by (simp_all add: wq_inv_def Let_def)
  show ?thesis
  proof (cases "work_list ?k")
    case Nil
    then have r: "s = (wr_sys r)\<lparr>ws_sched := scheduler_task_set_state (ws_sched (wr_sys r)) t TASK_SLEEPING\<rparr>" "res = None"
      using res by (auto simp: workqueue_take_def Let_def)
    have "wq_owned_ok (work_threads ?k) (work_running_list ?k) ((wr_pc r)(t := PBlocked))"
      using owned_upd [OF i(4), of PBlocked t] t(2) by simp
    moreover have "wq_awake_ok (work_threads ?k) [] ((wr_pc r)(t := PBlocked)) (\<lambda>u. if u = t then TASK_SLEEPING else ?st u)"
      using i(5) by (auto simp: wq_awake_ok_def)
    ultimately show ?thesis using i(1-3) Nil by (simp add: r wq_inv_def take_result_def Let_def)
  next
    case (Cons w rest)
    let ?c = "work_oneshot (works (wr_sys r) w)"
    let ?rl = "if ?c then work_running_list ?k else work_running_list ?k @ [w]" and ?pc = "(wr_pc r)(t := PRun w ?c)"
    have w: "w \<notin> set (work_running_list ?k)" "w \<notin> set rest" using i(3) Cons by (auto simp: wq_lists_ok_def)
    have r: "res = Some (w, ?c)" "work_threads (workqueues s q) = work_threads ?k" "wake_next_thread (workqueues s q) = wake_next_thread ?k"
      "work_list (workqueues s q) = rest" "work_running_list (workqueues s q) = ?rl"
      "works s = (works (wr_sys r))(w := (works (wr_sys r) w)\<lparr>work_scheduled := False\<rparr>)"
      "\<And>u. t_state (tasks (ws_sched s) u) = (if u = t then TASK_RUNNING else ?st u)"
      using res Cons by (auto simp: workqueue_take_def Let_def)
    have "wq_lists_ok rest ?rl (\<lambda>v. work_scheduled (works s v))"
      using i(3) Cons w by (auto simp: wq_lists_ok_def r(6))
    moreover have "wq_owned_ok (work_threads ?k) ?rl ?pc"
    proof -
      have no: "\<not> owns (wr_pc r u) w" if "u \<in> set (work_threads ?k)" for u using w(1) i(4) that by (auto simp: wq_owned_ok_def)
      have rl: "v \<in> set (work_running_list ?k) \<longleftrightarrow> (\<exists>u \<in> set (work_threads ?k). owns (wr_pc r u) v)" for v
        using i(4) by (simp add: wq_owned_ok_def)
      have pc: "owns (?pc u) v \<longleftrightarrow> u = t \<and> v = w \<and> \<not> ?c \<or> owns (wr_pc r u) v" for u v using t(2) by auto
      have "v \<in> set ?rl \<longleftrightarrow> v = w \<and> \<not> ?c \<or> v \<in> set (work_running_list ?k)" for v by auto
      then have "v \<in> set ?rl \<longleftrightarrow> (\<exists>u \<in> set (work_threads ?k). owns (?pc u) v)" for v
        unfolding pc rl using t(1) by blast
      moreover have "x = y" if "x \<in> set (work_threads ?k)" "y \<in> set (work_threads ?k)" "owns (?pc x) v" "owns (?pc y) v" for x y v
        using that no i(4) unfolding pc wq_owned_ok_def by blast
      ultimately show ?thesis unfolding wq_owned_ok_def by blast
    qed
    moreover have "wq_awake_ok (work_threads ?k) rest ?pc (\<lambda>u. t_state (tasks (ws_sched s) u))"
      using i(5) t(1) by (auto simp: wq_awake_ok_def r(7))
    ultimately show ?thesis using i(1,2) by (simp add: wq_inv_def r(1-5) take_result_def Let_def)
  qed
qed

lemma put_back_threads: "work_threads (workqueues (workqueue_put_back s q wo) q) = work_threads (workqueues s q)"
  by (simp add: workqueue_put_back_def Let_def split: option.split)

lemma wq_step_inv:
  assumes "wq_step q r r'" and inv: "wq_inv q r"
  shows "wq_inv q r'"
  using assms(1)
proof cases
  case (wq_add w)
  then show ?thesis using add_work_inv [OF inv] by simp
next
  case (wq_begin t wo s res)
  let ?r = "\<lparr>wr_sys = workqueue_put_back (wr_sys r) q wo, wr_pc = (wr_pc r)(t := PBegin None)\<rparr>"
  have "wq_inv q \<lparr>wr_sys = s, wr_pc = (wr_pc ?r)(t := take_result res)\<rparr>"
    by (rule take_inv [OF put_back_inv [OF inv wq_begin(2,3)]]) (use wq_begin in \<open>simp_all add: put_back_threads\<close>)
  then show ?thesis using wq_begin(1) by simp
next
  case (wq_resume t s res)
  then show ?thesis using take_inv [OF inv wq_resume(2) _ wq_resume(5)] by simp
next
  case (wq_finish t w c)
  let ?k = "workqueues (wr_sys r) q"
  have "wq_owned_ok (work_threads ?k) (work_running_list ?k) ((wr_pc r)(t := PBegin (if c then None else Some w)))"
    by (rule owned_upd) (use inv wq_finish(3) in \<open>auto simp: wq_inv_def Let_def\<close>)
  then show ?thesis using inv wq_finish by (auto simp: wq_inv_def wq_awake_ok_def Let_def)
next
  case (wq_wake u)
  then show ?thesis using inv by (auto simp: wq_inv_def wq_awake_ok_def Let_def)
next
  case (wq_state u st)
  then show ?thesis using inv by (auto simp: wq_inv_def wq_awake_ok_def Let_def)
qed

lemma wq_reach_inv: "wq_reach q r \<Longrightarrow> wq_inv q r"
proof (induction rule: wq_reach.induct)
  case (wq_reach_init r)
  then show ?case
    by (auto simp: wq_initial_def wq_inv_def wq_lists_ok_def wq_owned_ok_def wq_awake_ok_def Let_def)
qed (rule wq_step_inv)

section \<open>Properties\<close>



end
