(* ===== verification/WaitEvent.thy ===== *)
theory WaitEvent
  imports Work
begin

text \<open>
  Waiting for an event: the macro \<^verbatim>\<open>__wait_queue_event_generic\<close> of \<^verbatim>\<open>include/protura/wait.h\<close>. With a spinlock the body of the
  loop up to the yield is one step; without a lock other code can run between any two of its calls.
  The wait node of a task has the number of the task and wakes it.
\<close>

section \<open>Model\<close>

text \<open>
  The body of the loop up to the yield, for the variants with a lock: register, mark as sleeping, test the condition
  and the signals. The result \<open>Left ret\<close> says that the loop is left with \<open>ret\<close> (the task is unregistered
  and running again), \<open>Yields\<close> that the task goes on to give up the lock and the processor.
\<close>

datatype wait_result = Left "unit kresult" | Yields

definition wait_event_pass :: "bool \<Rightarrow> nat \<Rightarrow> nat \<Rightarrow> bool \<Rightarrow> wsys \<Rightarrow> (wsys \<times> wait_result) option" where
  "wait_event_pass is_intr q t condition s = do {
     s \<leftarrow> wait_queue_register s q t;
     let s = s\<lparr>ws_sched := scheduler_task_set_state (ws_sched s) t (if is_intr then TASK_INTR_SLEEPING else TASK_SLEEPING)\<rparr>;
     let leave = (\<lambda>ret. do {
           s \<leftarrow> wait_queue_unregister s t;
           Some (s\<lparr>ws_sched := scheduler_task_set_state (ws_sched s) t TASK_RUNNING\<rparr>, Left ret) });
     if condition then leave (Ok ())
     else if is_intr \<and> has_pending_signal (tasks (ws_sched s) t) then leave (Err ERESTARTSYS)
     else Some (s, Yields)
   }"

section \<open>Runs with a lock\<close>

text \<open>\<open>asleep\<close> are the tasks between a pass that yields and their next pass.\<close>

record we_run =
  we_sys :: wsys
  asleep :: "nat set"

text \<open>
  The condition is whatever it is at the time of a pass. Other code may wake tasks at any time, send
  signals and change the state of tasks that do not wait here.
\<close>

inductive we_step :: "nat \<Rightarrow> we_run \<Rightarrow> we_run \<Rightarrow> bool" for q where
  we_pass: "t \<in> asleep r \<longrightarrow> t_state (tasks (ws_sched (we_sys r)) t) = TASK_RUNNING \<Longrightarrow>
    wait_event_pass is_intr q t condition (we_sys r) = Some (s, res) \<Longrightarrow>
    we_step q r \<lparr>we_sys = s, asleep = (if res = Yields then insert t (asleep r) else asleep r - {t})\<rparr>"
| we_wake_queue: "we_step q r (r\<lparr>we_sys := fst (wait_queue_wake (we_sys r) q)\<rparr>)"
| we_wake_task: "we_step q r (r\<lparr>we_sys := ws_wake (we_sys r) u\<rparr>)"
| we_signal: "we_step q r (r\<lparr>we_sys := (we_sys r)\<lparr>ws_sched := fst (scheduler_task_send_signal (ws_sched (we_sys r)) pid sig force)\<rparr>\<rparr>)"
| we_state: "u \<notin> asleep r \<Longrightarrow>
    we_step q r (r\<lparr>we_sys := (we_sys r)\<lparr>ws_sched := scheduler_task_set_state (ws_sched (we_sys r)) u st\<rparr>\<rparr>)"

text \<open>In the beginning no task waits, and the nodes wake their tasks.\<close>

definition we_initial :: "nat \<Rightarrow> we_run \<Rightarrow> bool" where
  "we_initial q r \<longleftrightarrow> asleep r = {} \<and> wait_queues (we_sys r) q = [] \<and>
     (\<forall>t. wn_queue (wait_nodes (we_sys r) t) = None \<and>
          (let w = works (we_sys r) (wn_on_complete (wait_nodes (we_sys r) t)) in work_type w = WORK_TASK \<and> work_task w = t))"

inductive we_reach :: "nat \<Rightarrow> we_run \<Rightarrow> bool" for q where
  we_reach_init: "we_initial q r \<Longrightarrow> we_reach q r"
| we_reach_step: "we_reach q r \<Longrightarrow> we_step q r r' \<Longrightarrow> we_reach q r'"

section \<open>Invariant\<close>

definition sleep_state :: "task_state \<Rightarrow> bool" where
  "sleep_state st \<longleftrightarrow> st = TASK_SLEEPING \<or> st = TASK_INTR_SLEEPING"

definition nodes_ok :: "nat \<Rightarrow> wsys \<Rightarrow> bool" where
  "nodes_ok q s \<longleftrightarrow> distinct (wait_queues s q) \<and>
     (\<forall>t. wn_queue (wait_nodes s t) = (if t \<in> set (wait_queues s q) then Some q else None) \<and>
          (let w = works s (wn_on_complete (wait_nodes s t)) in work_type w = WORK_TASK \<and> work_task w = t))"

definition we_inv :: "nat \<Rightarrow> we_run \<Rightarrow> bool" where
  "we_inv q r \<longleftrightarrow> nodes_ok q (we_sys r) \<and>
     (\<forall>t \<in> asleep r. let st = t_state (tasks (ws_sched (we_sys r)) t)
        in (sleep_state st \<and> t \<in> set (wait_queues (we_sys r) q)) \<or> st = TASK_RUNNING)"

lemma send_sig_state:
  "t_state (tasks (send_sig s t sig force) u) = t_state (tasks s u) \<or> t_state (tasks (send_sig s t sig force) u) = TASK_RUNNING"
  by (auto simp: send_sig_def Let_def task_upd_def scheduler_task_intr_wake_def scheduler_task_wake_def split: option.split)

lemma send_signal_loop_state:
  "t_state (tasks (fst (send_signal_loop s ts pid sig force)) u) = t_state (tasks s u) \<or>
   t_state (tasks (fst (send_signal_loop s ts pid sig force)) u) = TASK_RUNNING"
proof (induction s ts pid sig force rule: send_signal_loop.induct)
  case (2 s t ts pid sig force)
  then show ?case using send_sig_state [of s t sig force u] by (auto split: if_splits)
qed simp

lemma send_signal_state:
  "t_state (tasks (fst (scheduler_task_send_signal s pid sig force)) u) = t_state (tasks s u) \<or>
   t_state (tasks (fst (scheduler_task_send_signal s pid sig force)) u) = TASK_RUNNING"
  using send_signal_loop_state [of s "ktasks s" pid "nat sig" force u]
  by (auto simp: scheduler_task_send_signal_def split: prod.split)

text \<open>Waking the queue leaves all its tasks runnable and the queue empty.\<close>

lemma wake_nodes_frame:
  assumes "\<forall>t. let w = works s (wn_on_complete (wait_nodes s t)) in work_type w = WORK_TASK \<and> work_task w = t"
  shows "wait_queues (wake_nodes s ns) = wait_queues s" "works (wake_nodes s ns) = works s"
    "wn_on_complete (wait_nodes (wake_nodes s ns) t) = wn_on_complete (wait_nodes s t)"
    "wn_queue (wait_nodes (wake_nodes s ns) t) = (if t \<in> set ns then None else wn_queue (wait_nodes s t))"
    "t_state (tasks (ws_sched (wake_nodes s ns)) t) =
       (if t \<in> set ns \<and> sleep_state (t_state (tasks (ws_sched s) t)) then TASK_RUNNING else t_state (tasks (ws_sched s) t))"
  using assms
proof (induction ns arbitrary: s)
  case (Cons n ns)
  case 1
  then show ?case using Cons.IH(1) by (simp add: work_schedule_def wait_node_upd_def ws_wake_def Let_def)
next
  case (Cons n ns)
  case 2
  then show ?case using Cons.IH(2) by (simp add: work_schedule_def wait_node_upd_def ws_wake_def Let_def)
next
  case (Cons n ns)
  case 3
  then show ?case using Cons.IH(3) by (simp add: work_schedule_def wait_node_upd_def ws_wake_def Let_def)
next
  case (Cons n ns)
  case 4
  then show ?case using Cons.IH(4) by (simp add: work_schedule_def wait_node_upd_def ws_wake_def Let_def)
next
  case (Cons n ns)
  case 5
  then show ?case using Cons.IH(5) by (auto simp: work_schedule_def wait_node_upd_def ws_wake_def sleep_state_def Let_def)
qed simp_all

lemma nodes_ok_wake: "nodes_ok q s \<Longrightarrow> nodes_ok q (fst (wait_queue_wake s q))"
proof -
  assume ok: "nodes_ok q s"
  let ?s = "s\<lparr>wait_queues := (wait_queues s)(q := [])\<rparr>"
  have w: "\<forall>t. let w = works ?s (wn_on_complete (wait_nodes ?s t)) in work_type w = WORK_TASK \<and> work_task w = t"
    using ok by (simp add: nodes_ok_def)
  have "wn_queue (wait_nodes (wake_nodes ?s (wait_queues s q)) t) = None" for t
    using ok unfolding wake_nodes_frame(4) [OF w] by (auto simp: nodes_ok_def)
  then show ?thesis using ok by (simp add: nodes_ok_def wait_queue_wake_def wake_nodes_frame [OF w])
qed

lemma wake_queue_states:
  assumes "nodes_ok q s"
  shows "t_state (tasks (ws_sched (fst (wait_queue_wake s q))) t) =
    (if t \<in> set (wait_queues s q) \<and> sleep_state (t_state (tasks (ws_sched s) t)) then TASK_RUNNING else t_state (tasks (ws_sched s) t))"
proof -
  let ?s = "s\<lparr>wait_queues := (wait_queues s)(q := [])\<rparr>"
  have w: "\<forall>t. let w = works ?s (wn_on_complete (wait_nodes ?s t)) in work_type w = WORK_TASK \<and> work_task w = t"
    using assms by (simp add: nodes_ok_def)
  show ?thesis unfolding wait_queue_wake_def fst_conv wake_nodes_frame(5) [OF w] by simp
qed

lemma register_ok:
  assumes "nodes_ok q s"
  shows "\<exists>s'. wait_queue_register s q t = Some s' \<and> nodes_ok q s' \<and> ws_sched s' = ws_sched s \<and>
    set (wait_queues s' q) = insert t (set (wait_queues s q))"
  using assms by (cases "t \<in> set (wait_queues s q)")
    (auto simp: wait_queue_register_def node_in_list_def nodes_ok_def wait_node_upd_def Let_def)

lemma unregister_ok:
  assumes "nodes_ok q s" and "t \<in> set (wait_queues s q)"
  shows "\<exists>s'. wait_queue_unregister s t = Some s' \<and> nodes_ok q s' \<and> ws_sched s' = ws_sched s \<and>
    set (wait_queues s' q) = set (wait_queues s q) - {t}"
  using assms by (auto simp: wait_queue_unregister_def node_in_list_def nodes_ok_def wait_node_upd_def set_remove1_eq Let_def)

lemma nodes_ok_sched: "nodes_ok q (s\<lparr>ws_sched := x\<rparr>) = nodes_ok q s"
  by (simp add: nodes_ok_def)

lemma wait_event_pass_ok:
  assumes "nodes_ok q s"
  shows "\<exists>s' res. wait_event_pass is_intr q t condition s = Some (s', res) \<and> nodes_ok q s' \<and>
    (\<forall>u. u \<noteq> t \<longrightarrow> t_state (tasks (ws_sched s') u) = t_state (tasks (ws_sched s) u)) \<and>
    set (wait_queues s' q) - {t} = set (wait_queues s q) - {t} \<and>
    (if res = Yields then sleep_state (t_state (tasks (ws_sched s') t)) \<and> t \<in> set (wait_queues s' q)
     else t_state (tasks (ws_sched s') t) = TASK_RUNNING)"
proof -
  obtain s1 where s1: "wait_queue_register s q t = Some s1" "nodes_ok q s1" "ws_sched s1 = ws_sched s"
      "set (wait_queues s1 q) = insert t (set (wait_queues s q))" using register_ok [OF assms] by blast
  let ?s2 = "s1\<lparr>ws_sched := scheduler_task_set_state (ws_sched s1) t (if is_intr then TASK_INTR_SLEEPING else TASK_SLEEPING)\<rparr>"
  have s2: "nodes_ok q ?s2" "t \<in> set (wait_queues ?s2 q)" using s1 by (simp_all add: nodes_ok_sched)
  obtain s3 where s3: "wait_queue_unregister ?s2 t = Some s3" "nodes_ok q s3" "ws_sched s3 = ws_sched ?s2"
      "set (wait_queues s3 q) = set (wait_queues ?s2 q) - {t}" using unregister_ok [OF s2] by blast
  show ?thesis
  proof (cases "condition \<or> (is_intr \<and> has_pending_signal (tasks (ws_sched ?s2) t))")
    case True
    let ?s4 = "s3\<lparr>ws_sched := scheduler_task_set_state (ws_sched s3) t TASK_RUNNING\<rparr>"
    have "\<exists>ret. wait_event_pass is_intr q t condition s = Some (?s4, Left ret)"
      using True s1(1) s3(1) by (cases condition; cases is_intr) (auto simp: wait_event_pass_def Let_def)
    then obtain ret where "wait_event_pass is_intr q t condition s = Some (?s4, Left ret)" by blast
    then show ?thesis using s1(3,4) s3(2-4) by (intro exI [of _ ?s4] exI [of _ "Left ret"]) (auto simp: nodes_ok_sched)
  next
    case False
    then have "wait_event_pass is_intr q t condition s = Some (?s2, Yields)" using s1(1) by (auto simp: wait_event_pass_def Let_def)
    then show ?thesis using s1(3,4) s2 by (intro exI [of _ ?s2] exI [of _ Yields]) (auto simp: sleep_state_def)
  qed
qed

lemma we_step_inv:
  assumes "we_step q r r'" and inv: "we_inv q r"
  shows "we_inv q r'"
  using assms(1)
proof cases
  case (we_pass t is_intr condition s res)
  have n: "nodes_ok q (we_sys r)" using inv by (simp add: we_inv_def)
  have p: "nodes_ok q s" "\<And>u. u \<noteq> t \<Longrightarrow> t_state (tasks (ws_sched s) u) = t_state (tasks (ws_sched (we_sys r)) u)"
    "set (wait_queues s q) - {t} = set (wait_queues (we_sys r) q) - {t}"
    "if res = Yields then sleep_state (t_state (tasks (ws_sched s) t)) \<and> t \<in> set (wait_queues s q) else t_state (tasks (ws_sched s) t) = TASK_RUNNING"
    using wait_event_pass_ok [OF n, of is_intr t condition] we_pass(3) by auto
  have o: "sleep_state (t_state (tasks (ws_sched s) u)) \<and> u \<in> set (wait_queues s q) \<or> t_state (tasks (ws_sched s) u) = TASK_RUNNING"
    if "u \<in> asleep r" "u \<noteq> t" for u using inv that p(2,3) by (auto simp: we_inv_def Let_def)
  show ?thesis unfolding we_pass(1) using p(1,4) o by (auto simp: we_inv_def Let_def split: if_splits)
next
  case we_wake_queue
  have n: "nodes_ok q (we_sys r)" using inv by (simp add: we_inv_def)
  then show ?thesis using inv we_wake_queue by (auto simp: we_inv_def nodes_ok_wake wake_queue_states [OF n] Let_def)
next
  case (we_wake_task u)
  then show ?thesis using inv by (auto simp: we_inv_def ws_wake_def nodes_ok_sched sleep_state_def Let_def)
next
  case (we_signal pid sig force)
  then show ?thesis using inv send_signal_state [of "ws_sched (we_sys r)" pid sig force]
    by (simp add: we_inv_def nodes_ok_sched Let_def) metis
next
  case (we_state u st)
  then show ?thesis using inv by (auto simp: we_inv_def nodes_ok_sched Let_def)
qed

lemma we_reach_inv: "we_reach q r \<Longrightarrow> we_inv q r"
proof (induction rule: we_reach.induct)
  case (we_reach_init r)
  then show ?case by (auto simp: we_initial_def we_inv_def nodes_ok_def Let_def)
qed (rule we_step_inv)

section \<open>Properties\<close>


lemma example_wait_initial: "we_initial 7 \<lparr>we_sys = example_wsys, asleep = {}\<rparr>" "nodes_ok 7 example_wsys"
  by (simp_all add: we_initial_def nodes_ok_def example_wsys_def work_init_task_def work_init_def)


section \<open>The macro without a lock\<close>

text \<open>The calls of the loop body as steps of their own; the condition is a flag that other code sets and clears.\<close>

datatype wait_pc = WTop | WRegistered | WMarked | WYield | WExit "unit kresult" | WOut "unit kresult"

record ue_run =
  ue_sys :: wsys
  ue_pc :: "nat \<Rightarrow> wait_pc"
  ue_cond :: bool

inductive ue_step :: "bool \<Rightarrow> nat \<Rightarrow> ue_run \<Rightarrow> ue_run \<Rightarrow> bool" for is_intr q where
  ue_register: "ue_pc r t = WTop \<Longrightarrow> wait_queue_register (ue_sys r) q t = Some s \<Longrightarrow>
    ue_step is_intr q r (r\<lparr>ue_sys := s, ue_pc := (ue_pc r)(t := WRegistered)\<rparr>)"
| ue_mark: "ue_pc r t = WRegistered \<Longrightarrow>
    ue_step is_intr q r (r\<lparr>ue_sys := (ue_sys r)\<lparr>ws_sched := scheduler_task_set_state (ws_sched (ue_sys r)) t
        (if is_intr then TASK_INTR_SLEEPING else TASK_SLEEPING)\<rparr>, ue_pc := (ue_pc r)(t := WMarked)\<rparr>)"
| ue_true: "ue_pc r t = WMarked \<Longrightarrow> ue_cond r \<Longrightarrow> ue_step is_intr q r (r\<lparr>ue_pc := (ue_pc r)(t := WExit (Ok ()))\<rparr>)"
| ue_signal: "ue_pc r t = WMarked \<Longrightarrow> \<not> ue_cond r \<Longrightarrow> is_intr \<Longrightarrow> has_pending_signal (tasks (ws_sched (ue_sys r)) t) \<Longrightarrow>
    ue_step is_intr q r (r\<lparr>ue_pc := (ue_pc r)(t := WExit (Err ERESTARTSYS))\<rparr>)"
| ue_false: "ue_pc r t = WMarked \<Longrightarrow> \<not> ue_cond r \<Longrightarrow> \<not> (is_intr \<and> has_pending_signal (tasks (ws_sched (ue_sys r)) t)) \<Longrightarrow>
    ue_step is_intr q r (r\<lparr>ue_pc := (ue_pc r)(t := WYield)\<rparr>)"
| ue_resume: "ue_pc r t = WYield \<Longrightarrow> t_state (tasks (ws_sched (ue_sys r)) t) = TASK_RUNNING \<Longrightarrow>
    ue_step is_intr q r (r\<lparr>ue_pc := (ue_pc r)(t := WTop)\<rparr>)"
| ue_exit: "ue_pc r t = WExit ret \<Longrightarrow> wait_queue_unregister (ue_sys r) t = Some s \<Longrightarrow>
    ue_step is_intr q r (r\<lparr>ue_sys := s\<lparr>ws_sched := scheduler_task_set_state (ws_sched s) t TASK_RUNNING\<rparr>, ue_pc := (ue_pc r)(t := WOut ret)\<rparr>)"
| ue_condition: "ue_step is_intr q r (r\<lparr>ue_cond := b\<rparr>)"
| ue_wake: "ue_step is_intr q r (r\<lparr>ue_sys := fst (wait_queue_wake (ue_sys r) q)\<rparr>)"

text \<open>
  Without a lock a wake-up can be lost: if the queue is woken between the registration and the marking as
  sleeping, for an event that another task consumes, the task goes to sleep without being registered. From then on
  the condition can become true and the queue can be woken without the task noticing.
\<close>

theorem wait_event_unlocked_loses_wakeup:
  assumes ok: "nodes_ok q (ue_sys r)" and q: "wait_queues (ue_sys r) q = []" and t: "ue_pc r t = WTop"
    "t_state (tasks (ws_sched (ue_sys r)) t) = TASK_RUNNING"
  shows "\<exists>r'. (ue_step False q)\<^sup>*\<^sup>* r r' \<and> ue_pc r' t = WYield \<and> ue_cond r' \<and> t_state (tasks (ws_sched (ue_sys r')) t) = TASK_SLEEPING \<and>
    wait_queues (ue_sys r') q = [] \<and> t_state (tasks (ws_sched (fst (wait_queue_wake (ue_sys r') q))) t) = TASK_SLEEPING"
proof -
  obtain s1 where s1: "wait_queue_register (ue_sys r) q t = Some s1" "nodes_ok q s1" "ws_sched s1 = ws_sched (ue_sys r)"
    "set (wait_queues s1 q) = insert t (set (wait_queues (ue_sys r) q))" using register_ok [OF ok] by blast
  let ?r1 = "r\<lparr>ue_sys := s1, ue_pc := (ue_pc r)(t := WRegistered)\<rparr>"
  let ?s2 = "fst (wait_queue_wake s1 q)"
  let ?r2 = "?r1\<lparr>ue_sys := ?s2\<rparr>" let ?r3 = "?r2\<lparr>ue_cond := False\<rparr>"
  let ?s4 = "?s2\<lparr>ws_sched := scheduler_task_set_state (ws_sched ?s2) t TASK_SLEEPING\<rparr>"
  let ?r4 = "?r3\<lparr>ue_sys := ?s4, ue_pc := (ue_pc ?r3)(t := WMarked)\<rparr>"
  let ?r5 = "?r4\<lparr>ue_pc := (ue_pc ?r4)(t := WYield)\<rparr>" let ?r6 = "?r5\<lparr>ue_cond := True\<rparr>"
  have "(ue_step False q)\<^sup>*\<^sup>* r ?r1" by (rule r_into_rtranclp, rule ue_register [OF t(1) s1(1)])
  also have "ue_step False q ?r1 ?r2" using ue_wake [of False q ?r1] by simp
  also have "ue_step False q ?r2 ?r3" by (rule ue_condition)
  also have "ue_step False q ?r3 ?r4" using ue_mark [of ?r3 t False q] by simp
  also have "ue_step False q ?r4 ?r5" by (rule ue_false) simp_all
  also have "ue_step False q ?r5 ?r6" by (rule ue_condition)
  finally have steps: "(ue_step False q)\<^sup>*\<^sup>* r ?r6" .
  have n2: "nodes_ok q ?s2" by (rule nodes_ok_wake [OF s1(2)])
  have "\<forall>t. let w = works (s1\<lparr>wait_queues := (wait_queues s1)(q := [])\<rparr>) (wn_on_complete (wait_nodes (s1\<lparr>wait_queues := (wait_queues s1)(q := [])\<rparr>) t))
      in work_type w = WORK_TASK \<and> work_task w = t" using s1(2) by (simp add: nodes_ok_def)
  then have e: "wait_queues ?s4 q = []" using wake_nodes_frame(1) by (simp add: wait_queue_wake_def)
  have "nodes_ok q ?s4" using n2 by (simp add: nodes_ok_sched)
  then have "t_state (tasks (ws_sched (fst (wait_queue_wake ?s4 q))) t) = TASK_SLEEPING" using e wake_queue_states [of q ?s4 t] by simp
  then show ?thesis using steps e by (intro exI [of _ ?r6]) simp
qed

theorem wait_event_unlocked_loses_wakeup_witness:
  "\<exists>r'. (ue_step False 7)\<^sup>*\<^sup>* \<lparr>ue_sys = example_wsys, ue_pc = (\<lambda>_. WTop), ue_cond = False\<rparr> r' \<and> ue_cond r' \<and> ue_pc r' 1 = WYield \<and>
     t_state (tasks (ws_sched (ue_sys r')) 1) = TASK_SLEEPING"
proof -
  let ?r = "\<lparr>ue_sys = example_wsys, ue_pc = (\<lambda>_. WTop), ue_cond = False\<rparr>"
  have "nodes_ok 7 (ue_sys ?r)" "wait_queues (ue_sys ?r) 7 = []" "ue_pc ?r 1 = WTop" "t_state (tasks (ws_sched (ue_sys ?r)) 1) = TASK_RUNNING"
    using example_wait_initial(2) by (simp_all add: example_wsys_def example_sched_def example_task_def)
  from wait_event_unlocked_loses_wakeup [OF this] show ?thesis by auto
qed

end
