(* ===== verification/Signals.thy ===== *)
theory Signals
  imports Sched UserMem Bitops
begin

text \<open>
  Signals: the system calls of \<^verbatim>\<open>src/kernel/sched/signal.c\<close> and the delivery in \<^verbatim>\<open>arch/x86/kernel/signal.c\<close>. The calls work on the
  current task; sending a signal is in \<^theory_text>\<open>Sched\<close>. Sets of signals are 32-bit words.
\<close>

section \<open>System calls\<close>

definition user_buffer_is_null :: "user_buffer \<Rightarrow> bool" where
  "user_buffer_is_null b \<longleftrightarrow> ub_ptr b = 0"

definition user_copy_u32_from_kernel :: "umem \<Rightarrow> user_buffer \<Rightarrow> u32 \<Rightarrow> umem \<times> unit kresult" where
  "user_copy_u32_from_kernel m buf v = user_memcpy_from_kernel m buf (bytes_of_u32 v)"

definition user_copy_u32_to_kernel :: "umem \<Rightarrow> user_buffer \<Rightarrow> u32 kresult" where
  "user_copy_u32_to_kernel m buf = (case user_memcpy_to_kernel m buf 4 of Inl e \<Rightarrow> Err e | Inr bs \<Rightarrow> Ok (u32_of_bytes bs))"

definition SIG_BLOCK :: int where "SIG_BLOCK = 0"
definition SIG_UNBLOCK :: int where "SIG_UNBLOCK = 1"
definition SIG_SETMASK :: int where "SIG_SETMASK = 2"

definition sys_sigprocmask :: "int \<Rightarrow> user_buffer \<Rightarrow> user_buffer \<Rightarrow> umem \<Rightarrow> task \<Rightarrow> umem \<times> task \<times> unit kresult" where
  "sys_sigprocmask how set_buf oldset m t =
     (case (if user_buffer_is_null oldset then (m, Ok ()) else user_copy_u32_from_kernel m oldset (t_blocked t)) of
        (m, Inl e) \<Rightarrow> (m, t, Err e)
      | (m, Inr _) \<Rightarrow>
          if user_buffer_is_null set_buf then (m, t, Ok ())
          else case user_copy_u32_to_kernel m set_buf of
                 Inl e \<Rightarrow> (m, t, Err e)
               | Inr tmp \<Rightarrow>
                   let tmp = tmp AND NOT SIG_UNBLOCKABLE
                   in if how = SIG_BLOCK then (m, t\<lparr>t_blocked := t_blocked t OR tmp\<rparr>, Ok ())
                      else if how = SIG_UNBLOCK then (m, t\<lparr>t_blocked := t_blocked t AND NOT tmp\<rparr>, Ok ())
                      else if how = SIG_SETMASK then (m, t\<lparr>t_blocked := tmp\<rparr>, Ok ())
                      else (m, t, Err EINVAL))"

definition sys_sigpending :: "user_buffer \<Rightarrow> umem \<Rightarrow> task \<Rightarrow> umem \<times> unit kresult" where
  "sys_sigpending set_buf m t = user_copy_u32_from_kernel m set_buf (t_pending t)"

definition bytes_of_sigaction :: "sigaction \<Rightarrow> u8 list" where
  "bytes_of_sigaction a = bytes_of_u32 (sa_handler a) @ bytes_of_u32 (sa_mask a) @ bytes_of_u32 (sa_flags a)"

definition sigaction_of_bytes :: "u8 list \<Rightarrow> sigaction" where
  "sigaction_of_bytes bs = \<lparr>sa_handler = u32_of_bytes (take 4 bs), sa_mask = u32_of_bytes (take 4 (drop 4 bs)), sa_flags = u32_of_bytes (drop 8 bs)\<rparr>"

definition sys_sigaction :: "int \<Rightarrow> user_buffer \<Rightarrow> user_buffer \<Rightarrow> umem \<Rightarrow> task \<Rightarrow> umem \<times> task \<times> unit kresult" where
  "sys_sigaction signum act oldact m t =
     (if signum < 1 \<or> signum > NSIG then (m, t, Err EINVAL)
      else let entry = nat (signum - 1)
           in case (if user_buffer_is_null oldact then (m, Ok ()) else user_memcpy_from_kernel m oldact (bytes_of_sigaction (t_actions t ! entry))) of
                (m, Inl e) \<Rightarrow> (m, t, Err e)
              | (m, Inr _) \<Rightarrow>
                  if user_buffer_is_null act then (m, t, Ok ())
                  else case user_memcpy_to_kernel m act 12 of
                         Inl e \<Rightarrow> (m, t, Err e)
                       | Inr bs \<Rightarrow>
                           let tmp = sigaction_of_bytes bs;
                               tmp = tmp\<lparr>sa_mask := sa_mask tmp OR SIG_BIT (nat signum)\<rparr>;
                               tmp = tmp\<lparr>sa_mask := sa_mask tmp AND NOT SIG_UNBLOCKABLE\<rparr>
                           in (m, t\<lparr>t_actions := (t_actions t)[entry := tmp]\<rparr>, Ok ()))"

text \<open>The result is the old handler, or \<open>SIG_ERR\<close>.\<close>

definition SIG_ERR :: u32 where "SIG_ERR = -1"

definition sys_signal :: "int \<Rightarrow> u32 \<Rightarrow> task \<Rightarrow> task \<times> u32" where
  "sys_signal signum handler t =
     (if signum < 1 \<or> signum > NSIG then (t, SIG_ERR)
      else let entry = nat (signum - 1)
           in (t\<lparr>t_actions := (t_actions t)[entry := \<lparr>sa_handler = handler, sa_mask = 0, sa_flags = 0\<rparr>]\<rparr>, sa_handler (t_actions t ! entry)))"

definition sys_kill :: "sched \<Rightarrow> int \<Rightarrow> int \<Rightarrow> sched \<times> unit kresult" where
  "sys_kill s pid sig =
     (if sig = 0 then (s, scheduler_task_exists s pid)
      else if sig < 1 \<or> sig > NSIG then (s, Err EINVAL)
      else if pid > 0 \<or> pid < -1 then scheduler_task_send_signal s pid sig False
      else (s, Err EINVAL))"

text \<open>
  \<^verbatim>\<open>sys_sigwait\<close> reads its set; then one round of the sleeping loop, \<^term>\<open>None\<close> while none of the signals is pending.
\<close>

definition sigwait_enter :: "user_buffer \<Rightarrow> umem \<Rightarrow> u32 kresult" where
  "sigwait_enter set_buf m = user_copy_u32_to_kernel m set_buf"

definition sigwait_round :: "u32 \<Rightarrow> user_buffer \<Rightarrow> umem \<Rightarrow> task \<Rightarrow> (umem \<times> task \<times> unit kresult) option" where
  "sigwait_round check sig m t =
     (let signals = t_pending t AND check
      in if signals = 0 then None
         else let test = bit32_find_first_set signals
              in Some (if test = -1 then (m, t, Err EINVAL)
                       else if test + 1 = int SIGKILL \<or> test + 1 = int SIGSTOP then (m, t, Err ERESTARTSYS)
                       else case user_copy_u32_from_kernel m sig (of_int (test + 1)) of
                              (m, Inl e) \<Rightarrow> (m, t, Err e)
                            | (m, Inr _) \<Rightarrow> (m, t\<lparr>t_pending := SIGSET_UNSET (t_pending t) (nat (test + 1))\<rparr>, Ok ())))"

section \<open>Delivery\<close>

text \<open>
  The saved registers in their order in memory: seven general registers, \<open>eax\<close>, six words with the segment registers and
  the interrupt number, and the part that the processor pushes.
\<close>

record irq_frame =
  f_low :: "u32 list"
  f_eax :: u32
  f_mid :: "u32 list"
  f_eip :: u32
  f_cs :: u32
  f_eflags :: u32
  f_esp :: u32
  f_ss :: u32

definition frame_words :: "irq_frame \<Rightarrow> u32 list" where
  "frame_words f = f_low f @ [f_eax f] @ f_mid f @ [f_eip f, f_cs f, f_eflags f, f_esp f, f_ss f]"

definition frame_of_words :: "u32 list \<Rightarrow> irq_frame" where
  "frame_of_words ws =
     \<lparr>f_low = take 7 ws, f_eax = ws ! 7, f_mid = take 6 (drop 8 ws), f_eip = ws ! 14, f_cs = ws ! 15, f_eflags = ws ! 16,
      f_esp = ws ! 17, f_ss = ws ! 18\<rparr>"

record signal_context =
  ctx_signum :: u32
  ctx_old_mask :: u32
  ctx_frame :: irq_frame

definition context_bytes :: "signal_context \<Rightarrow> u8 list" where
  "context_bytes c = concat (map bytes_of_u32 ([ctx_signum c, ctx_old_mask c] @ frame_words (ctx_frame c)))"

fun words_of_bytes :: "u8 list \<Rightarrow> u32 list" where
  "words_of_bytes (a # b # c # d # bs) = u32_of_bytes [a, b, c, d] # words_of_bytes bs"
| "words_of_bytes _ = []"

definition context_of_bytes :: "u8 list \<Rightarrow> signal_context" where
  "context_of_bytes bs = (let ws = words_of_bytes bs
     in \<lparr>ctx_signum = ws ! 0, ctx_old_mask = ws ! 1, ctx_frame = frame_of_words (drop 2 ws)\<rparr>)"

text \<open>The kernel reads and writes the user stack without the access check; a fault gives \<^term>\<open>None\<close>.\<close>

definition sys_sigreturn :: "umem \<Rightarrow> task \<Rightarrow> irq_frame \<Rightarrow> (task \<times> irq_frame) option" where
  "sys_sigreturn m t iframe =
     (case read_bytes m (f_esp iframe) 84 of
        None \<Rightarrow> None
      | Some bs \<Rightarrow>
          let context = context_of_bytes bs
          in Some (t\<lparr>t_blocked := ctx_old_mask context AND NOT SIG_UNBLOCKABLE\<rparr>, ctx_frame context))"

definition signal_syscall_restart :: "irq_frame \<Rightarrow> u32 \<Rightarrow> irq_frame" where
  "signal_syscall_restart iframe prev_syscall = iframe\<lparr>f_eax := prev_syscall, f_eip := f_eip iframe - 2\<rparr>"

text \<open>
  \<open>tramp\<close> is the trampoline code, which is placed above the context: the two instructions
  \<^verbatim>\<open>movl $SYSCALL_SIGRETURN, %eax\<close> and \<^verbatim>\<open>int $INT_SYSCALL\<close>.
\<close>

definition x86_trampoline_code :: "u8 list" where
  "x86_trampoline_code = [0xB8, 0x27, 0, 0, 0, 0xCD, 0x81]"

definition stack_store :: "umem \<Rightarrow> u32 \<Rightarrow> u8 list \<Rightarrow> umem option" where
  "stack_store m p bs = (case write_bytes m p bs of (m, ok) \<Rightarrow> if ok then Some m else None)"

definition signal_setup_stack ::
  "u8 list \<Rightarrow> umem \<Rightarrow> task \<Rightarrow> sigaction \<Rightarrow> nat \<Rightarrow> irq_frame \<Rightarrow> (umem \<times> irq_frame) option" where
  "signal_setup_stack tramp m t action signum iframe = do {
     let context = \<lparr>ctx_signum = of_nat signum, ctx_old_mask = t_blocked t, ctx_frame = iframe\<rparr>;
     let stack = ALIGN_2_DOWN (f_esp iframe) 4;
     let stack = stack - of_nat (length tramp);
     m \<leftarrow> stack_store m stack tramp;
     let signal_ret = stack;
     let stack = ALIGN_2_DOWN stack 4;
     let stack = stack - 84;
     m \<leftarrow> stack_store m stack (context_bytes context);
     let stack = stack - 4;
     m \<leftarrow> stack_store m stack (bytes_of_u32 signal_ret);
     Some (m, iframe\<lparr>f_esp := stack, f_eip := sa_handler action\<rparr>)
   }"

definition SIG_DFL :: u32 where "SIG_DFL = 0"
definition SIG_IGN :: u32 where "SIG_IGN = 1"
definition SA_RESTART :: u32 where "SA_RESTART = 0x10000000"
definition SA_ONESHOT :: u32 where "SA_ONESHOT = 0x80000000"

definition neg_errno :: "errno \<Rightarrow> u32" where
  "neg_errno e = - of_nat (errno_no e)"

text \<open>
  The beginning of \<^verbatim>\<open>signal_jump\<close>: a system call that the signal interrupted is restarted, or fails with \<open>EINTR\<close>.
\<close>

definition signal_jump_frame :: "u32 \<Rightarrow> sigaction \<Rightarrow> irq_frame \<Rightarrow> irq_frame" where
  "signal_jump_frame prev_syscall action iframe =
     (if prev_syscall \<noteq> 0
      then if f_eax iframe = neg_errno ERESTARTSYS
           then if sa_flags action AND SA_RESTART \<noteq> 0 then signal_syscall_restart iframe prev_syscall
                else iframe\<lparr>f_eax := neg_errno EINTR\<rparr>
           else if f_eax iframe = neg_errno ERESTARTNOINTR then signal_syscall_restart iframe prev_syscall
           else if f_eax iframe = neg_errno ERESTARTNOHAND then iframe\<lparr>f_eax := neg_errno EINTR\<rparr>
           else iframe
      else iframe)"

definition signal_jump ::
  "u8 list \<Rightarrow> u32 \<Rightarrow> umem \<Rightarrow> task \<Rightarrow> nat \<Rightarrow> irq_frame \<Rightarrow> (umem \<times> task \<times> irq_frame) option" where
  "signal_jump tramp prev_syscall m t signum iframe = do {
     let action = t_actions t ! (signum - 1);
     let iframe = signal_jump_frame prev_syscall action iframe;
     (m, iframe) \<leftarrow> signal_setup_stack tramp m t action signum iframe;
     let t = (if sa_flags action AND SA_ONESHOT \<noteq> 0
              then t\<lparr>t_actions := (t_actions t)[signum - 1 := action\<lparr>sa_handler := SIG_DFL\<rparr>]\<rparr> else t);
     Some (m, t\<lparr>t_blocked := t_blocked t OR sa_mask action\<rparr>, iframe)
   }"

section \<open>Handling pending signals\<close>

text \<open>
  \<^verbatim>\<open>signal_default\<close> may stop the task, wakes its parent then, and may end it. \<^verbatim>\<open>TASK_SIGNAL_STOP\<close> is 0x100.
\<close>

datatype default_action = DIgnored | DStopped | DExits

definition signal_default :: "sched \<Rightarrow> nat \<Rightarrow> nat \<Rightarrow> sched \<times> default_action" where
  "signal_default s cur signum =
     (if t_pid (tasks s cur) = 1 then (s, DIgnored)
      else if signum = SIGCHLD \<or> signum = SIGCONT \<or> signum = SIGWINCH then (s, DIgnored)
      else if signum = SIGSTOP \<or> signum = SIGTSTP \<or> signum = SIGTTIN \<or> signum = SIGTTOU
           then let s = task_upd s cur (\<lambda>k. k\<lparr>t_ret_signal := int (0x100 OR signum), t_state := TASK_STOPPED\<rparr>)
                in (case t_parent (tasks s cur) of Some p \<Rightarrow> scheduler_task_wake s p | None \<Rightarrow> s, DStopped)
      else (task_upd s cur (\<lambda>k. k\<lparr>t_ret_signal := int signum\<rparr>), DExits))"

text \<open>
  One round of the loop of \<^verbatim>\<open>signal_handle\<close>. Two calls lead out of this file and come back: the
  children are reaped (\<open>Reap\<close>), and the stopped task yields (\<open>Stopped\<close>).
\<close>

datatype signal_event = Reap | Continue | Stopped

datatype signal_outcome = Handler nat | Exits nat | NoHandler | Fault nat

datatype signal_round = Again signal_event | Return signal_outcome

definition signal_handle_round ::
  "u8 list \<Rightarrow> u32 \<Rightarrow> nat \<Rightarrow> umem \<times> sched \<times> irq_frame \<Rightarrow> (umem \<times> sched \<times> irq_frame) \<times> signal_round" where
  "signal_handle_round tramp prev_syscall cur = (\<lambda>(m, s, iframe).
     let t = tasks s cur
     in if t_pending t AND NOT (t_blocked t) \<noteq> 0
        then let signum = nat (bit32_find_first_set (t_pending t AND NOT (t_blocked t)) + 1);
                 action = t_actions t ! (signum - 1);
                 s = task_upd s cur (\<lambda>k. k\<lparr>t_pending := SIGSET_UNSET (t_pending k) signum\<rparr>)
             in if sa_handler action = SIG_IGN then ((m, s, iframe), Again (if signum = SIGCHLD then Reap else Continue))
                else if sa_handler action = SIG_DFL
                     then case signal_default s cur signum of
                            (s, DExits) \<Rightarrow> ((m, s, iframe), Return (Exits signum))
                          | (s, DStopped) \<Rightarrow> ((m, s, iframe), Again Stopped)
                          | (s, DIgnored) \<Rightarrow> ((m, s, iframe), Again Continue)
                else case signal_jump tramp prev_syscall m (tasks s cur) signum iframe of
                       Some (m, t, iframe) \<Rightarrow> ((m, task_upd s cur (\<lambda>_. t), iframe), Return (Handler signum))
                     | None \<Rightarrow> ((m, s, iframe), Return (Fault signum))
        else let iframe =
               (if prev_syscall \<noteq> 0 \<and> f_eax iframe \<in> {neg_errno ERESTARTSYS, neg_errno ERESTARTNOINTR, neg_errno ERESTARTNOHAND}
                then signal_syscall_restart iframe prev_syscall else iframe)
             in ((m, s, iframe), Return NoHandler))"

text \<open>
  The loop; \<open>env\<close> is what the rest of the system does to the scheduler's state at the calls that come back. The C function
  returns 1 for \<open>Handler\<close> and 0 for \<open>NoHandler\<close>.
\<close>

partial_function (option) signal_handle ::
  "(signal_event \<Rightarrow> sched \<Rightarrow> sched) \<Rightarrow> u8 list \<Rightarrow> u32 \<Rightarrow> nat \<Rightarrow> umem \<times> sched \<times> irq_frame
   \<Rightarrow> ((umem \<times> sched \<times> irq_frame) \<times> signal_outcome) option" where
  "signal_handle env tramp prev_syscall cur st =
     (case signal_handle_round tramp prev_syscall cur st of
        (st, Return r) \<Rightarrow> Some (st, r)
      | ((m, s, iframe), Again e) \<Rightarrow> signal_handle env tramp prev_syscall cur (m, if e = Continue then s else env e s, iframe))"

text \<open>
  \<^verbatim>\<open>sys_sigsuspend\<close>: the mask is replaced; each time the task runs, it handles its pending signals; when a handler was set up,
  the old mask is put back. \<^term>\<open>None\<close> in the round: the task sleeps again.
\<close>

definition sigsuspend_enter :: "user_buffer \<Rightarrow> umem \<Rightarrow> task \<Rightarrow> irq_frame \<Rightarrow> (task \<times> irq_frame \<times> u32) kresult" where
  "sigsuspend_enter umask m t iframe =
     (case user_copy_u32_to_kernel m umask of
        Inl e \<Rightarrow> Err e
      | Inr msk \<Rightarrow> Ok (t\<lparr>t_blocked := msk AND NOT SIG_UNBLOCKABLE\<rparr>, iframe\<lparr>f_eax := neg_errno EINTR\<rparr>, t_blocked t))"

definition sigsuspend_leave :: "u32 \<Rightarrow> task \<Rightarrow> task" where
  "sigsuspend_leave tempmask t = t\<lparr>t_blocked := tempmask\<rparr>"

definition sigsuspend_round ::
  "(signal_event \<Rightarrow> sched \<Rightarrow> sched) \<Rightarrow> u8 list \<Rightarrow> u32 \<Rightarrow> nat \<Rightarrow> u32 \<Rightarrow> umem \<times> sched \<times> irq_frame
   \<Rightarrow> ((umem \<times> sched \<times> irq_frame) \<times> bool) option" where
  "sigsuspend_round env tramp prev_syscall cur tempmask st =
     (if \<not> has_pending_signal (tasks (fst (snd st)) cur) then Some (st, False)
      else case signal_handle env tramp prev_syscall cur st of
             Some ((m, s, iframe), Handler n) \<Rightarrow> Some ((m, task_upd s cur (sigsuspend_leave tempmask), iframe), True)
           | Some (st, NoHandler) \<Rightarrow> Some (st, False)
           | _ \<Rightarrow> None)"

end
