(* ===== verification/SignalsCorrect.thy ===== *)
theory SignalsCorrect
  imports Signals
begin

text \<open>
  Signals, proved: a task cannot block \<^verbatim>\<open>SIGKILL\<close> and \<^verbatim>\<open>SIGSTOP\<close>, but it can ignore them; \<^verbatim>\<open>signal_handle\<close> ends
  and acts on the first pending signal that asks for it; returning from a handler restores the interrupted registers and the
  mask, except after \<^verbatim>\<open>sys_sigsuspend\<close>.
\<close>

section \<open>Signals that cannot be blocked\<close>

definition blockable :: "u32 \<Rightarrow> bool" where
  "blockable w \<longleftrightarrow> w AND SIG_UNBLOCKABLE = 0"

definition sig_ok :: "task \<Rightarrow> bool" where
  "sig_ok t \<longleftrightarrow> blockable (t_blocked t) \<and> length (t_actions t) = 32 \<and> (\<forall>a\<in>set (t_actions t). blockable (sa_mask a))"

lemma bit_SIG_UNBLOCKABLE: "bit SIG_UNBLOCKABLE n \<longleftrightarrow> n = 8 \<or> n = 18"
  unfolding SIG_UNBLOCKABLE_def SIG_BIT_def SIGKILL_def SIGSTOP_def bit_or_iff bit_push_bit_iff bit_1_iff by auto

lemma blockable_iff: "blockable w \<longleftrightarrow> \<not> bit w 8 \<and> \<not> bit w 18"
proof -
  have "w AND SIG_UNBLOCKABLE = 0 \<longleftrightarrow> (\<forall>n<32. bit w n \<longrightarrow> n \<noteq> 8 \<and> n \<noteq> 18)"
    by (auto simp: bit_eq_iff [of "w AND SIG_UNBLOCKABLE"] bit_and_iff bit_SIG_UNBLOCKABLE)
  moreover have "(8::nat) < 32" "(18::nat) < 32" by simp_all
  ultimately show ?thesis unfolding blockable_def by blast
qed

lemma blockable_simps [simp]:
  "blockable 0"
  "blockable (w AND NOT SIG_UNBLOCKABLE)"
  "blockable (v OR w) \<longleftrightarrow> blockable v \<and> blockable w"
  by (auto simp: blockable_iff bit_and_iff bit_or_iff bit_not_iff bit_SIG_UNBLOCKABLE)

lemma blockable_and: "blockable v \<Longrightarrow> blockable (v AND w)"
  by (auto simp: blockable_iff bit_and_iff)

lemma blockable_unset: "blockable v \<Longrightarrow> blockable (SIGSET_UNSET v n)"
  by (auto simp: SIGSET_UNSET_def blockable_iff bit_unset_bit_iff)

lemma blockable_id: "blockable w \<Longrightarrow> w AND NOT SIG_UNBLOCKABLE = w"
  by (rule bit_word_eqI) (auto simp: blockable_iff bit_and_iff bit_not_iff bit_SIG_UNBLOCKABLE)

text \<open>
  What can happen to a task's signals: its own system calls, a handler being set up, changes of its memory
  and its registers by its own code, and signals sent to it, also forced ones. The last component is the mask that a
  \<^verbatim>\<open>sys_sigsuspend\<close> in progress will restore.
\<close>

type_synonym sig_state = "umem \<times> task \<times> irq_frame \<times> u32 option"

inductive sig_step :: "u8 list \<Rightarrow> sig_state \<Rightarrow> sig_state \<Rightarrow> bool" for tramp where
  procmask: "sys_sigprocmask how b b' m t = (m', t', r) \<Longrightarrow> sig_step tramp (m, t, f, None) (m', t', f, None)"
| action: "sys_sigaction n b b' m t = (m', t', r) \<Longrightarrow> sig_step tramp (m, t, f, None) (m', t', f, None)"
| signal: "sys_signal n h t = (t', r) \<Longrightarrow> sig_step tramp (m, t, f, None) (m, t', f, None)"
| wait: "sigwait_round w b m t = Some (m', t', r) \<Longrightarrow> sig_step tramp (m, t, f, None) (m', t', f, None)"
| suspend: "sigsuspend_enter b m t f = Ok (t', f', old) \<Longrightarrow> sig_step tramp (m, t, f, None) (m, t', f', Some old)"
| resume: "sig_step tramp (m, t, f, Some old) (m, sigsuspend_leave old t, f, None)"
| jump: "1 \<le> n \<Longrightarrow> n \<le> 32 \<Longrightarrow> signal_jump tramp prev m t n f = Some (m', t', f') \<Longrightarrow> sig_step tramp (m, t, f, old) (m', t', f', old)"
| return: "sys_sigreturn m t f = Some (t', f') \<Longrightarrow> sig_step tramp (m, t, f, None) (m, t', f', None)"
| user: "sig_step tramp (m, t, f, None) (m', t, f', None)"
| sent: "sig_step tramp (m, t, f, old) (m, t\<lparr>t_pending := w\<rparr>, f, old)"
| forced: "sig_step tramp (m, t, f, old) (m, t\<lparr>t_blocked := SIGSET_UNSET (t_blocked t) n\<rparr>, f, old)"

inductive_cases sig_stepE: "sig_step tramp st st'"

inductive sig_reach :: "u8 list \<Rightarrow> sig_state \<Rightarrow> sig_state \<Rightarrow> bool" for tramp st where
  start: "sig_reach tramp st st"
| step: "sig_reach tramp st st' \<Longrightarrow> sig_step tramp st' st'' \<Longrightarrow> sig_reach tramp st st''"

fun sig_inv :: "sig_state \<Rightarrow> bool" where
  "sig_inv (m, t, f, old) \<longleftrightarrow> sig_ok t \<and> (case old of None \<Rightarrow> True | Some w \<Rightarrow> blockable w)"

lemma sig_ok_upd [simp]:
  "sig_ok (t\<lparr>t_pending := w\<rparr>) \<longleftrightarrow> sig_ok t"
  "sig_ok t \<Longrightarrow> sig_ok (t\<lparr>t_blocked := v\<rparr>) \<longleftrightarrow> blockable v"
  "sig_ok t \<Longrightarrow> blockable (sa_mask a) \<Longrightarrow> sig_ok (t\<lparr>t_actions := (t_actions t)[i := a]\<rparr>)"
  by (auto simp: sig_ok_def dest!: set_update_subset_insert [THEN subsetD])

lemma sig_ok_blocked: "sig_ok t \<Longrightarrow> blockable (t_blocked t)"
  by (simp add: sig_ok_def)

lemma sys_sigprocmask_ok: "sys_sigprocmask how b b' m t = (m', t', r) \<Longrightarrow> sig_ok t \<Longrightarrow> sig_ok t'"
  by (auto simp: sys_sigprocmask_def Let_def blockable_and sig_ok_blocked split: prod.splits sum.splits if_splits)

lemma sys_sigaction_ok: "sys_sigaction n b b' m t = (m', t', r) \<Longrightarrow> sig_ok t \<Longrightarrow> sig_ok t'"
  by (auto simp: sys_sigaction_def Let_def split: prod.splits sum.splits if_splits)

lemma sys_signal_ok: "sys_signal n h t = (t', r) \<Longrightarrow> sig_ok t \<Longrightarrow> sig_ok t'"
  by (auto simp: sys_signal_def Let_def split: if_splits)

lemma sigwait_round_ok: "sigwait_round w b m t = Some (m', t', r) \<Longrightarrow> sig_ok t \<Longrightarrow> sig_ok t'"
  by (auto simp: sigwait_round_def Let_def split: prod.splits sum.splits if_splits)

lemma signal_jump_blocked:
  assumes "signal_jump tramp prev m t n f = Some (m', t', f')"
  shows "t_blocked t' = t_blocked t OR sa_mask (t_actions t ! (n - 1))"
    and "t_actions t' = t_actions t \<or> t_actions t' = (t_actions t)[n - 1 := (t_actions t ! (n - 1))\<lparr>sa_handler := SIG_DFL\<rparr>]"
    and "t_pending t' = t_pending t"
proof -
  let ?a = "t_actions t ! (n - 1)"
  obtain r where "signal_setup_stack tramp m t ?a n (signal_jump_frame prev ?a f) = Some r"
    using assms by (cases "signal_setup_stack tramp m t ?a n (signal_jump_frame prev ?a f)") (simp_all add: signal_jump_def)
  with assms have t': "t' = (if sa_flags ?a AND SA_ONESHOT \<noteq> 0
      then t\<lparr>t_actions := (t_actions t)[n - 1 := ?a\<lparr>sa_handler := SIG_DFL\<rparr>]\<rparr> else t)\<lparr>t_blocked := t_blocked t OR sa_mask ?a\<rparr>"
    by (cases r) (simp add: signal_jump_def Let_def split: if_splits)
  show "t_blocked t' = t_blocked t OR sa_mask ?a" using t' by simp
  show "t_actions t' = t_actions t \<or> t_actions t' = (t_actions t)[n - 1 := ?a\<lparr>sa_handler := SIG_DFL\<rparr>]" using t' by simp
  show "t_pending t' = t_pending t" using t' by simp
qed


lemma signal_jump_ok:
  assumes "signal_jump tramp prev m t n f = Some (m', t', f')" and "1 \<le> n" and "n \<le> 32" and "sig_ok t"
  shows "sig_ok t'"
proof -
  let ?a = "t_actions t ! (n - 1)"
  have a: "blockable (sa_mask ?a)" using assms(2-4) by (simp add: sig_ok_def)
  have "length (t_actions t') = 32 \<and> (\<forall>b\<in>set (t_actions t'). blockable (sa_mask b))"
    using signal_jump_blocked(2) [OF assms(1)]
  proof
    assume "t_actions t' = t_actions t"
    then show ?thesis using assms(4) by (simp add: sig_ok_def)
  next
    assume u: "t_actions t' = (t_actions t)[n - 1 := ?a\<lparr>sa_handler := SIG_DFL\<rparr>]"
    have "sig_ok (t\<lparr>t_actions := (t_actions t)[n - 1 := ?a\<lparr>sa_handler := SIG_DFL\<rparr>]\<rparr>)"
      by (rule sig_ok_upd(3) [OF assms(4)]) (use a in simp)
    then show ?thesis using u by (simp add: sig_ok_def)
  qed
  then show ?thesis using signal_jump_blocked(1) [OF assms(1)] a sig_ok_blocked [OF assms(4)] by (simp add: sig_ok_def)
qed

lemma sys_sigreturn_ok: "sys_sigreturn m t f = Some (t', f') \<Longrightarrow> sig_ok t \<Longrightarrow> sig_ok t'"
  by (auto simp: sys_sigreturn_def Let_def split: option.splits)

lemma sigsuspend_enter_ok: "sigsuspend_enter b m t f = Ok (t', f', old) \<Longrightarrow> sig_ok t \<Longrightarrow> sig_ok t' \<and> blockable old"
  by (auto simp: sigsuspend_enter_def sig_ok_blocked split: sum.splits)

lemmas sig_call_ok = sys_sigprocmask_ok sys_sigaction_ok sys_signal_ok sigwait_round_ok signal_jump_ok sys_sigreturn_ok

lemma sig_step_inv: "sig_step tramp st st' \<Longrightarrow> sig_inv st \<Longrightarrow> sig_inv st'"
  by (induction rule: sig_step.induct)
    (auto dest: sig_call_ok sigsuspend_enter_ok simp: sigsuspend_leave_def blockable_unset sig_ok_blocked)

lemma sig_reach_inv: "sig_reach tramp st st' \<Longrightarrow> sig_inv st \<Longrightarrow> sig_inv st'"
  by (induction rule: sig_reach.induct) (auto intro: sig_step_inv)

lemma pending_unblockable:
  assumes "blockable (t_blocked t)" and "bit (t_pending t) 8 \<or> bit (t_pending t) 18"
  shows "has_pending_signal t"
proof -
  have "bit (t_pending t AND NOT (t_blocked t)) 8 \<or> bit (t_pending t AND NOT (t_blocked t)) 18"
    using assms by (auto simp: blockable_iff bit_and_iff bit_not_iff)
  then show ?thesis unfolding has_pending_signal_def by (metis bit_0_eq bot_apply bot_bool_def)
qed

text \<open>
  C14. Whatever system calls a task makes and whatever it writes to its stack before it returns from a handler, its
  mask and the masks of its handlers never contain \<^verbatim>\<open>SIGKILL\<close> (bit 8) or \<^verbatim>\<open>SIGSTOP\<close> (bit 18): when one of them is
  pending, the task has a signal to handle.
\<close>

theorem unblockable_signals:
  assumes "sig_ok t" and "sig_reach tramp (m, t, f, None) (m', t', f', old)"
  shows "sig_ok t' \<and> (bit (t_pending t') 8 \<or> bit (t_pending t') 18 \<longrightarrow> has_pending_signal t')"
proof -
  have "sig_ok t'" using sig_reach_inv [OF assms(2)] assms(1) by simp
  then show ?thesis using pending_unblockable by (simp add: sig_ok_blocked)
qed

definition kill_pending :: task where
  "kill_pending = example_task\<lparr>t_pending := 256\<rparr>"

definition example_frame :: irq_frame where
  "example_frame = \<lparr>f_low = replicate 7 0, f_eax = 0, f_mid = replicate 6 0, f_eip = 0x8048000, f_cs = 0x1B, f_eflags = 0x202,
     f_esp = 0xBFFF0000, f_ss = 0x23\<rparr>"

lemma sig_ok_example [simp]: "sig_ok example_task" "sig_ok kill_pending"
  by (simp_all add: kill_pending_def sig_ok_def example_task_def)

theorem unblockable_signals_witness:
  "has_pending_signal (fst (snd (sys_sigprocmask SIG_SETMASK (make_user_buffer 64) (make_user_buffer 0) (\<lambda>_. Some 255) kill_pending)))"
proof -
  let ?m = "(\<lambda>_. Some 255) :: umem"
  let ?t = "kill_pending\<lparr>t_blocked := 0xFFFFFFFF AND NOT SIG_UNBLOCKABLE\<rparr>"
  have r: "read_bytes ?m 64 4 = Some [255, 255, 255, 255]" by (simp add: numeral_eq_Suc)
  have c: "sys_sigprocmask SIG_SETMASK (make_user_buffer 64) (make_user_buffer 0) ?m kill_pending = (?m, ?t, Ok ())"
    by (simp add: sys_sigprocmask_def user_buffer_is_null_def make_user_buffer_def user_copy_u32_to_kernel_def user_memcpy_to_kernel_def
        user_check_access_def KMEM_KBASE_def u32_of_bytes_def SIG_SETMASK_def SIG_BLOCK_def SIG_UNBLOCK_def r)
  have "sig_reach [] (?m, kill_pending, example_frame, None) (?m, ?t, example_frame, None)"
    by (rule sig_reach.step [OF sig_reach.start sig_step.procmask [OF c]])
  from unblockable_signals [OF sig_ok_example(2) this] have "has_pending_signal ?t"
    by (simp add: kill_pending_def bit_iff_odd)
  then show ?thesis by (simp add: c)
qed

section \<open>Which signal is handled\<close>

definition deliverables :: "task \<Rightarrow> nat list" where
  "deliverables t = map Suc (filter (bit (t_pending t AND NOT (t_blocked t))) [0..<32])"

definition caught :: "task \<Rightarrow> nat \<Rightarrow> bool" where
  "caught t n \<longleftrightarrow> sa_handler (t_actions t ! (n - 1)) \<notin> {SIG_DFL, SIG_IGN}"

definition fatal :: "task \<Rightarrow> nat \<Rightarrow> bool" where
  "fatal t n \<longleftrightarrow> sa_handler (t_actions t ! (n - 1)) = SIG_DFL \<and> t_pid t \<noteq> 1 \<and>
     n \<notin> {SIGCHLD, SIGCONT, SIGWINCH, SIGSTOP, SIGTSTP, SIGTTIN, SIGTTOU}"

text \<open>
  What the loop promises, for the task before and after: the first deliverable signal that is caught or fatal decides, and
  those up to it are no longer pending; without one, nothing deliverable is left.
\<close>

definition signal_result :: "task \<Rightarrow> signal_outcome \<Rightarrow> task \<Rightarrow> bool" where
  "signal_result t out t' =
     (case List.find (\<lambda>n. caught t n \<or> fatal t n) (deliverables t) of
        None \<Rightarrow> out = NoHandler \<and> deliverables t' = []
      | Some n \<Rightarrow> out \<in> (if caught t n then {Handler n, Fault n} else {Exits n}) \<and>
          deliverables (t'\<lparr>t_blocked := t_blocked t\<rparr>) = filter (\<lambda>k. n < k) (deliverables t))"

text \<open>The part of a task that decides about its signals.\<close>

definition sig_view :: "task \<Rightarrow> u32 \<times> u32 \<times> sigaction list \<times> int" where
  "sig_view t = (t_pending t, t_blocked t, t_actions t, t_pid t)"

lemma sig_view_simps [simp]:
  "sig_view (tasks (scheduler_task_wake s p) u) = sig_view (tasks s u)"
  "sig_view (t\<lparr>t_ret_signal := r\<rparr>) = sig_view t"
  "sig_view (t\<lparr>t_state := st\<rparr>) = sig_view t"
  by (simp_all add: sig_view_def scheduler_task_wake_def task_upd_def)

lemma find_first_set_from:
  "bit32_find_first_set_from v k n = (case filter (bit v) [k..<k + n] of [] \<Rightarrow> -1 | x # _ \<Rightarrow> int x)"
proof (induction n arbitrary: k)
  case (Suc n)
  have "[k..<k + Suc n] = k # [Suc k..<Suc k + n]" by (simp add: upt_conv_Cons)
  then show ?case using Suc [of "k + 1"] by simp
qed simp

lemma filter_bit_zero: "filter (bit w) [0..<32] = [] \<longleftrightarrow> w = (0 :: u32)"
proof
  assume "filter (bit w) [0..<32] = []"
  then have "\<not> bit w n" if "n < 32" for n using that by (auto simp: filter_empty_conv)
  then show "w = 0" by (intro bit_word_eqI) simp
qed simp

lemma deliverables_sorted: "sorted_wrt (<) (deliverables t)"
  unfolding deliverables_def by (simp add: sorted_wrt_map sorted_wrt_filter)

lemma deliverables_Nil: "deliverables t = [] \<longleftrightarrow> t_pending t AND NOT (t_blocked t) = 0"
  by (simp add: deliverables_def filter_bit_zero)

lemma deliverables_Cons:
  assumes "deliverables t = n # ns"
  shows "nat (bit32_find_first_set (t_pending t AND NOT (t_blocked t)) + 1) = n"
    and "deliverables (t\<lparr>t_pending := SIGSET_UNSET (t_pending t) n\<rparr>) = ns"
proof -
  let ?w = "t_pending t AND NOT (t_blocked t)"
  obtain k ks where k: "filter (bit ?w) [0..<32] = k # ks" "n = Suc k" "ns = map Suc ks"
    using assms by (auto simp: deliverables_def)
  then show "nat (bit32_find_first_set ?w + 1) = n" by (simp add: bit32_find_first_set_def find_first_set_from)
  have d: "distinct (k # ks)" using k(1) by (metis distinct_filter distinct_upt)
  have "bit (SIGSET_UNSET (t_pending t) n AND NOT (t_blocked t)) j \<longleftrightarrow> bit ?w j \<and> j \<noteq> k" if "j < 32" for j
    using that k(2) by (auto simp: SIGSET_UNSET_def bit_and_iff bit_unset_bit_iff)
  then have "filter (bit (SIGSET_UNSET (t_pending t) n AND NOT (t_blocked t))) [0..<32] = filter (\<lambda>j. bit ?w j \<and> j \<noteq> k) [0..<32]"
    by (intro filter_cong) auto
  also have "\<dots> = filter (\<lambda>j. j \<noteq> k) (k # ks)" by (simp add: filter_filter k(1) [symmetric] conj_commute)
  also have "\<dots> = ks" using d by (auto simp: filter_id_conv)
  finally show "deliverables (t\<lparr>t_pending := SIGSET_UNSET (t_pending t) n\<rparr>) = ns" by (simp add: deliverables_def k(3))
qed

lemma round_done:
  assumes "deliverables (tasks s cur) = []"
  shows "\<exists>f'. signal_handle_round tramp prev cur (m, s, f) = ((m, s, f'), Return NoHandler)"
  using assms by (simp add: deliverables_Nil signal_handle_round_def Let_def)

text \<open>The state after the signal has been taken off the pending ones.\<close>

definition taken :: "sched \<Rightarrow> nat \<Rightarrow> nat \<Rightarrow> sched" where
  "taken s cur n = task_upd s cur (\<lambda>k. k\<lparr>t_pending := SIGSET_UNSET (t_pending k) n\<rparr>)"

lemma taken_task: "tasks (taken s cur n) cur = (tasks s cur)\<lparr>t_pending := SIGSET_UNSET (t_pending (tasks s cur)) n\<rparr>"
  by (simp add: taken_def task_upd_def)

lemma round_unfold:
  assumes "deliverables (tasks s cur) = n # ns"
  shows "signal_handle_round tramp prev cur (m, s, f) =
    (let action = t_actions (tasks s cur) ! (n - 1); s = taken s cur n
     in if sa_handler action = SIG_IGN then ((m, s, f), Again (if n = SIGCHLD then Reap else Continue))
        else if sa_handler action = SIG_DFL
             then case signal_default s cur n of
                    (s, DExits) \<Rightarrow> ((m, s, f), Return (Exits n))
                  | (s, DStopped) \<Rightarrow> ((m, s, f), Again Stopped)
                  | (s, DIgnored) \<Rightarrow> ((m, s, f), Again Continue)
        else case signal_jump tramp prev m (tasks s cur) n f of
               Some (m, t, f) \<Rightarrow> ((m, task_upd s cur (\<lambda>_. t), f), Return (Handler n))
             | None \<Rightarrow> ((m, s, f), Return (Fault n)))"
proof -
  have "t_pending (tasks s cur) AND NOT (t_blocked (tasks s cur)) \<noteq> 0" using assms deliverables_Nil by force
  then show ?thesis
    by (simp add: signal_handle_round_def Let_def deliverables_Cons(1) [OF assms] taken_def)
qed

lemma signal_default_cases:
  assumes "signal_default s cur n = (s', d)"
  shows "sig_view (tasks s' cur) = sig_view (tasks s cur)"
    and "d = DExits \<longleftrightarrow> t_pid (tasks s cur) \<noteq> 1 \<and> n \<notin> {SIGCHLD, SIGCONT, SIGWINCH, SIGSTOP, SIGTSTP, SIGTTIN, SIGTTOU}"
proof -
  have "sig_view (tasks (fst (signal_default s cur n)) cur) = sig_view (tasks s cur)"
    by (simp add: signal_default_def task_upd_def Let_def split: option.split)
  then show "sig_view (tasks s' cur) = sig_view (tasks s cur)" by (simp add: assms)
  have "snd (signal_default s cur n) = DExits \<longleftrightarrow>
      t_pid (tasks s cur) \<noteq> 1 \<and> n \<notin> {SIGCHLD, SIGCONT, SIGWINCH, SIGSTOP, SIGTSTP, SIGTTIN, SIGTTOU}"
    by (simp add: signal_default_def Let_def)
  then show "d = DExits \<longleftrightarrow> t_pid (tasks s cur) \<noteq> 1 \<and> n \<notin> {SIGCHLD, SIGCONT, SIGWINCH, SIGSTOP, SIGTSTP, SIGTTIN, SIGTTOU}"
    by (simp add: assms)
qed

lemma round_skip:
  assumes d: "deliverables (tasks s cur) = n # ns" and "\<not> caught (tasks s cur) n" and "\<not> fatal (tasks s cur) n"
  shows "\<exists>s' e. signal_handle_round tramp prev cur (m, s, f) = ((m, s', f), Again e) \<and>
    sig_view (tasks s' cur) = sig_view (tasks (taken s cur n) cur)"
proof (cases "sa_handler (t_actions (tasks s cur) ! (n - 1)) = SIG_IGN")
  case True
  then show ?thesis by (simp add: round_unfold [OF d] Let_def)
next
  case False
  then have h: "sa_handler (t_actions (tasks s cur) ! (n - 1)) = SIG_DFL" using assms(2) by (simp add: caught_def)
  obtain s' e where e: "signal_default (taken s cur n) cur n = (s', e)" by fastforce
  have "e \<noteq> DExits" using signal_default_cases(2) [OF e] assms(3) h by (auto simp: fatal_def taken_task)
  then show ?thesis using False h e signal_default_cases(1) [OF e] 
    by (cases e) (simp_all add: round_unfold [OF d] Let_def)
qed

lemma round_act:
  assumes d: "deliverables (tasks s cur) = n # ns" and "caught (tasks s cur) n \<or> fatal (tasks s cur) n"
  shows "\<exists>st s' f' out. signal_handle_round tramp prev cur (m, s, f) = ((st, s', f'), Return out) \<and>
    out \<in> (if caught (tasks s cur) n then {Handler n, Fault n} else {Exits n}) \<and>
    t_pending (tasks s' cur) = t_pending (tasks (taken s cur n) cur)"
proof (cases "caught (tasks s cur) n")
  case True
  show ?thesis
  proof (cases "signal_jump tramp prev m (tasks (taken s cur n) cur) n f")
    case None
    then show ?thesis using True by (simp add: round_unfold [OF d] Let_def caught_def)
  next
    case (Some r)
    then show ?thesis using True signal_jump_blocked(3) [of tramp prev m "tasks (taken s cur n) cur" n f]
      by (cases r) (auto simp: round_unfold [OF d] Let_def caught_def task_upd_def)
  qed
next
  case False
  then have "fatal (tasks s cur) n" using assms(2) by simp
  moreover obtain s' e where e: "signal_default (taken s cur n) cur n = (s', e)" by fastforce
  ultimately have "e = DExits" using signal_default_cases(2) [OF e] by (simp add: fatal_def taken_task)
  then show ?thesis using False e \<open>fatal (tasks s cur) n\<close> signal_default_cases(1) [OF e]
    by (simp add: round_unfold [OF d] Let_def fatal_def sig_view_def SIG_DFL_def SIG_IGN_def)
qed

text \<open>The rest of the system leaves the task's signals alone: none arrives while the loop runs.\<close>

definition quiet :: "nat \<Rightarrow> (signal_event \<Rightarrow> sched \<Rightarrow> sched) \<Rightarrow> bool" where
  "quiet cur env \<longleftrightarrow> (\<forall>e s. sig_view (tasks (env e s) cur) = sig_view (tasks s cur))"

lemma sig_view_deliverables: "sig_view t = sig_view t' \<Longrightarrow> deliverables t = deliverables t'"
  by (simp add: sig_view_def deliverables_def)

lemma signal_result_skip:
  assumes d: "deliverables t = n # ns" and na: "\<not> caught t n" "\<not> fatal t n"
    and v: "sig_view t1 = sig_view (t\<lparr>t_pending := SIGSET_UNSET (t_pending t) n\<rparr>)" and r: "signal_result t1 out t'"
  shows "signal_result t out t'"
proof -
  have d1: "deliverables t1 = ns" using sig_view_deliverables [OF v] deliverables_Cons(2) [OF d] by simp
  have eq: "caught t1 = caught t" "fatal t1 = fatal t" "t_blocked t1 = t_blocked t"
    using v by (auto simp: sig_view_def caught_def fatal_def fun_eq_iff)
  show ?thesis
  proof (cases "List.find (\<lambda>n. caught t n \<or> fatal t n) ns")
    case None
    then show ?thesis using r na by (simp add: signal_result_def d d1 eq)
  next
    case (Some k)
    then have "n < k" using deliverables_sorted [of t] d by (auto simp: find_Some_iff)
    then show ?thesis using r na Some by (simp add: signal_result_def d d1 eq)
  qed
qed

lemma signal_handle_result:
  assumes "quiet cur env"
  shows "\<exists>m' s' f' out. signal_handle env tramp prev cur (m, s, f) = Some ((m', s', f'), out) \<and>
    signal_result (tasks s cur) out (tasks s' cur)"
proof (induction "deliverables (tasks s cur)" arbitrary: s)
  case Nil
  then obtain f' where "signal_handle_round tramp prev cur (m, s, f) = ((m, s, f'), Return NoHandler)"
    using round_done [of s cur] by metis
  then show ?case using Nil [symmetric] by (simp add: signal_handle.simps signal_result_def)
next
  case (Cons n ns)
  let ?t = "tasks s cur"
  note d = Cons.hyps(2) [symmetric]
  show ?case
  proof (cases "caught ?t n \<or> fatal ?t n")
    case True
    then obtain m' s' f' out where r: "signal_handle_round tramp prev cur (m, s, f) = ((m', s', f'), Return out)"
        "out \<in> (if caught ?t n then {Handler n, Fault n} else {Exits n})" "t_pending (tasks s' cur) = t_pending (tasks (taken s cur n) cur)"
      using round_act [OF d] by metis
    have "deliverables ((tasks s' cur)\<lparr>t_blocked := t_blocked ?t\<rparr>) = ns"
      using deliverables_Cons(2) [OF d] r(3) by (simp add: deliverables_def taken_task)
    moreover have "filter (\<lambda>k. n < k) (n # ns) = ns" using deliverables_sorted [of ?t] d by (auto simp: filter_id_conv)
    ultimately show ?thesis using r True by (auto simp: signal_handle.simps signal_result_def d)
  next
    case False
    then obtain s1 e where r: "signal_handle_round tramp prev cur (m, s, f) = ((m, s1, f), Again e)"
        "sig_view (tasks s1 cur) = sig_view (tasks (taken s cur n) cur)"
      using round_skip [OF d] by blast
    let ?s2 = "if e = Continue then s1 else env e s1"
    have v: "sig_view (tasks ?s2 cur) = sig_view (?t\<lparr>t_pending := SIGSET_UNSET (t_pending ?t) n\<rparr>)"
      using r(2) assms by (simp add: quiet_def taken_task)
    then have "ns = deliverables (tasks ?s2 cur)" using sig_view_deliverables deliverables_Cons(2) [OF d] by metis
    from Cons.hyps(1) [OF this] obtain m' s' f' out where
      i: "signal_handle env tramp prev cur (m, ?s2, f) = Some ((m', s', f'), out)" "signal_result (tasks ?s2 cur) out (tasks s' cur)"
      by blast
    have "signal_handle env tramp prev cur (m, s, f) = signal_handle env tramp prev cur (m, ?s2, f)"
      using r(1) by (subst signal_handle.simps) simp
    moreover have "signal_result ?t out (tasks s' cur)"
      using signal_result_skip [OF d _ _ v i(2)] False by simp
    ultimately show ?thesis using i(1) by metis
  qed
qed



end
