(* ===== verification/SignalReturn.thy ===== *)
theory SignalReturn
  imports SignalsCorrect
begin

text \<open>
  The way into a handler and back: \<^verbatim>\<open>signal_jump\<close> followed by \<^verbatim>\<open>sys_sigreturn\<close>, the mask after \<^verbatim>\<open>sys_sigsuspend\<close>, and
  ignoring \<^verbatim>\<open>SIGKILL\<close>.
\<close>

section \<open>Bytes on the user stack\<close>

lemma read_bytes_eq:
  "(\<And>i. i < length bs \<Longrightarrow> m (p + of_nat i) = Some (bs ! i)) \<Longrightarrow> read_bytes m p (length bs) = Some bs"
proof (induction bs arbitrary: p)
  case (Cons b bs)
  have "m p = Some b" using Cons.prems [of 0] by simp
  moreover have "read_bytes m (p + 1) (length bs) = Some bs"
  proof (rule Cons.IH)
    fix i assume "i < length bs"
    then show "m (p + 1 + of_nat i) = Some (bs ! i)" using Cons.prems [of "Suc i"] by (simp add: ac_simps)
  qed
  ultimately show ?case by simp
qed simp

lemma read_bytes_cong:
  "(\<And>i. i < n \<Longrightarrow> m (p + of_nat i) = m' (p + of_nat i)) \<Longrightarrow> read_bytes m p n = read_bytes m' p n"
proof (induction n arbitrary: p)
  case (Suc n)
  have "m p = m' p" using Suc.prems [of 0] by simp
  moreover have "read_bytes m (p + 1) n = read_bytes m' (p + 1) n"
  proof (rule Suc.IH)
    fix i assume "i < n"
    then show "m (p + 1 + of_nat i) = m' (p + 1 + of_nat i)" using Suc.prems [of "Suc i"] by (simp add: ac_simps)
  qed
  ultimately show ?case by (simp split: option.split)
qed simp

lemma write_bytes_other:
  "write_bytes m p bs = (m', ok) \<Longrightarrow> (\<And>j. j < length bs \<Longrightarrow> a \<noteq> p + of_nat j) \<Longrightarrow> m' a = m a"
proof (induction bs arbitrary: m p)
  case (Cons b bs)
  show ?case
  proof (cases "m p")
    case (Some x)
    then have w: "write_bytes (m(p \<mapsto> b)) (p + 1) bs = (m', ok)" using Cons.prems(1) by simp
    have "m' a = (m(p \<mapsto> b)) a"
    proof (rule Cons.IH [OF w])
      fix j assume "j < length bs"
      then show "a \<noteq> p + 1 + of_nat j" using Cons.prems(2) [of "Suc j"] by (simp add: ac_simps)
    qed
    then show ?thesis using Cons.prems(2) [of 0] by simp
  qed (use Cons.prems in simp)
qed simp

lemma of_nat_neq: "0 < k \<Longrightarrow> k < 2 ^ 32 \<Longrightarrow> (of_nat k :: u32) \<noteq> 0"
  using unat_of_nat_u32 [of k] by force

lemma write_bytes_read:
  "write_bytes m p bs = (m', True) \<Longrightarrow> length bs < 2 ^ 32 \<Longrightarrow> i < length bs \<Longrightarrow> m' (p + of_nat i) = Some (bs ! i)"
proof (induction bs arbitrary: m p i)
  case (Cons b bs)
  then have w: "write_bytes (m(p \<mapsto> b)) (p + 1) bs = (m', True)" by (simp split: option.splits)
  show ?case
  proof (cases i)
    case 0
    have "m' p = (m(p \<mapsto> b)) p"
    proof (rule write_bytes_other [OF w])
      fix j assume "j < length bs"
      then have "(of_nat (Suc j) :: u32) \<noteq> 0" using Cons.prems(2) by (intro of_nat_neq) auto
      then show "p \<noteq> p + 1 + of_nat j" by (simp add: add.assoc)
    qed
    then show ?thesis by (simp add: 0)
  next
    case (Suc j)
    then show ?thesis using Cons.IH [OF w, of j] Cons.prems by (simp add: ac_simps)
  qed
qed simp

section \<open>The saved context\<close>

definition frame_ok :: "irq_frame \<Rightarrow> bool" where
  "frame_ok f \<longleftrightarrow> length (f_low f) = 7 \<and> length (f_mid f) = 6"

lemma words_of_bytes_concat [simp]: "words_of_bytes (concat (map bytes_of_u32 ws)) = ws"
proof (induction ws)
  case (Cons w ws)
  have "bytes_of_u32 w @ bs = map (\<lambda>i. ucast (drop_bit (8 * i) w)) [0, 1, 2, 3] @ bs" for bs by (simp add: bytes_of_u32_def)
  moreover have "u32_of_bytes (map (\<lambda>i. ucast (drop_bit (8 * i) w)) [0, 1, 2, 3]) = w"
    using u32_of_bytes_of_u32 [of w] by (simp only: bytes_of_u32_def)
  ultimately show ?case using Cons by simp
qed simp

lemma frame_of_words [simp]: "frame_ok f \<Longrightarrow> frame_of_words (frame_words f) = f"
  by (simp add: frame_of_words_def frame_words_def frame_ok_def nth_append)

lemma context_roundtrip: "frame_ok (ctx_frame c) \<Longrightarrow> context_of_bytes (context_bytes c) = c"
  by (simp add: context_of_bytes_def context_bytes_def del: map_append map_map list.map concat.simps)

lemma length_context_bytes: "frame_ok (ctx_frame c) \<Longrightarrow> length (context_bytes c) = 84"
  by (simp add: context_bytes_def frame_words_def frame_ok_def length_concat comp_def sum_list_triv)

section \<open>Return from a handler\<close>

lemma stack_store_cases: "stack_store m p bs = Some m' \<longleftrightarrow> write_bytes m p bs = (m', True)"
  by (auto simp: stack_store_def split: prod.splits)

text \<open>
  After the stack has been set up, the word at the new stack pointer is the return address and the context lies above
  it.
\<close>

lemma signal_setup_stack_context:
  assumes "signal_setup_stack tramp m t a n f = Some (m', f')" and "frame_ok f"
  shows "read_bytes m' (f_esp f' + 4) 84 = Some (context_bytes \<lparr>ctx_signum = of_nat n, ctx_old_mask = t_blocked t, ctx_frame = f\<rparr>)"
    and "f' = f\<lparr>f_esp := f_esp f', f_eip := sa_handler a\<rparr>"
proof -
  let ?c = "\<lparr>ctx_signum = of_nat n, ctx_old_mask = t_blocked t, ctx_frame = f\<rparr>"
  define sp where "sp = ALIGN_2_DOWN (ALIGN_2_DOWN (f_esp f) 4 - of_nat (length tramp)) 4 - 84"
  obtain m1 m2 ret where w: "write_bytes m1 sp (context_bytes ?c) = (m2, True)" "write_bytes m2 (sp - 4) (bytes_of_u32 ret) = (m', True)"
    and f': "f' = f\<lparr>f_esp := sp - 4, f_eip := sa_handler a\<rparr>"
    using assms(1) unfolding signal_setup_stack_def Let_def sp_def by (auto simp: stack_store_cases bind_eq_Some_conv)
  have len: "length (context_bytes ?c) = 84" using assms(2) by (intro length_context_bytes) simp
  have "read_bytes m' sp (length (context_bytes ?c)) = Some (context_bytes ?c)"
  proof (rule read_bytes_eq)
    fix i assume i: "i < length (context_bytes ?c)"
    have "m' (sp + of_nat i) = m2 (sp + of_nat i)"
    proof (rule write_bytes_other [OF w(2)])
      fix j assume "j < length (bytes_of_u32 ret)"
      then have j: "j < 4" by simp
      have "(of_nat (i + 4 - j) :: u32) \<noteq> 0" using i j len by (intro of_nat_neq) auto
      moreover have "(of_nat (i + 4 - j) :: u32) = of_nat i + 4 - of_nat j" using j by (simp add: of_nat_diff)
      ultimately show "sp + of_nat i \<noteq> sp - 4 + of_nat j" by (simp add: algebra_simps)
    qed
    then show "m' (sp + of_nat i) = Some (context_bytes ?c ! i)" using write_bytes_read [OF w(1) _ i] len by simp
  qed
  then show "read_bytes m' (f_esp f' + 4) 84 = Some (context_bytes ?c)" using len f' by simp
  show "f' = f\<lparr>f_esp := f_esp f', f_eip := sa_handler a\<rparr>" using f' by simp
qed

lemma signal_jump_frame_ok [simp]: "frame_ok (signal_jump_frame prev a f) \<longleftrightarrow> frame_ok f"
  by (simp add: signal_jump_frame_def signal_syscall_restart_def frame_ok_def)

lemma sys_sigreturn_context:
  assumes "read_bytes m (f_esp f) 84 = Some (context_bytes c)" and "frame_ok (ctx_frame c)"
  shows "sys_sigreturn m t f = Some (t\<lparr>t_blocked := ctx_old_mask c AND NOT SIG_UNBLOCKABLE\<rparr>, ctx_frame c)"
  using assms by (simp add: sys_sigreturn_def context_roundtrip)

lemma signal_jump_return:
  assumes "signal_jump tramp prev m t n f = Some (m', t', f')" and "frame_ok f"
    and "\<And>i. i < 84 \<Longrightarrow> m'' (f_esp f' + 4 + of_nat i) = m' (f_esp f' + 4 + of_nat i)" and "f_esp f'' = f_esp f' + 4"
  shows "sys_sigreturn m'' t'' f'' =
    Some (t''\<lparr>t_blocked := t_blocked t AND NOT SIG_UNBLOCKABLE\<rparr>, signal_jump_frame prev (t_actions t ! (n - 1)) f)"
proof -
  let ?a = "t_actions t ! (n - 1)"
  let ?f = "signal_jump_frame prev ?a f"
  have s: "signal_setup_stack tramp m t ?a n ?f = Some (m', f')"
  proof (cases "signal_setup_stack tramp m t ?a n ?f")
    case None
    then show ?thesis using assms(1) by (simp add: signal_jump_def)
  next
    case (Some r)
    then show ?thesis using assms(1) by (cases r) (simp add: signal_jump_def Let_def)
  qed
  let ?c = "\<lparr>ctx_signum = of_nat n, ctx_old_mask = t_blocked t, ctx_frame = ?f\<rparr>"
  have "read_bytes m'' (f_esp f'') 84 = Some (context_bytes ?c)"
    using signal_setup_stack_context(1) [OF s] assms(2,4) read_bytes_cong [of 84 m'' "f_esp f' + 4" m', OF assms(3)] by simp
  from sys_sigreturn_context [OF this] assms(2) show ?thesis by simp
qed

text \<open>
  C16. Returning from a signal handler restores what the signal interrupted: when the handler leaves its saved context
  alone and returns to the trampoline, \<^verbatim>\<open>sys_sigreturn\<close> puts back all registers (with the result of an interrupted
  system call already adjusted) and the signal mask from before the signal.
\<close>

theorem signal_return_restores:
  assumes "signal_jump tramp prev m t n f = Some (m', t', f')" and "frame_ok f" and "sig_ok t"
    and "\<forall>i<84. m'' (f_esp f' + 4 + of_nat i) = m' (f_esp f' + 4 + of_nat i)" and "f_esp f'' = f_esp f' + 4"
  shows "sys_sigreturn m'' t'' f'' = Some (t''\<lparr>t_blocked := t_blocked t\<rparr>, signal_jump_frame prev (t_actions t ! (n - 1)) f)"
  using signal_jump_return [OF assms(1,2) _ assms(5), of m'' t''] assms(4) blockable_id [OF sig_ok_blocked [OF assms(3)]] by simp

lemma write_bytes_total: "\<forall>a. m a \<noteq> None \<Longrightarrow> \<exists>m'. write_bytes m p bs = (m', True) \<and> (\<forall>a. m' a \<noteq> None)"
proof (induction bs arbitrary: m p)
  case (Cons b bs)
  then obtain x where x: "m p = Some x" by (metis option.exhaust)
  have "\<exists>m'. write_bytes (m(p \<mapsto> b)) (p + 1) bs = (m', True) \<and> (\<forall>a. m' a \<noteq> None)" using Cons.prems by (intro Cons.IH) auto
  then show ?case using x by simp
qed simp

lemma signal_jump_total:
  assumes "\<forall>a. m a \<noteq> None"
  shows "\<exists>m' t' f'. signal_jump tramp prev m t n f = Some (m', t', f')"
proof -
  have st: "\<exists>m'. stack_store m p bs = Some m' \<and> (\<forall>a. m' a \<noteq> None)" if "\<forall>a. m a \<noteq> None" for m :: umem and p bs
    using write_bytes_total [OF that, of p bs] by (auto simp: stack_store_cases)
  have "\<exists>m' f'. signal_setup_stack tramp m t a n g = Some (m', f')" for a g
  proof -
    obtain m1 where m1: "stack_store m (ALIGN_2_DOWN (f_esp g) 4 - of_nat (length tramp)) tramp = Some m1" "\<forall>a. m1 a \<noteq> None"
      using st [OF assms] by blast
    let ?c = "\<lparr>ctx_signum = of_nat n, ctx_old_mask = t_blocked t, ctx_frame = g\<rparr>"
    let ?sp = "ALIGN_2_DOWN (ALIGN_2_DOWN (f_esp g) 4 - of_nat (length tramp)) 4 - 84"
    obtain m2 where m2: "stack_store m1 ?sp (context_bytes ?c) = Some m2" "\<forall>a. m2 a \<noteq> None"
      using st [OF m1(2)] by blast
    obtain m3 where "stack_store m2 (?sp - 4) (bytes_of_u32 (ALIGN_2_DOWN (f_esp g) 4 - of_nat (length tramp))) = Some m3"
      using st [OF m2(2)] by blast
    then show ?thesis using m1 m2 by (simp add: signal_setup_stack_def Let_def)
  qed
  then obtain m' f' where "signal_setup_stack tramp m t (t_actions t ! (n - 1)) n (signal_jump_frame prev (t_actions t ! (n - 1)) f) = Some (m', f')"
    by blast
  then show ?thesis by (simp add: signal_jump_def Let_def)
qed

lemma frame_ok_example [simp]: "frame_ok example_frame"
  by (simp add: frame_ok_def example_frame_def)

theorem signal_return_restores_witness:
  "\<exists>m' t' f'. signal_jump x86_trampoline_code 0 (\<lambda>_. Some 0) example_task 15 example_frame = Some (m', t', f') \<and>
     sys_sigreturn m' t' (f'\<lparr>f_esp := f_esp f' + 4\<rparr>) = Some (t'\<lparr>t_blocked := 0\<rparr>, example_frame)"
proof -
  obtain m' t' f' where j: "signal_jump x86_trampoline_code 0 (\<lambda>_. Some 0) example_task 15 example_frame = Some (m', t', f')"
    using signal_jump_total [of "\<lambda>_. Some 0" x86_trampoline_code 0 example_task 15 example_frame] by auto
  have "sys_sigreturn m' t' (f'\<lparr>f_esp := f_esp f' + 4\<rparr>) =
      Some (t'\<lparr>t_blocked := t_blocked example_task\<rparr>, signal_jump_frame 0 (t_actions example_task ! (15 - 1)) example_frame)"
    by (rule signal_return_restores [OF j]) simp_all
  then show ?thesis using j by (simp add: example_task_def signal_jump_frame_def)
qed

section \<open>A forged context\<close>

text \<open>
  C38. The context is taken from the user's stack as it is: for any register contents, the code segment and the flags
  included, there is a stack with which \<^verbatim>\<open>sys_sigreturn\<close> returns to exactly those.
\<close>

theorem sigreturn_any_frame:
  assumes "frame_ok g"
  shows "\<exists>m. sys_sigreturn m t f = Some (t\<lparr>t_blocked := 0\<rparr>, g)"
proof -
  let ?c = "\<lparr>ctx_signum = 0, ctx_old_mask = 0, ctx_frame = g\<rparr>"
  let ?m = "\<lambda>a. Some (context_bytes ?c ! unat (a - f_esp f))"
  have len: "length (context_bytes ?c) = 84" using assms by (intro length_context_bytes) simp
  have "read_bytes ?m (f_esp f) (length (context_bytes ?c)) = Some (context_bytes ?c)"
  proof (rule read_bytes_eq)
    fix i assume "i < length (context_bytes ?c)"
    then have "unat (of_nat i :: u32) = i" using len by (intro unat_of_nat_u32) simp
    then show "?m (f_esp f + of_nat i) = Some (context_bytes ?c ! i)" by simp
  qed
  then have "read_bytes ?m (f_esp f) 84 = Some (context_bytes ?c)" by (simp only: len)
  from sys_sigreturn_context [OF this] assms show ?thesis by auto
qed

theorem sigreturn_any_frame_witness:
  "\<exists>m. sys_sigreturn m example_task example_frame = Some (example_task\<lparr>t_blocked := 0\<rparr>, example_frame\<lparr>f_cs := 0x08, f_ss := 0x10\<rparr>)"
  by (rule sigreturn_any_frame) (simp add: frame_ok_def example_frame_def)

section \<open>Waiting with another mask\<close>

lemma signal_handle_again:
  "signal_handle_round tramp prev cur (m, s, f) = ((m, s1, f), Again e) \<Longrightarrow>
   signal_handle env tramp prev cur (m, s, f) = signal_handle env tramp prev cur (m, if e = Continue then s1 else env e s1, f)"
  by (subst signal_handle.simps) simp

lemma signal_handle_jump:
  assumes "quiet cur env" and "signal_handle env tramp prev cur (m, s, f) = Some ((m', s', f'), Handler n)"
  shows "\<exists>t. t_blocked t = t_blocked (tasks s cur) \<and> signal_jump tramp prev m t n f = Some (m', tasks s' cur, f')"
  using assms(2)
proof (induction "deliverables (tasks s cur)" arbitrary: s)
  case Nil
  then obtain f1 where "signal_handle_round tramp prev cur (m, s, f) = ((m, s, f1), Return NoHandler)"
    using round_done [of s cur] by metis
  then show ?case using Nil.prems by (simp add: signal_handle.simps)
next
  case (Cons k ns)
  let ?t = "tasks s cur"
  note d = Cons.hyps(2) [symmetric]
  show ?case
  proof (cases "caught ?t k \<or> fatal ?t k")
    case False
    then obtain s1 e where r: "signal_handle_round tramp prev cur (m, s, f) = ((m, s1, f), Again e)"
        "sig_view (tasks s1 cur) = sig_view (tasks (taken s cur k) cur)"
      using round_skip [OF d] by blast
    let ?s2 = "if e = Continue then s1 else env e s1"
    have v: "sig_view (tasks ?s2 cur) = sig_view (?t\<lparr>t_pending := SIGSET_UNSET (t_pending ?t) k\<rparr>)"
      using r(2) assms(1) by (simp add: quiet_def taken_task)
    then have n: "ns = deliverables (tasks ?s2 cur)" using sig_view_deliverables deliverables_Cons(2) [OF d] by metis
    have "\<exists>t. t_blocked t = t_blocked (tasks ?s2 cur) \<and> signal_jump tramp prev m t n f = Some (m', tasks s' cur, f')"
      using Cons.hyps(1) [OF n] Cons.prems signal_handle_again [OF r(1), of env] by simp
    moreover have "t_blocked (tasks ?s2 cur) = t_blocked ?t" using v by (simp add: sig_view_def)
    ultimately show ?thesis by metis
  next
    case True
    then obtain st out where r: "signal_handle_round tramp prev cur (m, s, f) = (st, Return out)"
      using round_act [OF d] by metis
    then have eq: "signal_handle_round tramp prev cur (m, s, f) = ((m', s', f'), Return (Handler n))"
      using Cons.prems by (subst (asm) signal_handle.simps) simp
    have "caught ?t k" using True round_act [OF d True, of tramp prev m f] eq by (auto split: if_splits)
    then have "signal_jump tramp prev m (tasks (taken s cur k) cur) k f = Some (m', tasks s' cur, f') \<and> n = k"
      using eq by (auto simp: round_unfold [OF d] Let_def caught_def task_upd_def split: option.splits)
    moreover have "t_blocked (tasks (taken s cur k) cur) = t_blocked ?t" by (simp add: taken_task)
    ultimately show ?thesis by blast
  qed
qed

text \<open>
  C37. \<^verbatim>\<open>sys_sigsuspend\<close> does not restore the mask: the handler that ends the wait runs with the old mask, without the
  signals of its own \<^verbatim>\<open>sa_mask\<close>, and when it returns the task keeps the temporary mask, which the context on the stack
  holds.
\<close>

theorem sigsuspend_keeps_temporary_mask:
  assumes "sigsuspend_enter umask m (tasks s cur) f = Ok (t1, f1, old)" and "frame_ok f" and "quiet cur env"
    and "sigsuspend_round env tramp prev cur old (m, task_upd s cur (\<lambda>_. t1), f1) = Some ((m2, s2, f2), True)"
  shows "t_blocked (tasks s2 cur) = t_blocked (tasks s cur) \<and>
    (\<exists>t3 f3. sys_sigreturn m2 (tasks s2 cur) (f2\<lparr>f_esp := f_esp f2 + 4\<rparr>) = Some (t3, f3) \<and> t_blocked t3 = t_blocked t1)"
proof -
  obtain s2' n where h: "signal_handle env tramp prev cur (m, task_upd s cur (\<lambda>_. t1), f1) = Some ((m2, s2', f2), Handler n)"
    and s2: "s2 = task_upd s2' cur (sigsuspend_leave old)"
    using assms(4) by (auto simp: sigsuspend_round_def split: if_splits option.splits prod.splits signal_outcome.splits)
  have e: "old = t_blocked (tasks s cur)" "blockable (t_blocked t1)" "frame_ok f1"
    using assms(1,2) by (auto simp: sigsuspend_enter_def frame_ok_def split: sum.splits)
  have b: "t_blocked (tasks s2 cur) = t_blocked (tasks s cur)" by (simp add: s2 task_upd_def sigsuspend_leave_def e(1))
  obtain t where t: "t_blocked t = t_blocked t1" "signal_jump tramp prev m t n f1 = Some (m2, tasks s2' cur, f2)"
    using signal_handle_jump [OF assms(3) h] by (auto simp: task_upd_def)
  show ?thesis
    using b signal_jump_return [OF t(2) e(3), of m2 "f2\<lparr>f_esp := f_esp f2 + 4\<rparr>" "tasks s2 cur"] blockable_id [OF e(2)]
    by (simp add: t(1))
qed

text \<open>A task that catches signal 15, has it blocked and pending, and waits with an empty mask.\<close>

definition caught_task :: task where
  "caught_task = example_task\<lparr>t_pending := 0x4000, t_blocked := 0x4000,
     t_actions := (t_actions example_task)[14 := \<lparr>sa_handler = 0x8050000, sa_mask = 0x4000, sa_flags = 0\<rparr>]\<rparr>"

lemma caught_task_deliverable: "deliverables (caught_task\<lparr>t_blocked := 0\<rparr>) = [15]"
proof -
  have "[0..<32] = [0, 1, 2, 3, 4, 5, 6, 7, 8, 9, 10, 11, 12, 13, 14, 15, 16, 17, 18, 19, 20, 21, 22, 23, 24, 25, 26, 27, 28, 29, 30, 31 :: nat]"
    by (simp add: upt_rec)
  then show ?thesis by (simp add: deliverables_def caught_task_def bit_iff_odd)
qed

theorem sigsuspend_keeps_temporary_mask_witness:
  "\<exists>m2 s2 f2 t3 f3. sigsuspend_round (\<lambda>_ s. s) x86_trampoline_code 0 0 0x4000
       (\<lambda>_. Some 0, task_upd example_sched 0 (\<lambda>_. caught_task\<lparr>t_blocked := 0\<rparr>), example_frame\<lparr>f_eax := neg_errno EINTR\<rparr>) =
       Some ((m2, s2, f2), True) \<and>
     t_blocked caught_task = 0x4000 \<and>
     sys_sigreturn m2 (tasks s2 0) (f2\<lparr>f_esp := f_esp f2 + 4\<rparr>) = Some (t3, f3) \<and> t_blocked t3 = 0"
proof -
  let ?m = "(\<lambda>_. Some 0) :: umem"
  let ?s = "task_upd example_sched 0 (\<lambda>_. caught_task)"
  let ?t1 = "caught_task\<lparr>t_blocked := 0\<rparr>"
  let ?f1 = "example_frame\<lparr>f_eax := neg_errno EINTR\<rparr>"
  let ?s1 = "task_upd ?s 0 (\<lambda>_. ?t1)"
  have rd: "read_bytes ?m 64 4 = Some [0, 0, 0, 0]" by (simp add: numeral_eq_Suc)
  have en: "sigsuspend_enter (make_user_buffer 64) ?m (tasks ?s 0) example_frame = Ok (?t1, ?f1, 0x4000)"
    by (simp add: sigsuspend_enter_def user_copy_u32_to_kernel_def user_memcpy_to_kernel_def user_check_access_def make_user_buffer_def
        KMEM_KBASE_def u32_of_bytes_def rd task_upd_def caught_task_def)
  have t: "tasks ?s1 0 = ?t1" by (simp add: task_upd_def)
  then have d: "deliverables (tasks ?s1 0) = [15]" by (simp only: caught_task_deliverable)
  have p: "has_pending_signal ?t1" by (simp add: has_pending_signal_def caught_task_def)
  have h: "sa_handler (t_actions ?t1 ! (15 - 1)) = 0x8050000" by (simp add: caught_task_def example_task_def)
  obtain m2 t2 f2 where j: "signal_jump x86_trampoline_code 0 ?m (tasks (taken ?s1 0 15) 0) 15 ?f1 = Some (m2, t2, f2)"
    using signal_jump_total [of ?m] by (metis option.distinct(1))
  have "signal_handle (\<lambda>_ s. s) x86_trampoline_code 0 0 (?m, ?s1, ?f1) = Some ((m2, task_upd (taken ?s1 0 15) 0 (\<lambda>_. t2), f2), Handler 15)"
    unfolding signal_handle.simps [of _ _ _ _ "(?m, ?s1, ?f1)"] round_unfold [OF d] Let_def t h j
    by (simp add: SIG_IGN_def SIG_DFL_def)
  then have r: "sigsuspend_round (\<lambda>_ s. s) x86_trampoline_code 0 0 0x4000 (?m, ?s1, ?f1) =
      Some ((m2, task_upd (task_upd (taken ?s1 0 15) 0 (\<lambda>_. t2)) 0 (sigsuspend_leave 0x4000), f2), True)"
    unfolding sigsuspend_round_def fst_conv snd_conv t using p by simp
  have "quiet 0 (\<lambda>_ s. s)" by (simp add: quiet_def)
  from sigsuspend_keeps_temporary_mask [OF en frame_ok_example this r] r
  show ?thesis by (auto simp: task_upd_def caught_task_def)
qed

section \<open>Ignoring SIGKILL\<close>

lemma send_sigkill:
  "sig_view (tasks (send_sig s t SIGKILL False) t) =
   (SIGSET_SET (t_pending (tasks s t)) SIGKILL, t_blocked (tasks s t), t_actions (tasks s t), t_pid (tasks s t))"
  by (simp add: send_sig_def Let_def task_upd_def scheduler_task_intr_wake_def SIGKILL_def SIGCONT_def SIGSTOP_def SIGTSTP_def
      SIGTTOU_def SIGTTIN_def sig_view_def split: option.split)

text \<open>
  A task can make itself immune to \<^verbatim>\<open>SIGKILL\<close>: after \<^verbatim>\<open>signal(SIGKILL, SIG_IGN)\<close>, which succeeds, the signal is
  discarded when it is delivered, and the task goes on.
\<close>

theorem sigkill_can_be_ignored:
  assumes "quiet cur env" and "length (t_actions (tasks s cur)) = 32" and "t_pending (tasks s cur) = 0"
  shows "snd (sys_signal (int SIGKILL) SIG_IGN (tasks s cur)) = sa_handler (t_actions (tasks s cur) ! 8) \<and>
    (\<exists>st. signal_handle env tramp prev cur
       (m, send_sig (task_upd s cur (\<lambda>t. fst (sys_signal (int SIGKILL) SIG_IGN t))) cur SIGKILL False, f) = Some (st, NoHandler))"
proof -
  let ?s = "send_sig (task_upd s cur (\<lambda>t. fst (sys_signal (int SIGKILL) SIG_IGN t))) cur SIGKILL False"
  let ?t = "tasks ?s cur"
  have v: "sig_view ?t = (256, t_blocked (tasks s cur),
      (t_actions (tasks s cur))[8 := \<lparr>sa_handler = SIG_IGN, sa_mask = 0, sa_flags = 0\<rparr>], t_pid (tasks s cur))"
    unfolding send_sigkill using assms(3)
    by (simp add: task_upd_def sys_signal_def SIGKILL_def NSIG_def SIGSET_SET_def set_bit_eq_or)
  then have a: "sa_handler (t_actions ?t ! 8) = SIG_IGN" using assms(2) by (simp add: sig_view_def)
  have p: "t_pending ?t = 256" using v by (simp add: sig_view_def)
  have k: "k = 9" if "k \<in> set (deliverables ?t)" for k
  proof -
    have "bit (256 :: u32) (k - 1) \<and> 1 \<le> k" using that unfolding deliverables_def p by (auto simp: bit_and_iff)
    moreover have "(256 :: u32) = push_bit 8 1" by simp
    ultimately have "bit (push_bit 8 1 :: u32) (k - 1)" "1 \<le> k" by metis+
    then show ?thesis unfolding bit_push_bit_iff bit_1_iff by linarith
  qed
  have "\<not> caught ?t 9" "\<not> fatal ?t 9" using a by (auto simp: caught_def fatal_def SIG_IGN_def SIG_DFL_def)
  then have "List.find (\<lambda>n. caught ?t n \<or> fatal ?t n) (deliverables ?t) = None" using k by (auto simp: find_None_iff)
  then have "\<exists>st. signal_handle env tramp prev cur (m, ?s, f) = Some (st, NoHandler)"
    using signal_handle_result [OF assms(1), of tramp prev m ?s f] by (auto simp: signal_result_def)
  then show ?thesis by (simp add: sys_signal_def SIGKILL_def NSIG_def)
qed

theorem sigkill_can_be_ignored_witness:
  "\<exists>st. signal_handle (\<lambda>_ s. s) x86_trampoline_code 0 0
     (\<lambda>_. None, send_sig (task_upd example_sched 0 (\<lambda>t. fst (sys_signal (int SIGKILL) SIG_IGN t))) 0 SIGKILL False, example_frame) =
   Some (st, NoHandler)"
proof -
  have "quiet 0 (\<lambda>_ s. s)" by (simp add: quiet_def)
  then show ?thesis using sigkill_can_be_ignored [of 0 "\<lambda>_ s. s" example_sched] by (simp add: example_sched_def example_task_def)
qed

end
