(* ===== verification/Ktimer.thy ===== *)
theory Ktimer
  imports Prelude
begin

text \<open>
  Kernel timers, \<^verbatim>\<open>src/kernel/ktimer.c\<close>, and the timer interrupt of \<^verbatim>\<open>arch/x86/drivers/pic8259_timer.c\<close>. Timers are named by
  numbers; the functions run under the lock of the timer list, the callbacks do not.
\<close>

section \<open>Model\<close>

type_synonym u64 = "64 word"

record ktimers =
  wake_up_tick :: "nat \<Rightarrow> u64"
  timer_list :: "nat list"
  currently_running_timer :: "nat option"
  ticks :: u32

definition TIMER_TICKS_PER_SEC :: int where
  "TIMER_TICKS_PER_SEC = 2000"

definition timer_get_ticks :: "ktimers \<Rightarrow> u32" where
  "timer_get_ticks s = ticks s"

definition timer_get_ms :: "ktimers \<Rightarrow> u32" where
  "timer_get_ms s = timer_get_ticks s div (of_int (TIMER_TICKS_PER_SEC div 1000))"

text \<open>One round of the loop in \<^verbatim>\<open>timer_handle_timers\<close>: the timer whose callback is called next, if there is one.\<close>

definition timer_round :: "u64 \<Rightarrow> ktimers \<Rightarrow> ktimers \<times> nat option" where
  "timer_round tick s =
     (let s = s\<lparr>currently_running_timer := None\<rparr>
      in case timer_list s of
           [] \<Rightarrow> (s, None)
         | timer # rest \<Rightarrow>
             if wake_up_tick s timer > tick then (s, None)
             else (s\<lparr>timer_list := rest, currently_running_timer := Some timer\<rparr>, Some timer))"

text \<open>
  The loop; \<open>cb\<close> is what the callback of a timer does to the timers. The result lists the timers whose callbacks
  were called.
\<close>

partial_function (option) timer_handle_timers ::
  "(nat \<Rightarrow> ktimers \<Rightarrow> ktimers) \<Rightarrow> u64 \<Rightarrow> ktimers \<Rightarrow> (ktimers \<times> nat list) option" where
  "timer_handle_timers cb tick s =
     (case timer_round tick s of
        (s, None) \<Rightarrow> Some (s, [])
      | (s, Some timer) \<Rightarrow> do {
          (s, fired) \<leftarrow> timer_handle_timers cb tick (cb timer s);
          Some (s, timer # fired) })"

definition timer_was_fired :: "nat \<Rightarrow> ktimers \<Rightarrow> bool" where
  "timer_was_fired timer s \<longleftrightarrow> timer \<notin> set (timer_list s)"

fun insert_timer :: "(nat \<Rightarrow> u64) \<Rightarrow> nat \<Rightarrow> nat list \<Rightarrow> nat list" where
  "insert_timer wake timer [] = [timer]"
| "insert_timer wake timer (t # ts) = (if wake t \<ge> wake timer then timer # t # ts else t # insert_timer wake timer ts)"

text \<open>The boolean result says whether the C function returns 0.\<close>

definition timer_add :: "nat \<Rightarrow> u64 \<Rightarrow> ktimers \<Rightarrow> ktimers \<times> bool" where
  "timer_add timer ms s =
     (let s = s\<lparr>wake_up_tick := (wake_up_tick s)(timer := ucast (timer_get_ticks s) + ms * of_int (TIMER_TICKS_PER_SEC div 1000))\<rparr>
      in if timer \<in> set (timer_list s) then (s, False)
         else (s\<lparr>timer_list := insert_timer (wake_up_tick s) timer (timer_list s)\<rparr>, True))"

definition timer_del :: "nat \<Rightarrow> ktimers \<Rightarrow> ktimers \<times> bool" where
  "timer_del timer s =
     (if timer \<notin> set (timer_list s) then (s, False) else (s\<lparr>timer_list := remove1 timer (timer_list s)\<rparr>, True))"

text \<open>\<^verbatim>\<open>timer_cancel\<close> deletes the timer, and otherwise yields as long as its callback runs: the result \<^term>\<open>False\<close>.\<close>

definition timer_cancel :: "nat \<Rightarrow> ktimers \<Rightarrow> ktimers \<times> bool" where
  "timer_cancel timer s =
     (case timer_del timer s of
        (s, True) \<Rightarrow> (s, True)
      | (s, False) \<Rightarrow> (s, currently_running_timer s \<noteq> Some timer))"

text \<open>
  The timer interrupt. The counter is a signed 32-bit integer, and is extended to the 64 bits of the argument with its
  sign. The two booleans: the processor should reschedule (\<open>per_sec\<close> is the configured number of task switches), and the
  uptime advances by a second.
\<close>

definition timer_callback ::
  "(nat \<Rightarrow> ktimers \<Rightarrow> ktimers) \<Rightarrow> int \<Rightarrow> ktimers \<Rightarrow> (ktimers \<times> nat list \<times> bool \<times> bool) option" where
  "timer_callback cb per_sec s = do {
     let s = s\<lparr>ticks := ticks s + 1\<rparr>;
     (s, fired) \<leftarrow> timer_handle_timers cb (scast (ticks s)) s;
     Some (s, fired, sint (ticks s) mod (TIMER_TICKS_PER_SEC div per_sec) = 0, sint (ticks s) mod TIMER_TICKS_PER_SEC = 0)
   }"

section \<open>The order of the list\<close>

definition timers_ok :: "ktimers \<Rightarrow> bool" where
  "timers_ok s \<longleftrightarrow> distinct (timer_list s) \<and> sorted (map (wake_up_tick s) (timer_list s))"

definition due :: "u64 \<Rightarrow> ktimers \<Rightarrow> nat list" where
  "due tick s = filter (\<lambda>t. wake_up_tick s t \<le> tick) (timer_list s)"

lemma set_insert_timer [simp]: "set (insert_timer wake t ts) = insert t (set ts)"
  by (induction ts) auto

lemma distinct_insert_timer: "t \<notin> set ts \<Longrightarrow> distinct ts \<Longrightarrow> distinct (insert_timer wake t ts)"
  by (induction ts) auto

lemma sorted_insert_timer: "sorted (map wake ts) \<Longrightarrow> sorted (map wake (insert_timer wake t ts))"
  by (induction ts) fastforce+

lemma timer_add_ok:
  assumes "timers_ok s" and "t \<notin> set (timer_list s)"
  shows "timers_ok (fst (timer_add t ms s))"
proof -
  let ?w = "(wake_up_tick s)(t := ucast (ticks s) + ms * of_int (TIMER_TICKS_PER_SEC div 1000))"
  have "map ?w (timer_list s) = map (wake_up_tick s) (timer_list s)" using assms(2) by auto
  then have "sorted (map ?w (insert_timer ?w t (timer_list s)))"
    using assms(1) by (intro sorted_insert_timer) (simp only: timers_ok_def)
  then show ?thesis
    using assms distinct_insert_timer [of t "timer_list s" ?w]
    by (simp add: timers_ok_def timer_add_def timer_get_ticks_def Let_def del: fun_upd_apply)
qed

lemma timer_del_ok: "timers_ok s \<Longrightarrow> timers_ok (fst (timer_del t s))"
  by (auto simp: timers_ok_def timer_del_def sorted_map_remove1)

text \<open>A sorted list has its due timers in front.\<close>

lemma due_prefix:
  assumes "timers_ok s" and "timer_list s = t # ts"
  shows "wake_up_tick s t > tick \<Longrightarrow> due tick s = []"
    and "wake_up_tick s t \<le> tick \<Longrightarrow> due tick s = t # due tick (s\<lparr>timer_list := ts, currently_running_timer := r\<rparr>)"
  using assms by (auto simp: due_def timers_ok_def filter_empty_conv)

text \<open>
  Callbacks that may schedule timers for later, but leave the order and the timers that are due alone.
\<close>

definition well_behaved :: "u64 \<Rightarrow> u32 \<Rightarrow> (nat \<Rightarrow> ktimers \<Rightarrow> ktimers) \<Rightarrow> bool" where
  "well_behaved tick now cb \<longleftrightarrow>
     (\<forall>t s. timers_ok s \<longrightarrow> t \<notin> set (timer_list s) \<longrightarrow> ticks s = now \<longrightarrow>
        timers_ok (cb t s) \<and> ticks (cb t s) = now \<and> due tick (cb t s) = due tick s)"

lemma timer_handle_due:
  assumes "well_behaved tick (ticks s) cb" and "timers_ok s"
  shows "\<exists>s'. timer_handle_timers cb tick s = Some (s', due tick s) \<and> due tick s' = [] \<and> timers_ok s' \<and>
    currently_running_timer s' = None \<and> ticks s' = ticks s"
  using assms
proof (induction "due tick s" arbitrary: s)
  case Nil
  then have "timer_round tick s = (s\<lparr>currently_running_timer := None\<rparr>, None)"
    by (cases "timer_list s") (auto simp: timer_round_def due_def Let_def not_less split: if_splits)
  then show ?case using Nil by (subst timer_handle_timers.simps) (simp add: due_def timers_ok_def)
next
  case (Cons d ds)
  obtain t ts where l: "timer_list s = t # ts" using Cons.hyps(2) by (cases "timer_list s") (auto simp: due_def)
  have w: "wake_up_tick s t \<le> tick" using due_prefix(1) [OF Cons.prems(2) l, of tick] Cons.hyps(2) by fastforce
  let ?s1 = "s\<lparr>timer_list := ts, currently_running_timer := Some t\<rparr>"
  have r: "timer_round tick s = (?s1, Some t)" using l w by (simp add: timer_round_def Let_def not_less)
  have d: "due tick s = t # due tick ?s1" using due_prefix(2) [OF Cons.prems(2) l w] by simp
  have ok: "timers_ok ?s1" "t \<notin> set (timer_list ?s1)" using Cons.prems(2) l by (auto simp: timers_ok_def)
  then have cb: "timers_ok (cb t ?s1)" "ticks (cb t ?s1) = ticks s" "due tick (cb t ?s1) = due tick ?s1"
    using Cons.prems(1) by (auto simp: well_behaved_def)
  have "ds = due tick (cb t ?s1)" using Cons.hyps(2) d cb(3) by simp
  from Cons.hyps(1) [OF this] cb Cons.prems(1) show ?case
    by (subst timer_handle_timers.simps) (auto simp: r d)
qed


text \<open>A callback that schedules its timer again, as those of the screen do.\<close>

definition rearm :: "u64 \<Rightarrow> nat \<Rightarrow> ktimers \<Rightarrow> ktimers" where
  "rearm ms t s = fst (timer_add t ms s)"

lemma filter_insert_timer: "\<not> P t \<Longrightarrow> filter P (insert_timer wake t ts) = filter P ts"
  by (induction ts) auto

lemma rearm_well_behaved:
  assumes "tick < ucast now + ms * of_int (TIMER_TICKS_PER_SEC div 1000)"
  shows "well_behaved tick now (rearm ms)"
  unfolding well_behaved_def
proof (intro allI impI)
  fix t s assume s: "timers_ok s" "t \<notin> set (timer_list s)" "ticks s = now"
  let ?w = "(wake_up_tick s)(t := ucast now + ms * of_int (TIMER_TICKS_PER_SEC div 1000))"
  have "due tick (rearm ms t s) = filter (\<lambda>u. ?w u \<le> tick) (insert_timer ?w t (timer_list s))"
    using s(2,3) by (simp add: due_def rearm_def timer_add_def timer_get_ticks_def Let_def del: fun_upd_apply)
  also have "\<dots> = filter (\<lambda>u. ?w u \<le> tick) (timer_list s)" using assms by (intro filter_insert_timer) simp
  also have "\<dots> = due tick s" using s(2) unfolding due_def by (intro filter_cong) auto
  finally have "due tick (rearm ms t s) = due tick s" .
  then show "timers_ok (rearm ms t s) \<and> ticks (rearm ms t s) = now \<and> due tick (rearm ms t s) = due tick s"
    using timer_add_ok [OF s(1,2), of ms] s(2,3) by (simp add: rearm_def timer_add_def Let_def)
qed

definition example_timers :: ktimers where
  "example_timers = \<lparr>wake_up_tick = (\<lambda>t. of_nat (100 + 10 * t)), timer_list = [0, 1, 2], currently_running_timer = None, ticks = 110\<rparr>"


text \<open>
  \<^verbatim>\<open>timer_add\<close> on a timer that is already scheduled returns -1, but has already changed its tick: when it is the
  first timer and is moved behind the next one, the next tick calls no callback although the second timer is due.
\<close>

theorem timer_add_scheduled_delays_others:
  assumes "timer_list s = a # b # rest" and "a \<noteq> b" and "wake_up_tick s b \<le> tick"
    and "tick < ucast (ticks s) + ms * of_int (TIMER_TICKS_PER_SEC div 1000)"
  shows "\<exists>s'. timer_add a ms s = (s', False) \<and> b \<in> set (due tick s') \<and>
    (\<exists>s''. timer_handle_timers cb tick s' = Some (s'', []))"
  using assms by (simp add: timer_add_def timer_get_ticks_def due_def timer_handle_timers.simps timer_round_def Let_def)

theorem timer_add_scheduled_delays_others_witness:
  "\<exists>s'. timer_add 0 50 example_timers = (s', False) \<and> 1 \<in> set (due 110 s') \<and>
    (\<exists>s''. timer_handle_timers (\<lambda>t s. s) 110 s' = Some (s'', []))"
  by (rule timer_add_scheduled_delays_others [where rest = "[2]"]) (simp_all add: example_timers_def TIMER_TICKS_PER_SEC_def)

lemma scast_negative:
  assumes "0x80000000 \<le> (w :: u32)"
  shows "(0xFFFFFFFF80000000 :: u64) \<le> scast w"
proof -
  have m: "(x - 4294967296) mod 18446744073709551616 = x + 18446744069414584320" if "x < 4294967296" "2147483648 \<le> x" for x :: int
    using that mod_add_self2 [of "x - 4294967296" 18446744073709551616] mod_pos_pos_trivial [of "x + 18446744069414584320" 18446744073709551616]
    by (simp add: algebra_simps)
  have l: "2147483648 \<le> uint w" "uint w < 4294967296" using assms uint_lt2p [of w] by (simp_all add: word_le_def)
  then have "uint w div 2147483648 = 1" by linarith
  then have "bit (uint w) 31" by (simp add: bit_iff_odd)
  moreover have "take_bit 32 (uint w) = uint w" using l by (intro take_bit_int_eq_self) simp_all
  ultimately have "sint w = uint w - 4294967296"
    by (simp add: sint_uint signed_take_bit_eq_take_bit_minus)
  with m [OF l(2,1)] have "sint w mod 18446744073709551616 = uint w + 18446744069414584320" by (simp only:)
  moreover have "uint (scast w :: u64) = sint w mod 18446744073709551616"
    by transfer (simp add: take_bit_eq_mod)
  ultimately have u: "uint (scast w :: u64) = uint w + 18446744069414584320" by (simp only:)
  have "uint (0xFFFFFFFF80000000 :: u64) = 18446744071562067968" by simp
  then show ?thesis unfolding word_le_def u using l(1) by linarith
qed

lemma timer_handle_rest:
  "timer_handle_timers (\<lambda>t s. s) tick s = Some (s', fired) \<Longrightarrow> timer_list s = fired @ timer_list s'"
proof (induction "timer_list s" arbitrary: s fired)
  case Nil
  then show ?case by (subst (asm) timer_handle_timers.simps) (auto simp: timer_round_def Let_def)
next
  case (Cons t ts)
  let ?s1 = "s\<lparr>timer_list := ts, currently_running_timer := Some t\<rparr>"
  show ?case
  proof (cases "wake_up_tick s t > tick")
    case True
    then have "timer_round tick s = (s\<lparr>currently_running_timer := None\<rparr>, None)"
      using Cons.hyps(2) [symmetric] by (simp add: timer_round_def Let_def)
    then show ?thesis using Cons.prems by (subst (asm) timer_handle_timers.simps) auto
  next
    case False
    then have "timer_round tick s = (?s1, Some t)" using Cons.hyps(2) [symmetric] by (simp add: timer_round_def Let_def)
    then obtain fired' where f: "timer_handle_timers (\<lambda>t s. s) tick ?s1 = Some (s', fired')" "fired = t # fired'"
      using Cons.prems by (subst (asm) timer_handle_timers.simps) (auto simp: bind_eq_Some_conv)
    then show ?thesis using Cons.hyps(1) [OF _ f(1)] Cons.hyps(2) [symmetric] by simp
  qed
qed

text \<open>
  C39. From tick \<open>2^31\<close> on (after about twelve days) the counter is negative, and its 64-bit value exceeds every
  tick a timer can have: each timer interrupt then calls all callbacks in the list, however long their timers should
  still run.
\<close>

theorem timers_fire_early_after_overflow:
  assumes "timers_ok s" and "\<forall>t \<in> set (timer_list s). wake_up_tick s t < 0xFFFFFFFF80000000"
    and "0x7FFFFFFF \<le> ticks s" and "ticks s < 0xFFFFFFFF"
  shows "\<exists>s' rs up. timer_callback (\<lambda>t s. s) per_sec s = Some (s', timer_list s, rs, up) \<and> timer_list s' = []"
proof -
  let ?s = "s\<lparr>ticks := ticks s + 1\<rparr>"
  let ?tick = "scast (ticks s + 1) :: u64"
  have "unat (ticks s + 1) = unat (ticks s) + 1" using assms(4) by (simp add: unat_word_ariths word_less_nat_alt)
  then have "0x80000000 \<le> ticks s + 1" using assms(3) by (simp add: word_le_nat_alt)
  from scast_negative [OF this] have late: "0xFFFFFFFF80000000 \<le> ?tick" .
  have ok: "timers_ok ?s" using assms(1) by (simp add: timers_ok_def)
  have d: "due ?tick ?s = timer_list s" using assms(2) late by (force simp: due_def filter_id_conv)
  have "well_behaved ?tick (ticks ?s) (\<lambda>t s. s)" by (simp add: well_behaved_def)
  from timer_handle_due [OF this ok] obtain s' where h: "timer_handle_timers (\<lambda>t s. s) ?tick ?s = Some (s', timer_list s)"
    by (auto simp: d)
  moreover have "timer_list s' = []" using timer_handle_rest [OF h] by simp
  ultimately show ?thesis by (simp add: timer_callback_def)
qed

theorem timers_fire_early_after_overflow_witness:
  "\<exists>s' rs up. timer_callback (\<lambda>t s. s) 50
     \<lparr>wake_up_tick = (\<lambda>_. 0x80001000), timer_list = [0], currently_running_timer = None, ticks = 0x7FFFFFFF\<rparr> =
   Some (s', [0], rs, up)"
  using timers_fire_early_after_overflow
    [of "\<lparr>wake_up_tick = (\<lambda>_. 0x80001000), timer_list = [0], currently_running_timer = None, ticks = 0x7FFFFFFF\<rparr>" 50]
  by (auto simp: timers_ok_def)

end
