(* ===== verification/Tcp.thy ===== *)
theory Tcp
  imports Errno
begin

text \<open>
  Receiving TCP segments: \<^verbatim>\<open>net/ipv4/tcp_input.c\<close>, \<^verbatim>\<open>tcp_data.c\<close>, the senders of \<^verbatim>\<open>tcp_output.c\<close> that they use, and the
  sequence number arithmetic of \<^verbatim>\<open>tcp.h\<close>. A packet is modelled by its control block and its data; building the headers
  and routing a packet that is sent are left out, and what is sent is collected in a list.
\<close>

section \<open>Sequence numbers\<close>

definition tcp_seq_before :: "u32 \<Rightarrow> u32 \<Rightarrow> bool" where
  "tcp_seq_before seq1 seq2 \<longleftrightarrow> sint (seq1 - seq2) < 0"

definition tcp_seq_after :: "u32 \<Rightarrow> u32 \<Rightarrow> bool" where
  "tcp_seq_after seq1 seq2 \<longleftrightarrow> sint (seq1 - seq2) > 0"

definition tcp_seq_between :: "u32 \<Rightarrow> u32 \<Rightarrow> u32 \<Rightarrow> bool" where
  "tcp_seq_between seq1 seq2 seq3 \<longleftrightarrow> tcp_seq_before seq1 seq2 \<and> tcp_seq_before seq2 seq3"

section \<open>Packets and sockets\<close>

datatype tcp_state = TCP_ESTABLISHED | TCP_SYN_SENT | TCP_SYN_RECV | TCP_FIN_WAIT1 | TCP_FIN_WAIT2 | TCP_TIME_WAIT | TCP_CLOSE
  | TCP_CLOSE_WAIT | TCP_LAST_ACK | TCP_LISTEN | TCP_CLOSING

datatype socket_state = SOCKET_UNCONNECTED | SOCKET_CONNECTING | SOCKET_CONNECTED | SOCKET_DISCONNECTING

record segment =
  sg_seq :: u32
  sg_ack_seq :: u32
  sg_window :: u32
  sg_fin :: bool
  sg_syn :: bool
  sg_rst :: bool
  sg_psh :: bool
  sg_ack :: bool
  sg_data :: "u8 list"

record tcp_sock =
  tcp_state :: tcp_state
  iss :: u32
  irs :: u32
  rcv_nxt :: u32
  rcv_wnd :: u32
  snd_nxt :: u32
  snd_una :: u32
  snd_wnd :: u32
  snd_wl1 :: u32
  snd_wl2 :: u32
  delack_timer :: bool
  sk_state :: socket_state
  last_err :: "errno option"
  recv_queue :: "segment list"
  out_of_order_queue :: "segment list"
  tcp_sent :: "segment list"

definition packet_len :: "segment \<Rightarrow> u32" where
  "packet_len p = of_nat (length (sg_data p))"

definition empty_segment :: segment where
  "empty_segment = \<lparr>sg_seq = 0, sg_ack_seq = 0, sg_window = 0, sg_fin = False, sg_syn = False, sg_rst = False, sg_psh = False,
     sg_ack = False, sg_data = []\<rparr>"

definition socket_set_last_error :: "errno \<Rightarrow> tcp_sock \<Rightarrow> tcp_sock" where
  "socket_set_last_error e s = s\<lparr>last_err := Some e\<rparr>"

definition socket_state_change :: "socket_state \<Rightarrow> tcp_sock \<Rightarrow> tcp_sock" where
  "socket_state_change st s = s\<lparr>sk_state := st\<rparr>"

section \<open>Sending\<close>

definition tcp_send :: "segment \<Rightarrow> tcp_sock \<Rightarrow> tcp_sock" where
  "tcp_send p s = s\<lparr>tcp_sent := tcp_sent s @ [p]\<rparr>"

definition tcp_send_syn :: "tcp_sock \<Rightarrow> tcp_sock" where
  "tcp_send_syn s =
     (tcp_send (empty_segment\<lparr>sg_seq := snd_nxt s, sg_ack_seq := rcv_nxt s, sg_window := rcv_wnd s, sg_syn := True\<rparr>) s)
       \<lparr>tcp_state := TCP_SYN_SENT\<rparr>"

definition tcp_send_ack :: "tcp_sock \<Rightarrow> tcp_sock" where
  "tcp_send_ack s =
     tcp_send (empty_segment\<lparr>sg_seq := snd_nxt s, sg_ack_seq := rcv_nxt s, sg_window := rcv_wnd s, sg_ack := True\<rparr>) (s\<lparr>delack_timer := False\<rparr>)"

text \<open>The reply to a segment that cannot be accepted; a reset is not answered.\<close>

definition tcp_reset_for :: "segment \<Rightarrow> segment option" where
  "tcp_reset_for old =
     (if sg_rst old then None
      else Some (if \<not> sg_ack old
                 then empty_segment\<lparr>sg_ack_seq := sg_seq old + packet_len old + (if sg_syn old then 1 else 0), sg_rst := True, sg_ack := True\<rparr>
                 else empty_segment\<lparr>sg_seq := sg_ack_seq old, sg_rst := True\<rparr>))"

definition tcp_send_reset :: "segment \<Rightarrow> tcp_sock \<Rightarrow> tcp_sock" where
  "tcp_send_reset old s = (case tcp_reset_for old of None \<Rightarrow> s | Some p \<Rightarrow> tcp_send p s)"

text \<open>The part of \<^verbatim>\<open>tcp_connect\<close> that starts a connection, and the end of \<^verbatim>\<open>tcp_sendto\<close> for one packet.\<close>

definition tcp_connect_start :: "tcp_sock \<Rightarrow> tcp_sock" where
  "tcp_connect_start s =
     (let s = socket_state_change SOCKET_CONNECTING s;
          s = s\<lparr>rcv_wnd := 44477, iss := 200, snd_una := 200, snd_nxt := 200, snd_wnd := 0, snd_wl1 := 0, rcv_nxt := 0\<rparr>;
          s = tcp_send_syn s
      in s\<lparr>snd_nxt := snd_nxt s + 1\<rparr>)"

definition tcp_sendto_packet :: "u8 list \<Rightarrow> bool \<Rightarrow> tcp_sock \<Rightarrow> tcp_sock" where
  "tcp_sendto_packet data psh s =
     (let s = tcp_send (empty_segment\<lparr>sg_seq := snd_nxt s, sg_ack_seq := rcv_nxt s, sg_window := rcv_wnd s, sg_ack := True, sg_psh := psh,
                          sg_data := data\<rparr>) s
      in s\<lparr>snd_nxt := snd_nxt s + of_nat (length data)\<rparr>)"

section \<open>Receiving data\<close>

definition tcp_fin :: "tcp_sock \<Rightarrow> tcp_sock" where
  "tcp_fin s =
     (case tcp_state s of
        TCP_SYN_RECV \<Rightarrow> s\<lparr>tcp_state := TCP_CLOSE_WAIT\<rparr>
      | TCP_ESTABLISHED \<Rightarrow> s\<lparr>tcp_state := TCP_CLOSE_WAIT\<rparr>
      | TCP_FIN_WAIT2 \<Rightarrow> s\<lparr>tcp_state := TCP_TIME_WAIT\<rparr>
      | _ \<Rightarrow> s)"

fun ooo_insert :: "segment \<Rightarrow> segment list \<Rightarrow> segment list" where
  "ooo_insert p [] = [p]"
| "ooo_insert p (c # cs) = (if tcp_seq_before (sg_seq p) (sg_seq c) then p # c # cs else c # ooo_insert p cs)"

definition add_to_ooo_queue :: "segment \<Rightarrow> tcp_sock \<Rightarrow> tcp_sock" where
  "add_to_ooo_queue p s = s\<lparr>out_of_order_queue := ooo_insert p (out_of_order_queue s)\<rparr>"

definition socket_recv_packet :: "segment \<Rightarrow> tcp_sock \<Rightarrow> tcp_sock" where
  "socket_recv_packet p s =
     (let s = s\<lparr>rcv_nxt := rcv_nxt s + packet_len p\<rparr>;
          s = (if sg_fin p then tcp_fin (s\<lparr>rcv_nxt := rcv_nxt s + 1\<rparr>) else s)
      in s\<lparr>recv_queue := recv_queue s @ [p]\<rparr>)"

text \<open>The loop over the out-of-order queue; \<open>kept\<close> are the packets that stay in it.\<close>

fun consolidate_loop :: "segment list \<Rightarrow> segment list \<Rightarrow> tcp_sock \<Rightarrow> tcp_sock" where
  "consolidate_loop kept [] s = s\<lparr>out_of_order_queue := kept\<rparr>"
| "consolidate_loop kept (c # cs) s =
     (if sg_seq c = rcv_nxt s then consolidate_loop kept cs (socket_recv_packet c s) else consolidate_loop (kept @ [c]) cs s)"

definition consolidate_ooo_queue :: "tcp_sock \<Rightarrow> tcp_sock" where
  "consolidate_ooo_queue s = consolidate_loop [] (out_of_order_queue s) s"

definition tcp_recv_data :: "segment \<Rightarrow> tcp_sock \<Rightarrow> tcp_sock" where
  "tcp_recv_data p s =
     (if rcv_wnd s = 0 then s
      else if sg_seq p = rcv_nxt s
           then (consolidate_ooo_queue (socket_recv_packet p s))\<lparr>delack_timer := True\<rparr>
      else tcp_send_ack (add_to_ooo_queue p s))"

section \<open>Segment arrives\<close>

definition tcp_syn_sent :: "segment \<Rightarrow> tcp_sock \<Rightarrow> tcp_sock" where
  "tcp_syn_sent seg s =
     (if sg_ack seg \<and> (sg_ack_seq seg \<le> iss s \<or> sg_ack_seq seg > snd_nxt s \<or> sg_ack_seq seg < snd_una s) then tcp_send_reset seg s
      else if sg_rst seg
           then socket_state_change SOCKET_UNCONNECTED (socket_set_last_error ECONNREFUSED (s\<lparr>tcp_state := TCP_CLOSE\<rparr>))
      else if \<not> sg_syn seg then s
      else let s = s\<lparr>rcv_nxt := sg_seq seg + 1, irs := sg_seq seg\<rparr>;
               s = (if sg_ack seg then s\<lparr>snd_una := sg_ack_seq seg\<rparr> else s)
           in if snd_una s > iss s
              then socket_state_change SOCKET_CONNECTED ((tcp_send_ack (s\<lparr>snd_una := snd_nxt s\<rparr>))\<lparr>tcp_state := TCP_ESTABLISHED\<rparr>)
              else s\<lparr>tcp_state := TCP_SYN_RECV, snd_una := iss s\<rparr>)"

definition tcp_sequence_valid :: "tcp_sock \<Rightarrow> segment \<Rightarrow> bool" where
  "tcp_sequence_valid s seg \<longleftrightarrow>
     (let seg_length = packet_len seg
      in (seg_length = 0 \<and> rcv_wnd s = 0 \<and> sg_seq seg = rcv_nxt s) \<or>
         (seg_length = 0 \<and> rcv_wnd s \<noteq> 0 \<and> tcp_seq_between (rcv_nxt s - 1) (sg_seq seg) (rcv_nxt s + rcv_wnd s)) \<or>
         (seg_length \<noteq> 0 \<and> rcv_wnd s \<noteq> 0 \<and>
            (tcp_seq_between (rcv_nxt s - 1) (sg_seq seg) (rcv_nxt s + rcv_wnd s) \<or>
             tcp_seq_between (rcv_nxt s - 1) (sg_seq seg + seg_length - 1) (rcv_nxt s + rcv_wnd s))))"

text \<open>The second step: a reset. The case for \<open>TCP_SYN_RECV\<close> falls through to the next one.\<close>

definition tcp_rst :: "tcp_sock \<Rightarrow> tcp_sock" where
  "tcp_rst s =
     (let s = (if tcp_state s = TCP_SYN_RECV then socket_set_last_error ECONNREFUSED s else s);
          s = (if tcp_state s \<in> {TCP_SYN_RECV, TCP_ESTABLISHED, TCP_FIN_WAIT1, TCP_FIN_WAIT2, TCP_CLOSE_WAIT}
               then socket_set_last_error ECONNRESET s else s)
      in socket_state_change SOCKET_UNCONNECTED (s\<lparr>tcp_state := TCP_CLOSE\<rparr>))"

text \<open>
  The fifth step: an acknowledgement. The result \<^term>\<open>False\<close> says that the segment is dealt with.
\<close>

definition tcp_ack :: "segment \<Rightarrow> tcp_sock \<Rightarrow> tcp_sock \<times> bool" where
  "tcp_ack seg s =
     (if tcp_state s = TCP_SYN_RECV
      then if tcp_seq_between (snd_una s) (sg_ack_seq seg) (snd_nxt s + 1)
           then (socket_state_change SOCKET_CONNECTED (s\<lparr>tcp_state := TCP_ESTABLISHED\<rparr>), True)
           else (tcp_send_reset seg s, False)
      else if tcp_state s \<in> {TCP_ESTABLISHED, TCP_FIN_WAIT1, TCP_FIN_WAIT2, TCP_CLOSE_WAIT, TCP_CLOSING, TCP_LAST_ACK}
      then let s = (if tcp_seq_between (snd_una s) (sg_ack_seq seg) (snd_nxt s + 1) then s\<lparr>snd_una := sg_ack_seq seg\<rparr> else s)
           in if tcp_seq_after (sg_ack_seq seg) (snd_nxt s) then (s, False)
              else (if tcp_seq_between (snd_una s) (sg_ack_seq seg) (snd_nxt s + 1) \<and>
                       (tcp_seq_before (snd_wl1 s) (sg_seq seg) \<or>
                        snd_wl1 s = sg_seq seg \<and> tcp_seq_before (snd_wl2 s + 1) (sg_ack_seq seg))
                    then s\<lparr>snd_wnd := sg_window seg, snd_wl1 := sg_seq seg, snd_wl2 := sg_ack_seq seg\<rparr> else s, True)
      else (s, True))"

text \<open>
  \<^verbatim>\<open>tcp_rx\<close> after the checksum test and the removal of the header, for a segment that belongs to a socket: first the steps
  for the states with a peer, then the choice by the state.
\<close>

definition tcp_segment_arrives :: "segment \<Rightarrow> tcp_sock \<Rightarrow> tcp_sock" where
  "tcp_segment_arrives seg s =
     (if \<not> tcp_sequence_valid s seg then (if sg_rst seg then s else tcp_send_ack s)
      else if sg_rst seg then tcp_rst s
      else if sg_syn seg
           then socket_state_change SOCKET_UNCONNECTED ((socket_set_last_error ECONNRESET s)\<lparr>tcp_state := TCP_CLOSE\<rparr>)
      else if \<not> sg_ack seg then s
      else case tcp_ack seg s of
             (s, False) \<Rightarrow> s
           | (s, True) \<Rightarrow>
               if tcp_state s = TCP_CLOSING then s
               else if tcp_state s \<in> {TCP_ESTABLISHED, TCP_FIN_WAIT1, TCP_FIN_WAIT2} \<and>
                       (sg_psh seg \<or> sg_fin seg \<or> packet_len seg \<noteq> 0)
                    then tcp_recv_data seg s
               else if sg_fin seg then tcp_fin s else s)"

definition tcp_rx :: "segment \<Rightarrow> tcp_sock \<Rightarrow> tcp_sock" where
  "tcp_rx seg s =
     (case tcp_state s of
        TCP_CLOSE \<Rightarrow> tcp_send_reset seg s
      | TCP_SYN_SENT \<Rightarrow> tcp_syn_sent seg s
      | TCP_LISTEN \<Rightarrow> s
      | _ \<Rightarrow> tcp_segment_arrives seg s)"

end
