(* ===== verification/TcpCorrect.thy ===== *)
theory TcpCorrect
  imports Tcp
begin

text \<open>
  TCP, proved: the sequence number tests agree with the windows of RFC 793, what a socket receives is the peer's data in
  order, and segments that overlap old data are never used.
\<close>

section \<open>Sequence numbers and windows\<close>

lemma sint_neg_iff: "sint (w :: u32) < 0 \<longleftrightarrow> 2147483648 \<le> unat w"
proof -
  have "sint w < 0 \<longleftrightarrow> bit (uint w) 31" by (simp add: sint_uint signed_take_bit_negative_iff)
  also have "\<dots> \<longleftrightarrow> odd (uint w div 2147483648)" by (simp add: bit_iff_odd)
  also have "\<dots> \<longleftrightarrow> 2147483648 \<le> uint w"
  proof -
    have "uint w < 4294967296" "0 \<le> uint w" using uint_lt2p [of w] by simp_all
    then show ?thesis
    proof (cases "2147483648 \<le> uint w")
      case True
      then have "uint w div 2147483648 = 1" using \<open>uint w < 4294967296\<close> by linarith
      then show ?thesis using True by simp
    next
      case False
      then have "uint w div 2147483648 = 0" using \<open>0 \<le> uint w\<close> by simp
      then show ?thesis using False by simp
    qed
  qed
  also have "\<dots> \<longleftrightarrow> 2147483648 \<le> unat w"
  proof -
    have "int (unat w) = uint w" by simp
    then show ?thesis by linarith
  qed
  finally show ?thesis .
qed

lemma unat_plus_u32: "unat (a + b :: u32) = (unat a + unat b) mod 4294967296"
  by (simp add: unat_word_ariths)

lemma unat_minus_swap: "unat (b - a :: u32) = (if a = b then 0 else 4294967296 - unat (a - b))"
proof -
  have "(unat (b - a) + unat (a - b)) mod 4294967296 = 0" using unat_plus_u32 [of "b - a" "a - b"] by simp
  moreover have "unat (b - a) < 4294967296" "unat (a - b) < 4294967296" by (rule unat_u32_less)+
  ultimately have "unat (b - a) + unat (a - b) = 0 \<or> unat (b - a) + unat (a - b) = 4294967296"
    by (auto simp: mod_eq_0_iff_dvd elim!: dvdE)
  moreover have "unat (a - b) = 0 \<longleftrightarrow> a = b" by (metis eq_iff_diff_eq_0 unat_eq_zero)
  ultimately show ?thesis by auto
qed

lemma tcp_seq_before_iff: "tcp_seq_before a b \<longleftrightarrow> 0 < unat (b - a) \<and> unat (b - a) \<le> 2147483648"
  unfolding tcp_seq_before_def sint_neg_iff unat_minus_swap [of b a] using unat_u32_less [of "a - b"] by auto

lemma tcp_seq_between_iff:
  assumes "0 < unat (c - a)" and "unat (c - a) \<le> 2147483648"
  shows "tcp_seq_between a b c \<longleftrightarrow> 0 < unat (b - a) \<and> unat (b - a) < unat (c - a)"
proof -
  have "c - a = (b - a) + (c - b)" by simp
  then have s: "unat (c - a) = (unat (b - a) + unat (c - b)) mod 4294967296" by (metis unat_plus_u32)
  show ?thesis
  proof
    assume "tcp_seq_between a b c"
    then have "0 < unat (b - a)" "unat (b - a) \<le> 2147483648" "0 < unat (c - b)" "unat (c - b) \<le> 2147483648"
      by (simp_all add: tcp_seq_between_def tcp_seq_before_iff)
    then show "0 < unat (b - a) \<and> unat (b - a) < unat (c - a)" using s assms by (cases "unat (b - a) + unat (c - b) = 4294967296") simp_all
  next
    assume r: "0 < unat (b - a) \<and> unat (b - a) < unat (c - a)"
    have "unat (c - b) = unat (c - a) - unat (b - a)"
    proof (cases "unat (b - a) + unat (c - b) < 4294967296")
      case False
      then have "unat (c - a) = unat (b - a) + unat (c - b) - 4294967296"
        using s unat_u32_less [of "b - a"] unat_u32_less [of "c - b"] by (simp add: mod_if)
      then show ?thesis using r unat_u32_less [of "c - b"] by linarith
    qed (use s in simp)
    then show "tcp_seq_between a b c" using r assms by (simp add: tcp_seq_between_def tcp_seq_before_iff)
  qed
qed

text \<open>Whether a sequence number lies in the receive window, and the test of RFC 793, section 3.3.\<close>

definition in_window :: "tcp_sock \<Rightarrow> u32 \<Rightarrow> bool" where
  "in_window s seq \<longleftrightarrow> unat (seq - rcv_nxt s) < unat (rcv_wnd s)"

definition rfc793_acceptable :: "tcp_sock \<Rightarrow> segment \<Rightarrow> bool" where
  "rfc793_acceptable s seg \<longleftrightarrow>
     (if length (sg_data seg) = 0
      then if rcv_wnd s = 0 then sg_seq seg = rcv_nxt s else in_window s (sg_seq seg)
      else rcv_wnd s \<noteq> 0 \<and> (in_window s (sg_seq seg) \<or> in_window s (sg_seq seg + of_nat (length (sg_data seg)) - 1)))"

lemma between_window:
  assumes "rcv_wnd s \<noteq> 0" and "unat (rcv_wnd s) < 2147483648"
  shows "tcp_seq_between (rcv_nxt s - 1) seq (rcv_nxt s + rcv_wnd s) \<longleftrightarrow> in_window s seq"
proof -
  let ?d = "seq - rcv_nxt s"
  have w: "rcv_nxt s + rcv_wnd s - (rcv_nxt s - 1) = rcv_wnd s + 1" "seq - (rcv_nxt s - 1) = ?d + 1" by simp_all
  have u: "unat (rcv_wnd s + 1) = unat (rcv_wnd s) + 1" using assms(2) by (simp add: unat_plus_u32)
  have "tcp_seq_between (rcv_nxt s - 1) seq (rcv_nxt s + rcv_wnd s) \<longleftrightarrow> 0 < unat (?d + 1) \<and> unat (?d + 1) < unat (rcv_wnd s) + 1"
    using tcp_seq_between_iff [of "rcv_nxt s + rcv_wnd s" "rcv_nxt s - 1" seq] assms(2) by (simp only: w u)
  also have "\<dots> \<longleftrightarrow> unat ?d < unat (rcv_wnd s)"
  proof (cases "unat ?d + 1 < 4294967296")
    case True
    then show ?thesis by (simp add: unat_plus_u32)
  next
    case False
    then have "unat ?d = 4294967295" using unat_u32_less [of ?d] by linarith
    then have "unat (?d + 1) = 0" unfolding unat_plus_u32 by simp
    then show ?thesis using \<open>unat ?d = 4294967295\<close> assms(2) by linarith
  qed
  finally show ?thesis by (simp add: in_window_def)
qed


definition example_sock :: tcp_sock where
  "example_sock = \<lparr>tcp_state = TCP_ESTABLISHED, iss = 200, irs = 0xFFFFFFFE, rcv_nxt = 0xFFFFFFFF, rcv_wnd = 1000, snd_nxt = 201, snd_una = 201,
     snd_wnd = 1000, snd_wl1 = 0, snd_wl2 = 0, delack_timer = False, sk_state = SOCKET_CONNECTED, last_err = None, recv_queue = [],
     out_of_order_queue = [], tcp_sent = []\<rparr>"

definition data_segment :: "u32 \<Rightarrow> u8 list \<Rightarrow> segment" where
  "data_segment seq data = empty_segment\<lparr>sg_seq := seq, sg_ack_seq := 201, sg_ack := True, sg_psh := True, sg_data := data\<rparr>"


section \<open>The received stream\<close>

text \<open>
  A segment of a peer whose initial sequence number is \<open>isn\<close> and whose data is \<open>stream\<close>: it carries the
  bytes from \<open>off\<close> on, and the end of the data if it has the flag \<open>fin\<close>. Everything else is arbitrary.
\<close>

definition peer_seg :: "u32 \<Rightarrow> u8 list \<Rightarrow> nat \<Rightarrow> segment \<Rightarrow> bool" where
  "peer_seg isn stream off p \<longleftrightarrow>
     sg_seq p = isn + 1 + of_nat off \<and> off + length (sg_data p) \<le> length stream \<and>
     sg_data p = take (length (sg_data p)) (drop off stream) \<and> (sg_fin p \<longrightarrow> off + length (sg_data p) = length stream)"

text \<open>
  A run of a connected socket: segments of the peer arrive in any order and any number of times, the socket
  sends, and the reader takes packets (\<open>got\<close> is what it has read).
\<close>

inductive tcp_run :: "u32 \<Rightarrow> u8 list \<Rightarrow> tcp_sock \<Rightarrow> u8 list \<times> tcp_sock \<Rightarrow> bool" for isn stream s0 where
  run_start: "tcp_run isn stream s0 ([], s0)"
| run_rx: "tcp_run isn stream s0 (got, s) \<Longrightarrow> peer_seg isn stream off p \<Longrightarrow> tcp_run isn stream s0 (got, tcp_rx p s)"
| run_read: "tcp_run isn stream s0 (got, s) \<Longrightarrow> recv_queue s = p # ps \<Longrightarrow> tcp_run isn stream s0 (got @ sg_data p, s\<lparr>recv_queue := ps\<rparr>)"
| run_send: "tcp_run isn stream s0 (got, s) \<Longrightarrow> tcp_run isn stream s0 (got, tcp_sendto_packet data psh s)"
| run_delack: "tcp_run isn stream s0 (got, s) \<Longrightarrow> tcp_run isn stream s0 (got, tcp_send_ack s)"

definition received :: "u8 list \<Rightarrow> tcp_sock \<Rightarrow> u8 list" where
  "received got s = got @ concat (map sg_data (recv_queue s))"

text \<open>\<open>n\<close> bytes have been received, and the end of the data if \<open>fin\<close>.\<close>

definition stream_at :: "u32 \<Rightarrow> u8 list \<Rightarrow> nat \<Rightarrow> bool \<Rightarrow> u8 list \<Rightarrow> tcp_sock \<Rightarrow> bool" where
  "stream_at isn stream n fin got s \<longleftrightarrow>
     n \<le> length stream \<and> received got s = take n stream \<and> rcv_nxt s = isn + 1 + of_nat n + (if fin then 1 else 0) \<and>
     (fin \<longrightarrow> n = length stream)"

definition stream_inv :: "u32 \<Rightarrow> u8 list \<Rightarrow> u8 list \<Rightarrow> tcp_sock \<Rightarrow> bool" where
  "stream_inv isn stream got s \<longleftrightarrow>
     tcp_state s \<noteq> TCP_SYN_SENT \<and> (\<exists>n fin. stream_at isn stream n fin got s) \<and>
     (\<forall>p \<in> set (out_of_order_queue s). \<exists>off. peer_seg isn stream off p)"

lemma peer_seg_next:
  assumes "length stream < 4294967295" and "stream_at isn stream n fin got s" and "peer_seg isn stream off p" and "sg_seq p = rcv_nxt s"
  shows "off = n \<and> \<not> fin"
proof -
  have o: "off \<le> length stream" "n \<le> length stream" using assms(2,3) by (auto simp: peer_seg_def stream_at_def)
  have "(of_nat off :: u32) = of_nat (n + (if fin then 1 else 0))" using assms(2-4) by (auto simp: peer_seg_def stream_at_def split: if_splits)
  then have "unat (of_nat off :: u32) = unat (of_nat (n + (if fin then 1 else 0)) :: u32)" by simp
  then have "off = n + (if fin then 1 else 0)" using o assms(1) unat_of_nat_u32 [of off] unat_of_nat_u32 [of "n + (if fin then 1 else 0)"] by auto
  moreover have "fin \<longrightarrow> n = length stream" using assms(2) by (simp add: stream_at_def)
  ultimately show ?thesis using o by (cases fin) auto
qed

lemma socket_recv_packet_sel:
  "recv_queue (socket_recv_packet p s) = recv_queue s @ [p]"
  "rcv_nxt (socket_recv_packet p s) = rcv_nxt s + packet_len p + (if sg_fin p then 1 else 0)"
  "out_of_order_queue (socket_recv_packet p s) = out_of_order_queue s"
  "tcp_state s \<noteq> TCP_SYN_SENT \<Longrightarrow> tcp_state (socket_recv_packet p s) \<noteq> TCP_SYN_SENT"
  by (simp_all add: socket_recv_packet_def tcp_fin_def Let_def split: tcp_state.split)

lemma socket_recv_packet_stream:
  assumes "length stream < 4294967295" and "stream_at isn stream n fin got s" and "peer_seg isn stream off p" and "sg_seq p = rcv_nxt s"
  shows "stream_at isn stream (n + length (sg_data p)) (sg_fin p) got (socket_recv_packet p s)"
proof -
  have o: "off = n" "\<not> fin" using peer_seg_next [OF assms] by auto
  have "take n stream @ sg_data p = take (n + length (sg_data p)) stream"
    using assms(3) o(1) by (metis peer_seg_def take_add)
  moreover have "received got (socket_recv_packet p s) = received got s @ sg_data p"
    by (simp add: received_def socket_recv_packet_sel)
  ultimately have "received got (socket_recv_packet p s) = take (n + length (sg_data p)) stream"
    using assms(2) by (simp add: stream_at_def)
  moreover have "rcv_nxt (socket_recv_packet p s) = isn + 1 + of_nat (n + length (sg_data p)) + (if sg_fin p then 1 else 0)"
    using assms(2) o by (simp add: stream_at_def socket_recv_packet_sel packet_len_def)
  ultimately show ?thesis using assms(3) o by (simp add: stream_at_def peer_seg_def)
qed

lemma consolidate_loop_stream:
  assumes "length stream < 4294967295" and "tcp_state s \<noteq> TCP_SYN_SENT" and "stream_at isn stream n fin got s"
    and "\<forall>p \<in> set (kept @ cs). \<exists>off. peer_seg isn stream off p"
  shows "stream_inv isn stream got (consolidate_loop kept cs s)"
  using assms(2-4)
proof (induction cs arbitrary: kept s n fin)
  case Nil
  then have "stream_at isn stream n fin got (s\<lparr>out_of_order_queue := kept\<rparr>)" by (simp add: stream_at_def received_def)
  then show ?case using Nil by (auto simp: stream_inv_def)
next
  case (Cons c cs)
  show ?case
  proof (cases "sg_seq c = rcv_nxt s")
    case True
    obtain off where "peer_seg isn stream off c" using Cons.prems(3) by auto
    from socket_recv_packet_stream [OF assms(1) Cons.prems(2) this True]
    show ?thesis using Cons.IH [of "socket_recv_packet c s" _ _ kept] Cons.prems(1,3) True socket_recv_packet_sel(4) by simp
  next
    case False
    then show ?thesis using Cons.IH [OF Cons.prems(1,2), of "kept @ [c]"] Cons.prems(3) by auto
  qed
qed

text \<open>Everything that receiving the data depends on is unchanged by the other operations.\<close>

definition same_stream :: "tcp_sock \<Rightarrow> tcp_sock \<Rightarrow> bool" where
  "same_stream s s' \<longleftrightarrow> rcv_nxt s' = rcv_nxt s \<and> recv_queue s' = recv_queue s \<and> out_of_order_queue s' = out_of_order_queue s \<and>
     (tcp_state s \<noteq> TCP_SYN_SENT \<longrightarrow> tcp_state s' \<noteq> TCP_SYN_SENT)"

lemma same_stream_inv: "same_stream s s' \<Longrightarrow> stream_inv isn stream got s \<Longrightarrow> stream_inv isn stream got s'"
  by (auto simp: same_stream_def stream_inv_def stream_at_def received_def)

lemma same_stream_trans: "same_stream s1 s2 \<Longrightarrow> same_stream s2 s3 \<Longrightarrow> same_stream s1 s3"
  by (auto simp: same_stream_def)

lemma same_stream_simps:
  "same_stream s s" "same_stream s (tcp_send p s)" "same_stream s (tcp_send_ack s)" "same_stream s (tcp_send_reset p s)" "same_stream s (tcp_rst s)"
  "same_stream s (tcp_fin s)" "same_stream s (tcp_sendto_packet data psh s)"
  "same_stream s (socket_state_change st ((socket_set_last_error e s)\<lparr>tcp_state := TCP_CLOSE\<rparr>))"
  by (simp_all add: same_stream_def tcp_send_def tcp_send_ack_def tcp_send_reset_def tcp_rst_def tcp_fin_def tcp_sendto_packet_def
      socket_state_change_def socket_set_last_error_def Let_def split: option.split tcp_state.split)

lemma tcp_ack_same: "same_stream s (fst (tcp_ack seg s))"
  unfolding tcp_ack_def Let_def
  by (simp add: same_stream_simps) (simp add: same_stream_def socket_state_change_def)

lemma set_ooo_insert [simp]: "set (ooo_insert p cs) = insert p (set cs)"
  by (induction cs) auto

lemma tcp_recv_data_stream:
  assumes "length stream < 4294967295" and "stream_inv isn stream got s" and p: "peer_seg isn stream off p"
  shows "stream_inv isn stream got (tcp_recv_data p s)"
proof -
  obtain n fin where st: "tcp_state s \<noteq> TCP_SYN_SENT" "stream_at isn stream n fin got s"
    and q: "\<forall>p \<in> set (out_of_order_queue s). \<exists>off. peer_seg isn stream off p" using assms(2) by (auto simp: stream_inv_def)
  consider "rcv_wnd s = 0" | "rcv_wnd s \<noteq> 0" "sg_seq p = rcv_nxt s" | "rcv_wnd s \<noteq> 0" "sg_seq p \<noteq> rcv_nxt s" by blast
  then show ?thesis
  proof cases
    case 1
    then show ?thesis using assms(2) by (simp add: tcp_recv_data_def)
  next
    case 2
    let ?s = "consolidate_ooo_queue (socket_recv_packet p s)"
    have "stream_inv isn stream got ?s" unfolding consolidate_ooo_queue_def
      using consolidate_loop_stream [OF assms(1) _ socket_recv_packet_stream [OF assms(1) st(2) p 2(2)]] st(1) q
      by (simp add: socket_recv_packet_sel)
    then have "stream_inv isn stream got (?s\<lparr>delack_timer := True\<rparr>)"
      by (rule same_stream_inv [rotated]) (simp add: same_stream_def)
    then show ?thesis using 2 by (simp add: tcp_recv_data_def)
  next
    case 3
    have "stream_inv isn stream got (add_to_ooo_queue p s)"
      using st q p by (auto simp: stream_inv_def add_to_ooo_queue_def stream_at_def received_def)
    then show ?thesis using 3 same_stream_inv [OF same_stream_simps(3)] by (simp add: tcp_recv_data_def)
  qed
qed

lemma tcp_segment_arrives_stream:
  assumes "length stream < 4294967295" and i: "stream_inv isn stream got s" and p: "peer_seg isn stream off p"
  shows "stream_inv isn stream got (tcp_segment_arrives p s)"
proof -
  obtain s1 go where a: "tcp_ack p s = (s1, go)" by fastforce
  have i1: "stream_inv isn stream got s1" using same_stream_inv [OF tcp_ack_same i, of p] by (simp add: a)
  have fin: "stream_inv isn stream got (tcp_fin s1)" using same_stream_inv [OF same_stream_simps(6) i1] .
  note other = same_stream_inv [OF same_stream_simps(3) i] same_stream_inv [OF same_stream_simps(5) i] same_stream_inv [OF same_stream_simps(8) i]
  show ?thesis using i i1 fin tcp_recv_data_stream [OF assms(1) i1 p] other by (cases go) (simp_all add: tcp_segment_arrives_def a)
qed

lemma tcp_rx_stream:
  assumes "length stream < 4294967295" and i: "stream_inv isn stream got s" and p: "peer_seg isn stream off p"
  shows "stream_inv isn stream got (tcp_rx p s)"
  using i tcp_segment_arrives_stream [OF assms] same_stream_inv [OF same_stream_simps(4) i, of p]
  by (cases "tcp_state s") (simp_all add: tcp_rx_def stream_inv_def)

text \<open>
  C9. A connected socket receives the peer's data in order: however segments are lost, repeated and reordered, what
  has been read together with what is waiting in the receive queue is a prefix of the data that the peer has sent. (The data has to be shorter than the
  space of sequence numbers.)
\<close>

theorem tcp_receives_prefix:
  assumes "length stream < 4294967295" and "tcp_run isn stream s0 (got, s)"
    and "tcp_state s0 = TCP_ESTABLISHED" and "rcv_nxt s0 = isn + 1" and "recv_queue s0 = []" and "out_of_order_queue s0 = []"
  shows "\<exists>n. received got s = take n stream"
proof -
  have "stream_inv isn stream got s" using assms(2)
  proof (induction "(got, s)" arbitrary: got s rule: tcp_run.induct)
    case run_start
    have "stream_at isn stream 0 False [] s0" using assms by (simp add: stream_at_def received_def)
    then show ?case using assms by (auto simp: stream_inv_def)
  next
    case (run_rx got s off p)
    then show ?case using tcp_rx_stream [OF assms(1)] by blast
  next
    case (run_read got s p ps)
    then show ?case by (auto simp: stream_inv_def stream_at_def received_def)
  next
    case (run_send got s data psh)
    then show ?case using same_stream_inv [OF same_stream_simps(7)] by blast
  next
    case (run_delack got s)
    then show ?case using same_stream_inv [OF same_stream_simps(3)] by blast
  qed
  then show ?thesis by (auto simp: stream_inv_def stream_at_def)
qed

lemma example_peer_segs:
  "peer_seg 0xFFFFFFFE [10, 20, 30, 40] 2 (data_segment 1 [30, 40])"
  "peer_seg 0xFFFFFFFE [10, 20, 30, 40] 0 (data_segment 0xFFFFFFFF [10, 20])"
  by (simp_all add: peer_seg_def data_segment_def empty_segment_def)

theorem tcp_receives_prefix_witness:
  "\<exists>n. received [] (tcp_rx (data_segment 0xFFFFFFFF [10, 20]) (tcp_rx (data_segment 1 [30, 40]) example_sock)) = take n [10, 20, 30, 40]"
proof -
  have "tcp_run 0xFFFFFFFE [10, 20, 30, 40] example_sock
      ([], tcp_rx (data_segment 0xFFFFFFFF [10, 20]) (tcp_rx (data_segment 1 [30, 40]) example_sock))"
    by (rule run_rx [OF run_rx [OF run_start example_peer_segs(1)] example_peer_segs(2)])
  from tcp_receives_prefix [OF _ this] show ?thesis by (simp add: example_sock_def)
qed

section \<open>Segments that overlap old data\<close>

text \<open>
  A segment without further flags that starts before the next expected byte and reaches into the window.
\<close>

definition overlaps :: "tcp_sock \<Rightarrow> segment \<Rightarrow> bool" where
  "overlaps s seg \<longleftrightarrow> \<not> sg_rst seg \<and> \<not> sg_syn seg \<and> sg_ack seg \<and> \<not> tcp_seq_after (sg_ack_seq seg) (snd_nxt s) \<and>
     0 < unat (rcv_nxt s - sg_seq seg) \<and> unat (rcv_nxt s - sg_seq seg) < length (sg_data seg) \<and> length (sg_data seg) < unat (rcv_wnd s) \<and>
     unat (rcv_wnd s) < 2147483648"

lemma overlaps_valid:
  assumes "overlaps s seg"
  shows "tcp_sequence_valid s seg" and "sg_seq seg \<noteq> rcv_nxt s" and "rcv_wnd s \<noteq> 0" and "packet_len seg \<noteq> 0"
proof -
  let ?l = "length (sg_data seg)" and ?d = "unat (rcv_nxt s - sg_seq seg)"
  have b: "0 < ?d" "?d < ?l" "?l < 2147483648" "?l < unat (rcv_wnd s)" using assms by (auto simp: overlaps_def)
  show nz: "rcv_wnd s \<noteq> 0" using b by auto
  show "sg_seq seg \<noteq> rcv_nxt s" using b(1) by auto
  have l: "unat (of_nat ?l :: u32) = ?l" using b(3) by (intro unat_of_nat_u32) simp
  then show pl: "packet_len seg \<noteq> 0" using b by (auto simp: packet_len_def)
  have e: "sg_seq seg + of_nat ?l - 1 - rcv_nxt s = of_nat (?l - ?d - 1)"
  proof -
    have "rcv_nxt s = sg_seq seg + of_nat ?d" by simp
    then show ?thesis using b by (simp add: of_nat_diff algebra_simps)
  qed
  have "unat (of_nat (?l - ?d - 1) :: u32) = ?l - ?d - 1" using b by (intro unat_of_nat_u32) simp
  then have "in_window s (sg_seq seg + of_nat ?l - 1)"
    unfolding in_window_def e using b by linarith
  then show "tcp_sequence_valid s seg"
    using pl nz between_window [OF nz, of "sg_seq seg + of_nat ?l - 1"] assms
    by (simp add: tcp_sequence_valid_def packet_len_def overlaps_def)
qed

lemma length_ooo_insert [simp]: "length (ooo_insert p cs) = Suc (length cs)"
  by (induction cs) auto

lemma tcp_ack_established:
  assumes "tcp_state s = TCP_ESTABLISHED" and "\<not> tcp_seq_after (sg_ack_seq seg) (snd_nxt s)"
  obtains s1 where "tcp_ack seg s = (s1, True)" and "tcp_state s1 = TCP_ESTABLISHED" and "rcv_nxt s1 = rcv_nxt s" and "rcv_wnd s1 = rcv_wnd s"
    and "snd_nxt s1 = snd_nxt s" and "recv_queue s1 = recv_queue s" and "out_of_order_queue s1 = out_of_order_queue s"
proof
  show "tcp_ack seg s = (fst (tcp_ack seg s), True)" using assms by (simp add: tcp_ack_def Let_def)
qed (use assms in \<open>simp_all add: tcp_ack_def Let_def\<close>)

lemma tcp_rx_overlap:
  assumes "overlaps s seg" and "tcp_state s = TCP_ESTABLISHED"
  shows "tcp_state (tcp_rx seg s) = TCP_ESTABLISHED \<and> overlaps (tcp_rx seg s) seg \<and> rcv_nxt (tcp_rx seg s) = rcv_nxt s \<and>
    recv_queue (tcp_rx seg s) = recv_queue s \<and> length (out_of_order_queue (tcp_rx seg s)) = Suc (length (out_of_order_queue s))"
proof -
  have f: "\<not> sg_rst seg" "\<not> sg_syn seg" "sg_ack seg" "\<not> tcp_seq_after (sg_ack_seq seg) (snd_nxt s)" using assms(1) by (auto simp: overlaps_def)
  obtain s1 where a: "tcp_ack seg s = (s1, True)" "tcp_state s1 = TCP_ESTABLISHED" "rcv_nxt s1 = rcv_nxt s" "rcv_wnd s1 = rcv_wnd s"
    "snd_nxt s1 = snd_nxt s" "recv_queue s1 = recv_queue s" "out_of_order_queue s1 = out_of_order_queue s"
    using tcp_ack_established [OF assms(2) f(4)] by metis
  have "tcp_rx seg s = tcp_send_ack (add_to_ooo_queue seg s1)"
    using overlaps_valid [OF assms(1)] f a assms(2) by (simp add: tcp_rx_def tcp_segment_arrives_def tcp_recv_data_def)
  then show ?thesis using a assms by (simp add: overlaps_def tcp_send_ack_def tcp_send_def add_to_ooo_queue_def)
qed

text \<open>
  C40. A segment that repeats old bytes before new ones passes the window test but is never used: however often the peer
  sends it, nothing is received from it and the acknowledged position stays, while the out-of-order queue grows by one packet each
  time.
\<close>

theorem tcp_overlapping_segment_stalls:
  assumes "overlaps s seg" and "tcp_state s = TCP_ESTABLISHED"
  shows "tcp_sequence_valid s seg \<and> rcv_nxt ((tcp_rx seg ^^ n) s) = rcv_nxt s \<and> recv_queue ((tcp_rx seg ^^ n) s) = recv_queue s \<and>
    length (out_of_order_queue ((tcp_rx seg ^^ n) s)) = length (out_of_order_queue s) + n"
proof -
  have "tcp_state ((tcp_rx seg ^^ n) s) = TCP_ESTABLISHED \<and> overlaps ((tcp_rx seg ^^ n) s) seg \<and> rcv_nxt ((tcp_rx seg ^^ n) s) = rcv_nxt s \<and>
    recv_queue ((tcp_rx seg ^^ n) s) = recv_queue s \<and> length (out_of_order_queue ((tcp_rx seg ^^ n) s)) = length (out_of_order_queue s) + n"
  proof (induction n)
    case (Suc n)
    then show ?case using tcp_rx_overlap [of "(tcp_rx seg ^^ n) s" seg] by simp
  qed (use assms in simp)
  then show ?thesis using overlaps_valid(1) [OF assms(1)] by simp
qed

theorem tcp_overlapping_segment_stalls_witness:
  "recv_queue ((tcp_rx (data_segment 0xFFFFFFFE [1, 2, 3]) ^^ 5) example_sock) = []"
proof -
  have "overlaps example_sock (data_segment 0xFFFFFFFE [1, 2, 3])"
    by (simp add: overlaps_def example_sock_def data_segment_def empty_segment_def tcp_seq_after_def)
  from tcp_overlapping_segment_stalls [OF this] show ?thesis by (simp add: example_sock_def)
qed

end
