(* ===== verification/TcpChecksum.thy ===== *)
theory TcpChecksum
  imports Prelude
begin

text \<open>
  The checksum of \<^verbatim>\<open>net/ipv4/tcp.c\<close>, and its test in \<^verbatim>\<open>net/ipv4/tcp_input.c\<close>: the one's complement sum of the 16-bit words of a
  pseudo header and of the segment. The words are read as the little-endian processor reads them.
\<close>

section \<open>Model\<close>

fun sum_every_16 :: "u8 list \<Rightarrow> u32" where
  "sum_every_16 (a # b # bs) = (ucast a + ucast b * 256) + sum_every_16 bs"
| "sum_every_16 [a] = ucast a"
| "sum_every_16 [] = 0"

lemma unat_drop_16: "unat (drop_bit 16 (w :: u32)) = unat w div 65536"
  by (simp add: drop_bit_eq_div unat_div)

lemma unat_and_FFFF: "unat ((w :: u32) AND 0xFFFF) = unat w mod 65536"
proof -
  have "(0xFFFF :: u32) = mask 16" by (simp add: mask_eq_exp_minus_1)
  then have "w AND 0xFFFF = take_bit 16 w" by (simp add: take_bit_eq_mask)
  then show ?thesis by (simp add: take_bit_eq_mod unat_mod)
qed

lemma unat_fold_step: "unat ((w AND 0xFFFF) + drop_bit 16 w :: u32) = unat w mod 65536 + unat w div 65536"
proof -
  have "unat w div 65536 < 65536" using unat_u32_less [of w] by linarith
  moreover have "unat w mod 65536 < 65536" by simp
  ultimately have "unat w mod 65536 + unat w div 65536 < 4294967296" by linarith
  then show ?thesis by (simp add: unat_word_ariths unat_drop_16 unat_and_FFFF)
qed

lemma drop_16_nonzero: "drop_bit 16 (w :: u32) \<noteq> 0 \<longleftrightarrow> 65536 \<le> unat w"
proof -
  have "drop_bit 16 w = 0 \<longleftrightarrow> unat w div 65536 = 0" by (metis unat_drop_16 unat_eq_zero)
  then show ?thesis by (simp add: div_eq_0_iff linorder_not_less)
qed

lemma fold_step_less: "65536 \<le> n \<Longrightarrow> n mod 65536 + n div 65536 < (n :: nat)"
proof -
  assume "65536 \<le> n"
  then have "0 < n div 65536" by (simp add: div_greater_zero_iff)
  moreover have "n = n div 65536 * 65536 + n mod 65536" by simp
  ultimately show ?thesis by linarith
qed

text \<open>The loop that folds the carries.\<close>

function csum_fold :: "u32 \<Rightarrow> u32" where
  "csum_fold s = (if drop_bit 16 s \<noteq> 0 then csum_fold ((s AND 0xFFFF) + drop_bit 16 s) else s)"
  by auto

termination
proof (relation "measure unat")
  fix w :: u32 assume "drop_bit 16 w \<noteq> 0"
  then show "((w AND 0xFFFF) + drop_bit 16 w, w) \<in> measure unat" using fold_step_less by (simp add: unat_fold_step drop_16_nonzero)
qed simp

declare csum_fold.simps [simp del]

definition tcp_checksum :: "u8 list \<Rightarrow> u8 list \<Rightarrow> u16" where
  "tcp_checksum header data = NOT (ucast (csum_fold (sum_every_16 header + sum_every_16 data)))"

definition tcp_checksum_valid :: "u8 list \<Rightarrow> u8 list \<Rightarrow> bool" where
  "tcp_checksum_valid header data \<longleftrightarrow> tcp_checksum header data = 0"

section \<open>The fold computes the residue modulo 65535\<close>

lemma fold_step_mod: "(n mod 65536 + n div 65536) mod 65535 = n mod (65535 :: nat)"
proof -
  have "n = (n mod 65536 + n div 65536) + n div 65536 * 65535" using div_mult_mod_eq [of n 65536] by linarith
  then show ?thesis by (metis mod_mult_self1)
qed

lemma csum_fold_props:
  "unat (csum_fold w) < 65536 \<and> unat (csum_fold w) mod 65535 = unat w mod 65535 \<and> (unat (csum_fold w) = 0 \<longleftrightarrow> unat w = 0)"
proof (induction w rule: csum_fold.induct)
  case (1 w)
  show ?case
  proof (cases "65536 \<le> unat w")
    case False
    then have "csum_fold w = w" using drop_16_nonzero [of w] by (subst csum_fold.simps) simp
    then show ?thesis using False by simp
  next
    case True
    then have "unat w mod 65536 + unat w div 65536 \<noteq> 0" by (simp add: div_eq_0_iff)
    moreover have "csum_fold w = csum_fold ((w AND 0xFFFF) + drop_bit 16 w)" using True drop_16_nonzero [of w] by (subst csum_fold.simps) simp
    moreover have "unat w \<noteq> 0" using True by simp
    ultimately show ?thesis using 1 True by (simp only: unat_fold_step fold_step_mod drop_16_nonzero simp_thms)
  qed
qed

section \<open>Computing and testing the checksum\<close>

fun sum16 :: "u8 list \<Rightarrow> nat" where
  "sum16 (a # b # bs) = unat a + unat b * 256 + sum16 bs"
| "sum16 [a] = unat a"
| "sum16 [] = 0"

lemma sum16_bound: "sum16 bs \<le> length bs * 32768"
proof (induction bs rule: sum16.induct)
  case (1 a b bs)
  then show ?case using unat_u8_less [of a] unat_u8_less [of b] by simp
next
  case (2 a)
  then show ?case using unat_u8_less [of a] by simp
qed simp

lemma sum_every_16_nat: "sum_every_16 bs = of_nat (sum16 bs)"
  by (induction bs rule: sum16.induct) simp_all

lemma sum16_append: "even (length xs) \<Longrightarrow> sum16 (xs @ ys) = sum16 xs + sum16 ys"
  by (induction xs rule: sum16.induct) simp_all

text \<open>The two bytes of a checksum as they are stored in the header.\<close>

definition store16 :: "u16 \<Rightarrow> u8 list" where
  "store16 c = [ucast c, ucast (drop_bit 8 c)]"

lemma sum16_store16: "sum16 (store16 c @ bs) = unat c + sum16 bs"
proof -
  have "unat (ucast c :: u8) = unat c mod 256" by (simp add: unsigned_ucast_eq take_bit_eq_mod)
  moreover have "unat (ucast (drop_bit 8 c) :: u8) = unat c div 256"
  proof -
    have "unat (drop_bit 8 c) = unat c div 256" by (simp add: drop_bit_eq_div unat_div)
    moreover have "unat c < 65536" using unsigned_less [of c] by simp
    ultimately show ?thesis by (simp add: unsigned_ucast_eq take_bit_eq_mod)
  qed
  ultimately show ?thesis by (simp add: store16_def)
qed

lemma unat_checksum:
  assumes "sum16 header + sum16 data < 4294967296"
  shows "\<exists>f. unat (tcp_checksum header data) = 65535 - f \<and> f < 65536 \<and> f mod 65535 = (sum16 header + sum16 data) mod 65535 \<and>
    (f = 0 \<longleftrightarrow> sum16 header + sum16 data = 0)"
proof -
  let ?w = "sum_every_16 header + sum_every_16 data"
  have w: "unat ?w = sum16 header + sum16 data"
    using unat_of_nat_u32 [OF assms] by (simp add: sum_every_16_nat)
  let ?f = "unat (csum_fold ?w)"
  have "unat (NOT (ucast (csum_fold ?w)) :: u16) = 65535 - ?f"
  proof -
    have "unat (ucast (csum_fold ?w) :: u16) = ?f" using csum_fold_props [of ?w] by (simp add: unsigned_ucast_eq take_bit_eq_mod)
    moreover have "NOT x = - x - 1" for x :: u16 by (simp add: not_eq_complement)
    moreover have "unat (- x - 1 :: u16) = 65535 - unat x" for x
    proof -
      have "- x - 1 = - 1 - x" by simp
      moreover have "unat (- 1 - x) = unat (- 1 :: u16) - unat x" by (rule unat_sub) simp
      moreover have "unat (- 1 :: u16) = 65535" by (simp add: unsigned_minus_1_eq_mask mask_eq_exp_minus_1)
      ultimately show ?thesis by (simp only:)
    qed
    ultimately show ?thesis by simp
  qed
  then show ?thesis using csum_fold_props [of ?w] w by (intro exI [of _ ?f]) (simp add: tcp_checksum_def)
qed

text \<open>
  C25. A segment whose checksum field was zero when the checksum was computed and then was filled with it passes the test
  of the receiver, for every content and length up to the largest packet.
\<close>

theorem tcp_checksum_roundtrip:
  assumes "even (length pre)" and "length header + length pre + length post < 100000"
    and "c = tcp_checksum header (pre @ store16 0 @ post)"
  shows "tcp_checksum_valid header (pre @ store16 c @ post)"
proof -
  let ?S = "sum16 header + sum16 pre + sum16 post"
  have b: "?S + 65535 < 4294967296" using sum16_bound [of header] sum16_bound [of pre] sum16_bound [of post] assms(2) by linarith
  have s: "sum16 header + sum16 (pre @ store16 x @ post) = ?S + unat x" for x
    using assms(1) by (simp add: sum16_append sum16_store16)
  obtain f where f: "unat c = 65535 - f" "f < 65536" "f mod 65535 = ?S mod 65535" "f = 0 \<longleftrightarrow> ?S = 0"
    using unat_checksum [of header "pre @ store16 0 @ post"] b assms(3) by (auto simp: s)
  have c: "sum16 header + sum16 (pre @ store16 c @ post) = ?S + (65535 - f)" by (simp add: s f(1))
  obtain g where g: "unat (tcp_checksum header (pre @ store16 c @ post)) = 65535 - g" "g < 65536" "g mod 65535 = (?S + (65535 - f)) mod 65535"
    "g = 0 \<longleftrightarrow> ?S + (65535 - f) = 0"
    using unat_checksum [of header "pre @ store16 c @ post", unfolded c, OF le_less_trans [OF _ b]] by auto
  have "(?S + (65535 - f)) mod 65535 = (f + (65535 - f)) mod 65535" using f(3) by (metis mod_add_left_eq)
  then have "g mod 65535 = 0" using g(3) f(2) by simp
  moreover have "g \<noteq> 0" using g(4) f(2,4) by (cases "f = 65535") auto
  ultimately have "\<not> g < 65535" by (metis mod_less)
  then have "g = 65535" using g(2) by linarith
  then have "unat (tcp_checksum header (pre @ store16 c @ post)) = 0" using g(1) by simp
  then show ?thesis by (simp add: tcp_checksum_valid_def unat_eq_0)
qed

theorem tcp_checksum_roundtrip_witness:
  "tcp_checksum_valid [192, 168, 0, 1, 10, 0, 0, 1, 0, 6, 0, 5] ([1, 2] @ store16 (tcp_checksum [192, 168, 0, 1, 10, 0, 0, 1, 0, 6, 0, 5] ([1, 2] @ store16 0 @ [7])) @ [7])"
  by (rule tcp_checksum_roundtrip) simp_all

end
