(* ===== verification/Ext2Alloc.thy ===== *)
theory Ext2Alloc
  imports Bitops
begin

text \<open>
  The block allocator of ext2, the first part of \<^verbatim>\<open>src/fs/ext2/bmap.c\<close>. A block group is modelled by its free counter and the
  contents of its bitmap block, as a list of bytes; block numbers are natural numbers, and \<^verbatim>\<open>SECTOR_INVALID\<close> is
  \<^term>\<open>None\<close>. The outer option is an access outside of a bitmap.
\<close>

section \<open>Model\<close>

record ext2_group =
  bg_unused :: u16
  bg_bitmap :: "u8 list"

record ext2_sb =
  block_size :: nat
  blocks_per_group :: nat
  sb_block_total :: nat
  sb_block_number :: nat
  sb_unused :: u32
  groups :: "ext2_group list"

definition group_upd :: "nat \<Rightarrow> (ext2_group \<Rightarrow> ext2_group) \<Rightarrow> ext2_sb \<Rightarrow> ext2_sb" where
  "group_upd i f sb = sb\<lparr>groups := (groups sb)[i := f (groups sb ! i)]\<rparr>"

text \<open>The loop over the groups from \<open>i\<close> on.\<close>

fun ext2_mark_loop :: "nat \<Rightarrow> nat \<Rightarrow> ext2_sb \<Rightarrow> (ext2_sb \<times> nat option) option" where
  "ext2_mark_loop i 0 sb = Some (sb, None)"
| "ext2_mark_loop i (Suc n) sb =
     (let g = groups sb ! i
      in if bg_unused g = 0 then ext2_mark_loop (i + 1) n sb
         else do {
           let max_block_location =
             (if i = length (groups sb) - 1 then sb_block_total sb - i * blocks_per_group sb else blocks_per_group sb);
           location \<leftarrow> bit_find_first_zero (bg_bitmap g) (block_size sb);
           if location \<noteq> -1 \<and> location < int max_block_location
           then do {
             bm \<leftarrow> bit_set (bg_bitmap g) (nat location);
             Some (group_upd i (\<lambda>g. g\<lparr>bg_bitmap := bm, bg_unused := bg_unused g - 1\<rparr>) sb,
                   Some (i * blocks_per_group sb + nat location + sb_block_number sb))
           }
           else ext2_mark_loop (i + 1) n sb
         })"

definition u_ext2_mark_block :: "ext2_sb \<Rightarrow> (ext2_sb \<times> nat option) option" where
  "u_ext2_mark_block sb = ext2_mark_loop 0 (length (groups sb)) sb"

definition ext2_block_alloc :: "ext2_sb \<Rightarrow> (ext2_sb \<times> nat option) option" where
  "ext2_block_alloc sb = do {
     (sb, ret) \<leftarrow> u_ext2_mark_block sb;
     Some (if ret \<noteq> None then sb\<lparr>sb_unused := sb_unused sb - 1\<rparr> else sb, ret)
   }"

text \<open>The part of \<^verbatim>\<open>ext2_block_release\<close> that works on the groups; the block count of the inode is in \<open>Ext2Map\<close>.\<close>

definition ext2_block_free :: "nat \<Rightarrow> ext2_sb \<Rightarrow> ext2_sb option" where
  "ext2_block_free orig_block sb = do {
     let block = orig_block - sb_block_number sb;
     let group = block div blocks_per_group sb;
     let index = block mod blocks_per_group sb;
     bm \<leftarrow> (if sb_block_number sb \<le> orig_block \<and> group < length (groups sb) then bit_clear (bg_bitmap (groups sb ! group)) index else None);
     let sb = group_upd group (\<lambda>g. g\<lparr>bg_bitmap := bm, bg_unused := bg_unused g + 1\<rparr>) sb;
     Some (sb\<lparr>sb_unused := sb_unused sb + 1\<rparr>)
   }"

section \<open>Blocks in use\<close>

definition sb_ok :: "ext2_sb \<Rightarrow> bool" where
  "sb_ok sb \<longleftrightarrow> 0 < blocks_per_group sb \<and> blocks_per_group sb \<le> 8 * block_size sb \<and> 0 < sb_block_number sb \<and>
     (\<forall>g \<in> set (groups sb). length (bg_bitmap g) = block_size sb) \<and>
     sb_block_total sb \<le> length (groups sb) * blocks_per_group sb \<and>
     (length (groups sb) - 1) * blocks_per_group sb \<le> sb_block_total sb"

definition block_used :: "ext2_sb \<Rightarrow> nat \<Rightarrow> bool" where
  "block_used sb b \<longleftrightarrow> sb_block_number sb \<le> b \<and>
     (let k = b - sb_block_number sb; i = k div blocks_per_group sb
      in i < length (groups sb) \<and> bit_at (bg_bitmap (groups sb ! i)) (k mod blocks_per_group sb))"

lemma block_used_at:
  "l < blocks_per_group sb \<Longrightarrow>
   block_used sb (i * blocks_per_group sb + l + sb_block_number sb) \<longleftrightarrow> i < length (groups sb) \<and> bit_at (bg_bitmap (groups sb ! i)) l"
  by (simp add: block_used_def)

lemma block_used_group_upd:
  assumes "sb_ok sb" and "i < length (groups sb)" and "l < blocks_per_group sb"
    and "\<forall>j. bit_at bm j \<longleftrightarrow> (if j = l then v else bit_at (bg_bitmap (groups sb ! i)) j)"
  shows "block_used (group_upd i (\<lambda>g. g\<lparr>bg_bitmap := bm, bg_unused := f g\<rparr>) sb) c \<longleftrightarrow>
    (if c = i * blocks_per_group sb + l + sb_block_number sb then v else block_used sb c)"
proof -
  let ?b = "blocks_per_group sb" and ?n = "sb_block_number sb"
  let ?k = "c - ?n"
  have c: "c = i * ?b + l + ?n \<longleftrightarrow> ?n \<le> c \<and> ?k div ?b = i \<and> ?k mod ?b = l" if "?n \<le> c"
  proof
    assume "c = i * ?b + l + ?n"
    then show "?n \<le> c \<and> ?k div ?b = i \<and> ?k mod ?b = l" using assms(3) by simp
  next
    assume "?n \<le> c \<and> ?k div ?b = i \<and> ?k mod ?b = l"
    then have "?k = i * ?b + l" using div_mult_mod_eq [of ?k ?b] by simp
    then show "c = i * ?b + l + ?n" using that by linarith
  qed
  show ?thesis
  proof (cases "?n \<le> c")
    case True
    show ?thesis using assms(2,4) c [OF True] True
      by (cases "?k div ?b = i") (auto simp: block_used_def group_upd_def Let_def nth_list_update)
  next
    case False
    then show ?thesis by (auto simp: block_used_def group_upd_def)
  qed
qed

lemma sb_ok_group_upd:
  "sb_ok sb \<Longrightarrow> i < length (groups sb) \<Longrightarrow> length bm = block_size sb \<Longrightarrow>
   sb_ok (group_upd i (\<lambda>g. g\<lparr>bg_bitmap := bm, bg_unused := f g\<rparr>) sb)"
  by (auto simp: sb_ok_def group_upd_def dest!: set_update_subset_insert [THEN subsetD])

lemma sb_unused_irrelevant [simp]:
  "sb_ok (sb\<lparr>sb_unused := u\<rparr>) = sb_ok sb" "block_used (sb\<lparr>sb_unused := u\<rparr>) c = block_used sb c"
  by (simp_all add: sb_ok_def block_used_def)

text \<open>What an allocation promises.\<close>

definition alloc_ok :: "ext2_sb \<Rightarrow> ext2_sb \<Rightarrow> nat option \<Rightarrow> bool" where
  "alloc_ok sb sb' r \<longleftrightarrow> sb_ok sb' \<and> block_size sb' = block_size sb \<and>
     (case r of
        None \<Rightarrow> sb' = sb
      | Some b \<Rightarrow> sb_block_number sb \<le> b \<and> b < sb_block_number sb + sb_block_total sb \<and> \<not> block_used sb b \<and>
          (\<forall>c. block_used sb' c \<longleftrightarrow> block_used sb c \<or> c = b))"

definition max_location :: "ext2_sb \<Rightarrow> nat \<Rightarrow> nat" where
  "max_location sb i = (if i = length (groups sb) - 1 then sb_block_total sb - i * blocks_per_group sb else blocks_per_group sb)"

lemma max_location_le:
  assumes "sb_ok sb" and "i < length (groups sb)"
  shows "max_location sb i \<le> blocks_per_group sb"
proof -
  have "sb_block_total sb \<le> i * blocks_per_group sb + blocks_per_group sb" if "i = length (groups sb) - 1"
  proof -
    have "length (groups sb) = Suc i" using that assms(2) by linarith
    then show ?thesis using assms(1) by (simp add: sb_ok_def)
  qed
  then show ?thesis by (simp add: max_location_def) linarith
qed

lemma mark_in_range:
  assumes "sb_ok sb" and "i < length (groups sb)" and "l < max_location sb i"
  shows "i * blocks_per_group sb + l + sb_block_number sb < sb_block_number sb + sb_block_total sb"
proof (cases "i = length (groups sb) - 1")
  case True
  then show ?thesis using assms(3) by (simp add: max_location_def)
next
  case False
  then have "i + 1 \<le> length (groups sb) - 1" using assms(2) by linarith
  then have "(i + 1) * blocks_per_group sb \<le> (length (groups sb) - 1) * blocks_per_group sb" by (rule mult_le_mono1)
  then show ?thesis using assms False by (simp add: sb_ok_def max_location_def)
qed

lemma ext2_mark_loop_ok:
  assumes "sb_ok sb" and "i + n = length (groups sb)"
  shows "\<exists>sb' r. ext2_mark_loop i n sb = Some (sb', r) \<and> alloc_ok sb sb' r"
  using assms(2)
proof (induction n arbitrary: i)
  case 0
  then show ?case using assms(1) by (simp add: alloc_ok_def)
next
  case (Suc n)
  let ?g = "groups sb ! i"
  let ?max = "max_location sb i"
  have i: "i < length (groups sb)" using Suc.prems by simp
  have len: "length (bg_bitmap ?g) = block_size sb" using assms(1) i by (simp add: sb_ok_def)
  obtain r where r: "bit_find_first_zero (bg_bitmap ?g) (block_size sb) = Some r"
    "found False (bg_bitmap ?g) 0 (8 * block_size sb) r"
    using bit_find_first_zero_correct [of "block_size sb" "bg_bitmap ?g"] len by auto
  obtain sb1 r1 where ih: "ext2_mark_loop (i + 1) n sb = Some (sb1, r1)" "alloc_ok sb sb1 r1"
    using Suc.IH [of "i + 1"] Suc.prems by auto
  show ?case
  proof (cases "bg_unused ?g = 0 \<or> r = -1 \<or> \<not> r < int ?max")
    case True
    then show ?thesis using ih r(1) by (auto simp: Let_def max_location_def)
  next
    case False
    let ?l = "nat r"
    have l: "0 \<le> r" "\<not> bit_at (bg_bitmap ?g) ?l" "?l < 8 * block_size sb" using r(2) False by (auto simp: found_def)
    have mx: "?max \<le> blocks_per_group sb" by (rule max_location_le [OF assms(1) i])
    have lt: "?l < ?max" using False l(1) by linarith
    have "\<exists>bm. bit_set (bg_bitmap ?g) ?l = Some bm" using l(3) len by (simp add: bit_set_def less_mult_imp_div_less mult.commute)
    then obtain bm where bm: "bit_set (bg_bitmap ?g) ?l = Some bm" "length bm = block_size sb"
      "\<forall>j. bit_at bm j \<longleftrightarrow> (if j = ?l then True else bit_at (bg_bitmap ?g) j)"
      using bit_set_at [of "bg_bitmap ?g" ?l] len by auto
    let ?b = "i * blocks_per_group sb + ?l + sb_block_number sb"
    let ?sb = "group_upd i (\<lambda>g. g\<lparr>bg_bitmap := bm, bg_unused := bg_unused g - 1\<rparr>) sb"
    have "ext2_mark_loop i (Suc n) sb = Some (?sb, Some ?b)" using False bm(1) r(1) l(1) by (simp add: Let_def max_location_def)
    moreover have "alloc_ok sb ?sb (Some ?b)"
      using block_used_group_upd [OF assms(1) i less_le_trans [OF lt mx] bm(3)] sb_ok_group_upd [OF assms(1) i bm(2)] l(2)
        mark_in_range [OF assms(1) i lt] block_used_at [OF less_le_trans [OF lt mx]]
      by (auto simp: alloc_ok_def) (simp_all add: group_upd_def)
    ultimately show ?thesis by blast
  qed
qed

text \<open>
  The allocator of ext2 returns a block of the file system that was free, marks exactly this block as used, and changes nothing
  when it returns no block; it always returns.
\<close>

lemma ext2_block_alloc_ok:
  assumes "sb_ok sb"
  shows "\<exists>sb' r. ext2_block_alloc sb = Some (sb', r) \<and> alloc_ok sb sb' r"
proof -
  obtain sb' r where m: "ext2_mark_loop 0 (length (groups sb)) sb = Some (sb', r)" "alloc_ok sb sb' r"
    using ext2_mark_loop_ok [OF assms, of 0 "length (groups sb)"] by auto
  then show ?thesis by (cases r) (auto simp: ext2_block_alloc_def u_ext2_mark_block_def alloc_ok_def)
qed

definition example_sb :: ext2_sb where
  "example_sb = \<lparr>block_size = 8, blocks_per_group = 16, sb_block_total = 40, sb_block_number = 1, sb_unused = 30,
     groups = [\<lparr>bg_unused = 0, bg_bitmap = [0xFF, 0xFF, 0, 0, 0, 0, 0, 0]\<rparr>, \<lparr>bg_unused = 14, bg_bitmap = [3, 0, 0, 0, 0, 0, 0, 0]\<rparr>,
       \<lparr>bg_unused = 16, bg_bitmap = replicate 8 0\<rparr>]\<rparr>"

lemma example_sb_ok: "sb_ok example_sb"
  by (simp add: sb_ok_def example_sb_def)

text \<open>Releasing a block makes exactly this block free.\<close>

definition block_in_range :: "ext2_sb \<Rightarrow> nat \<Rightarrow> bool" where
  "block_in_range sb b \<longleftrightarrow> sb_block_number sb \<le> b \<and> (b - sb_block_number sb) div blocks_per_group sb < length (groups sb)"

lemma used_in_range: "block_used sb b \<Longrightarrow> block_in_range sb b"
  by (simp add: block_used_def block_in_range_def Let_def)

definition same_geometry :: "ext2_sb \<Rightarrow> ext2_sb \<Rightarrow> bool" where
  "same_geometry sb sb' \<longleftrightarrow> sb_ok sb' \<and> block_size sb' = block_size sb \<and> blocks_per_group sb' = blocks_per_group sb \<and>
     sb_block_number sb' = sb_block_number sb \<and> length (groups sb') = length (groups sb)"

lemma ext2_block_free_ok:
  assumes "sb_ok sb" and "block_in_range sb b"
  shows "\<exists>sb'. ext2_block_free b sb = Some sb' \<and> same_geometry sb sb' \<and> (\<forall>c. block_used sb' c \<longleftrightarrow> block_used sb c \<and> c \<noteq> b)"
proof -
  let ?k = "b - sb_block_number sb" and ?bpg = "blocks_per_group sb"
  let ?i = "?k div ?bpg" and ?l = "?k mod ?bpg"
  let ?bm = "bg_bitmap (groups sb ! ?i)"
  have i: "?i < length (groups sb)" and n: "sb_block_number sb \<le> b" using assms(2) by (auto simp: block_in_range_def)
  have len: "length ?bm = block_size sb" using assms(1) i by (simp add: sb_ok_def)
  have l: "?l < ?bpg" "?l < 8 * block_size sb" using assms(1) by (auto simp: sb_ok_def intro: less_le_trans [OF mod_less_divisor])
  have "\<exists>bm. bit_clear ?bm ?l = Some bm" using l(2) len by (simp add: bit_clear_def less_mult_imp_div_less mult.commute)
  then obtain bm where bm: "bit_clear ?bm ?l = Some bm" "length bm = block_size sb" "\<forall>j. bit_at bm j \<longleftrightarrow> (if j = ?l then False else bit_at ?bm j)"
    using bit_clear_at [of ?bm ?l] len by auto
  have b: "?i * ?bpg + ?l + sb_block_number sb = b" using n by simp
  show ?thesis using block_used_group_upd [OF assms(1) i l(1) bm(3), unfolded b] sb_ok_group_upd [OF assms(1) i bm(2)] bm(1) i n
    by (auto simp: ext2_block_free_def same_geometry_def Let_def) (simp_all add: group_upd_def)
qed

end
