(* ===== verification/Ext2Map.thy ===== *)
theory Ext2Map
  imports Ext2Alloc Errno
begin

text \<open>
  The block map of ext2, \<^verbatim>\<open>src/fs/ext2/bmap.c\<close>: twelve direct pointers in the inode, and one pointer each to a tree of pointer blocks
  of depth one, two and three. A block is modelled by its content as a list of 32-bit pointers, and a pointer by a natural number; 0 is
  the null pointer and \<^term>\<open>None\<close> is \<^verbatim>\<open>SECTOR_INVALID\<close>.
\<close>

section \<open>Model\<close>

text \<open>The 15 pointers of the inode: the arrays \<^verbatim>\<open>blk_ptrs_direct\<close>, \<^verbatim>\<open>blk_ptrs_single\<close>, \<^verbatim>\<open>blk_ptrs_double\<close> and \<^verbatim>\<open>blk_ptrs_triple\<close> are parts of \<^verbatim>\<open>blk_ptrs\<close>.\<close>

record ext2_inode =
  blk_ptrs :: "nat list"
  i_size :: nat
  i_blocks :: u32
  i_dirty :: bool

record ext2_fs =
  fs_sb :: ext2_sb
  disk :: "nat \<Rightarrow> nat list"

type_synonym ext2_st = "ext2_fs \<times> ext2_inode"

definition ptrs_per_blk :: "ext2_fs \<Rightarrow> nat" where
  "ptrs_per_blk fs = block_size (fs_sb fs) div 4"

definition EXT2_BLOCKS_SECTOR_SIZE :: nat where
  "EXT2_BLOCKS_SECTOR_SIZE = 512"

definition blk_write :: "nat \<Rightarrow> nat \<Rightarrow> nat \<Rightarrow> ext2_st \<Rightarrow> ext2_st" where
  "blk_write b k v = (\<lambda>(fs, inode). (fs\<lparr>disk := (disk fs)(b := (disk fs b)[k := v])\<rparr>, inode))"

definition ext2_block_release :: "nat \<Rightarrow> ext2_st \<Rightarrow> ext2_st option" where
  "ext2_block_release block = (\<lambda>(fs, inode). do {
     sb \<leftarrow> ext2_block_free block (fs_sb fs);
     Some (fs\<lparr>fs_sb := sb\<rparr>, inode\<lparr>i_blocks := i_blocks inode - of_nat (block_size sb div EXT2_BLOCKS_SECTOR_SIZE)\<rparr>)
   })"

definition ext2_alloc_block_zero :: "ext2_st \<Rightarrow> (ext2_st \<times> nat option) option" where
  "ext2_alloc_block_zero = (\<lambda>(fs, inode). do {
     (sb, iblock) \<leftarrow> ext2_block_alloc (fs_sb fs);
     case iblock of
       None \<Rightarrow> Some ((fs\<lparr>fs_sb := sb\<rparr>, inode), None)
     | Some b \<Rightarrow>
         Some ((fs\<lparr>fs_sb := sb, disk := (disk fs)(b := replicate (ptrs_per_blk fs) 0)\<rparr>,
                inode\<lparr>i_blocks := i_blocks inode + of_nat (block_size sb div EXT2_BLOCKS_SECTOR_SIZE)\<rparr>), Some b)
   })"

text \<open>The pointer \<open>p\<close>, or a new block if it is null.\<close>

definition ptr_or_alloc :: "nat \<Rightarrow> ext2_st \<Rightarrow> (ext2_st \<times> nat option) option" where
  "ptr_or_alloc p st = (if p \<noteq> 0 then Some (st, Some p) else ext2_alloc_block_zero st)"

text \<open>The pointer \<open>k\<close> of the inode, which is set to a new block if it is null.\<close>

definition inode_ptr_alloc :: "nat \<Rightarrow> ext2_st \<Rightarrow> (ext2_st \<times> nat option) option" where
  "inode_ptr_alloc k st = do {
     ((fs, inode), new) \<leftarrow> ptr_or_alloc (blk_ptrs (snd st) ! k) st;
     case new of
       None \<Rightarrow> Some ((fs, inode), None)
     | Some b \<Rightarrow> Some ((fs, inode\<lparr>blk_ptrs := (blk_ptrs inode)[k := b]\<rparr>), Some b)
   }"

text \<open>The pointer \<open>k\<close> of the pointer block \<open>b\<close>, which is set to a new block if it is null.\<close>

definition blk_ptr_alloc :: "nat \<Rightarrow> nat \<Rightarrow> ext2_st \<Rightarrow> (ext2_st \<times> nat option) option" where
  "blk_ptr_alloc b k st = do {
     let old = disk (fst st) b ! k;
     (st, new) \<leftarrow> ptr_or_alloc old st;
     case new of
       None \<Rightarrow> Some (st, None)
     | Some c \<Rightarrow> Some (if old = 0 then blk_write b k c st else st, Some c)
   }"

definition ext2_map_indirect :: "nat \<Rightarrow> nat \<Rightarrow> ext2_st \<Rightarrow> (ext2_st \<times> unit kresult) option" where
  "ext2_map_indirect inode_sector alloc_sector st = do {
     let ptrs = ptrs_per_blk (fst st);
     let single_blk = inode_sector div ptrs;
     let direct_blk = inode_sector mod ptrs;
     (st, b) \<leftarrow> inode_ptr_alloc (12 + single_blk) st;
     case b of
       None \<Rightarrow> Some (st, Err ENOSPC)
     | Some b \<Rightarrow> Some (blk_write b direct_blk alloc_sector st, Ok ())
   }"

definition ext2_map_dindirect :: "nat \<Rightarrow> nat \<Rightarrow> ext2_st \<Rightarrow> (ext2_st \<times> unit kresult) option" where
  "ext2_map_dindirect inode_sector alloc_sector st = do {
     let ptrs = ptrs_per_blk (fst st);
     let double_blk = inode_sector div ptrs div ptrs;
     let single_blk = (inode_sector div ptrs) mod ptrs;
     let direct_blk = inode_sector mod ptrs;
     (st, b) \<leftarrow> inode_ptr_alloc (13 + double_blk) st;
     case b of
       None \<Rightarrow> Some (st, Err ENOSPC)
     | Some b \<Rightarrow> do {
         (st, indirect_block) \<leftarrow> blk_ptr_alloc b single_blk st;
         case indirect_block of
           None \<Rightarrow> Some (st, Err ENOSPC)
         | Some indirect_block \<Rightarrow> Some (blk_write indirect_block direct_blk alloc_sector st, Ok ())
       }
   }"

definition ext2_map_tindirect :: "nat \<Rightarrow> nat \<Rightarrow> ext2_st \<Rightarrow> (ext2_st \<times> unit kresult) option" where
  "ext2_map_tindirect inode_sector alloc_sector st = do {
     let ptrs = ptrs_per_blk (fst st);
     let triple_blk = inode_sector div ptrs div ptrs div ptrs;
     let double_blk = (inode_sector div ptrs div ptrs) mod ptrs;
     let single_blk = (inode_sector div ptrs) mod ptrs;
     let direct_blk = inode_sector mod ptrs;
     (st, b) \<leftarrow> inode_ptr_alloc (14 + triple_blk) st;
     case b of
       None \<Rightarrow> Some (st, Err ENOSPC)
     | Some b \<Rightarrow> do {
         (st, dindirect_block) \<leftarrow> blk_ptr_alloc b double_blk st;
         case dindirect_block of
           None \<Rightarrow> Some (st, Err ENOSPC)
         | Some dindirect_block \<Rightarrow> do {
             (st, indirect_block) \<leftarrow> blk_ptr_alloc dindirect_block single_blk st;
             case indirect_block of
               None \<Rightarrow> Some (st, Err ENOSPC)
             | Some indirect_block \<Rightarrow> Some (blk_write indirect_block direct_blk alloc_sector st, Ok ())
           }
       }
   }"

definition return_sector :: "nat \<Rightarrow> nat option" where
  "return_sector ret = (if ret = 0 then None else Some ret)"

definition ext2_bmap :: "nat \<Rightarrow> ext2_st \<Rightarrow> nat option" where
  "ext2_bmap inode_sector = (\<lambda>(fs, inode).
     let ptrs = ptrs_per_blk fs
     in if inode_sector < 12 then return_sector (blk_ptrs inode ! inode_sector)
        else if inode_sector > i_size inode div block_size (fs_sb fs) then None
        else
          let s = inode_sector - 12
          in if s < 1 * ptrs
             then let single_blk = s div ptrs; direct_blk = s mod ptrs
                  in if blk_ptrs inode ! (12 + single_blk) = 0 then None
                     else return_sector (disk fs (blk_ptrs inode ! (12 + single_blk)) ! direct_blk)
             else
          let s = s - 1 * ptrs
          in if s < 1 * ptrs * ptrs
             then let double_blk = s div ptrs div ptrs; single_blk = (s div ptrs) mod ptrs; direct_blk = s mod ptrs
                  in if blk_ptrs inode ! (13 + double_blk) = 0 then None
                     else let ret = disk fs (blk_ptrs inode ! (13 + double_blk)) ! single_blk
                          in if ret = 0 then None else return_sector (disk fs ret ! direct_blk)
             else
          let s = s - 1 * ptrs * ptrs
          in if s < 1 * ptrs * ptrs * ptrs
             then let triple_blk = s div ptrs div ptrs div ptrs; double_blk = (s div ptrs div ptrs) mod ptrs;
                      single_blk = (s div ptrs) mod ptrs; direct_blk = s mod ptrs
                  in if blk_ptrs inode ! (14 + triple_blk) = 0 then None
                     else let ret = disk fs (blk_ptrs inode ! (14 + triple_blk)) ! double_blk
                          in if ret = 0 then None
                             else let ret = disk fs ret ! single_blk
                                  in if ret = 0 then None else return_sector (disk fs ret ! direct_blk)
             else None)"

definition ext2_map_sector :: "nat \<Rightarrow> nat \<Rightarrow> ext2_st \<Rightarrow> (ext2_st \<times> unit kresult) option" where
  "ext2_map_sector inode_sector ret st =
     (let ptrs = ptrs_per_blk (fst st)
      in if inode_sector < 12 then Some ((fst st, (snd st)\<lparr>blk_ptrs := (blk_ptrs (snd st))[inode_sector := ret]\<rparr>), Ok ())
         else
           let s = inode_sector - 12
           in if s < 1 * ptrs then ext2_map_indirect s ret st
              else
                let s = s - 1 * ptrs
                in if s < 1 * ptrs * ptrs then ext2_map_dindirect s ret st
                   else
                     let s = s - 1 * ptrs * ptrs
                     in if s < 1 * ptrs * ptrs * ptrs then ext2_map_tindirect s ret st else Some (st, Err E2BIG))"

definition ext2_bmap_alloc :: "nat \<Rightarrow> ext2_st \<Rightarrow> (ext2_st \<times> nat option) option" where
  "ext2_bmap_alloc inode_sector st =
     (case ext2_bmap inode_sector st of
        Some ret \<Rightarrow> Some (st, Some ret)
      | None \<Rightarrow> do {
          (st, ret) \<leftarrow> ext2_alloc_block_zero st;
          case ret of
            None \<Rightarrow> Some (st, None)
          | Some ret \<Rightarrow> do {
              (st, err) \<leftarrow> ext2_map_sector inode_sector ret st;
              case err of
                Inl e \<Rightarrow> do {
                  st \<leftarrow> ext2_block_release ret st;
                  Some (st, None)
                }
              | Inr _ \<Rightarrow> Some ((fst st, (snd st)\<lparr>i_dirty := True\<rparr>), Some ret)
            }
        })"

section \<open>The trees of pointer blocks\<close>

text \<open>
  A tree of depth 0 is a data block, a tree of depth \<open>n + 1\<close> a pointer block with \<open>p\<close> pointers to trees of depth \<open>n\<close>.
\<close>

fun tree_get :: "nat \<Rightarrow> (nat \<Rightarrow> nat list) \<Rightarrow> nat \<Rightarrow> nat \<Rightarrow> nat \<Rightarrow> nat" where
  "tree_get p d 0 b j = b"
| "tree_get p d (Suc n) b j = (let c = d b ! (j div p ^ n) in if c = 0 then 0 else tree_get p d n c (j mod p ^ n))"

text \<open>The block \<open>v\<close> is mapped at position \<open>j\<close> of the tree of depth \<open>n + 1\<close>.\<close>

fun tree_map :: "nat \<Rightarrow> nat \<Rightarrow> nat \<Rightarrow> nat \<Rightarrow> nat \<Rightarrow> ext2_st \<Rightarrow> (ext2_st \<times> unit kresult) option" where
  "tree_map p 0 b j v st = Some (blk_write b j v st, Ok ())"
| "tree_map p (Suc n) b j v st = do {
     (st, c) \<leftarrow> blk_ptr_alloc b (j div p ^ Suc n) st;
     case c of None \<Rightarrow> Some (st, Err ENOSPC) | Some c \<Rightarrow> tree_map p n c (j mod p ^ Suc n) v st
   }"

text \<open>Position \<open>j\<close> of the pointer \<open>12 + n\<close> of the inode.\<close>

definition root_map :: "nat \<Rightarrow> nat \<Rightarrow> nat \<Rightarrow> nat \<Rightarrow> ext2_st \<Rightarrow> (ext2_st \<times> unit kresult) option" where
  "root_map p n j v st = do {
     (st, b) \<leftarrow> inode_ptr_alloc (12 + n) st;
     case b of None \<Rightarrow> Some (st, Err ENOSPC) | Some b \<Rightarrow> tree_map p n b j v st
   }"

lemma div_mod_pow:
  "(j :: nat) < p * p \<Longrightarrow> (j div p) mod p = j div p" "(j :: nat) < p * p \<Longrightarrow> j div p div p = 0"
  "(j :: nat) < p * p * p \<Longrightarrow> (j div p div p) mod p = j div (p * p)" "(j :: nat) < p * p * p \<Longrightarrow> j div p div p div p = 0"
  by (simp_all add: less_mult_imp_div_less div_mult2_eq [symmetric] mult.assoc)

lemma ext2_map_indirect_root: "j < ptrs_per_blk (fst st) \<Longrightarrow> ext2_map_indirect j v st = root_map (ptrs_per_blk (fst st)) 0 j v st"
  by (simp add: ext2_map_indirect_def root_map_def cong: option.case_cong)

lemma ext2_map_dindirect_root:
  "j < ptrs_per_blk (fst st) * ptrs_per_blk (fst st) \<Longrightarrow> ext2_map_dindirect j v st = root_map (ptrs_per_blk (fst st)) 1 j v st"
  by (simp add: ext2_map_dindirect_def root_map_def div_mod_pow Let_def cong: option.case_cong)

lemma ext2_map_tindirect_root:
  "j < ptrs_per_blk (fst st) * ptrs_per_blk (fst st) * ptrs_per_blk (fst st) \<Longrightarrow>
   ext2_map_tindirect j v st = root_map (ptrs_per_blk (fst st)) 2 j v st"
proof -
  let ?p = "ptrs_per_blk (fst st)"
  assume j: "j < ?p * ?p * ?p"
  have m: "(j div ?p) mod ?p = j mod (?p * ?p) div ?p" "j mod (?p * ?p) mod ?p = j mod ?p"
    using j by (cases "?p = 0"; simp add: mod_mult2_eq)+
  show ?thesis using div_mod_pow(3,4) [OF j] by (simp add: ext2_map_tindirect_def root_map_def Let_def m numeral_2_eq_2 cong: option.case_cong)
qed

end
