(* ===== verification/Ext2MapCorrect.thy ===== *)
theory Ext2MapCorrect
  imports Ext2Map
begin

text \<open>
  Correctness of the block map: the trees of an inode share no block, \<^verbatim>\<open>ext2_bmap_alloc\<close> keeps them disjoint, maps the sector it is
  asked for, and changes the block of no other sector.
\<close>

section \<open>Well-formed trees\<close>

fun tree_blocks :: "nat \<Rightarrow> (nat \<Rightarrow> nat list) \<Rightarrow> nat \<Rightarrow> nat \<Rightarrow> nat set" where
  "tree_blocks p d 0 b = {b}"
| "tree_blocks p d (Suc n) b = insert b (\<Union>i \<in> {i. i < p \<and> d b ! i \<noteq> 0}. tree_blocks p d n (d b ! i))"

fun tree_ok :: "nat \<Rightarrow> (nat \<Rightarrow> nat list) \<Rightarrow> nat \<Rightarrow> nat \<Rightarrow> bool" where
  "tree_ok p d 0 b \<longleftrightarrow> b \<noteq> 0"
| "tree_ok p d (Suc n) b \<longleftrightarrow> b \<noteq> 0 \<and> length (d b) = p \<and>
     (\<forall>i < p. d b ! i \<noteq> 0 \<longrightarrow> tree_ok p d n (d b ! i) \<and> b \<notin> tree_blocks p d n (d b ! i)) \<and>
     (\<forall>i < p. \<forall>j < p. i \<noteq> j \<longrightarrow> d b ! i \<noteq> 0 \<longrightarrow> d b ! j \<noteq> 0 \<longrightarrow> tree_blocks p d n (d b ! i) \<inter> tree_blocks p d n (d b ! j) = {})"

lemma root_in_blocks: "b \<in> tree_blocks p d n b"
  by (cases n) auto

lemma pos_div_less: "(j :: nat) < p ^ Suc n \<Longrightarrow> j div p ^ n < p \<and> j mod p ^ n < p ^ n"
  by (cases "p = 0") (auto simp: less_mult_imp_div_less)

lemma tree_frame:
  assumes "\<forall>c \<in> tree_blocks p d n b. d' c = d c"
  shows "tree_blocks p d' n b = tree_blocks p d n b \<and> tree_ok p d' n b = tree_ok p d n b"
  using assms
proof (induction n arbitrary: b)
  case (Suc n)
  have b: "d' b = d b" using Suc.prems by simp
  have "tree_blocks p d' n (d b ! i) = tree_blocks p d n (d b ! i) \<and> tree_ok p d' n (d b ! i) = tree_ok p d n (d b ! i)"
    if "i < p" "d b ! i \<noteq> 0" for i using Suc that by auto
  then show ?case by (auto simp: b)
qed simp

lemma tree_get_frame:
  assumes "\<forall>c \<in> tree_blocks p d n b. d' c = d c" and "j < p ^ n"
  shows "tree_get p d' n b j = tree_get p d n b j"
  using assms
proof (induction n arbitrary: b j)
  case (Suc n)
  let ?i = "j div p ^ n"
  have "?i < p" "j mod p ^ n < p ^ n" using pos_div_less [OF Suc.prems(2)] by auto
  then have "d b ! ?i \<noteq> 0 \<Longrightarrow> tree_get p d' n (d b ! ?i) (j mod p ^ n) = tree_get p d n (d b ! ?i) (j mod p ^ n)"
    using Suc by auto
  moreover have "d' b = d b" using Suc.prems by simp
  ultimately show ?case by (simp add: Let_def)
qed simp

lemma tree_zero:
  assumes "d b = replicate p 0" and "b \<noteq> 0"
  shows "tree_ok p d (Suc n) b \<and> tree_blocks p d (Suc n) b = {b}"
  using assms by auto

lemma tree_zero_get:
  assumes "d b = replicate p 0" and "j < p ^ Suc n"
  shows "tree_get p d (Suc n) b j = 0"
  using assms pos_div_less [OF assms(2)] by simp

text \<open>The child \<open>k\<close> of a tree is replaced by the tree \<open>c\<close>; \<open>d'\<close> is the disk afterwards.\<close>

lemma tree_replace:
  assumes ok: "tree_ok p d (Suc n) b" and k: "k < p" and b: "d' b = (d b)[k := c]"
    and c: "tree_ok p d' n c" "b \<notin> tree_blocks p d' n c"
    and others: "\<forall>i < p. i \<noteq> k \<longrightarrow> d b ! i \<noteq> 0 \<longrightarrow>
      (\<forall>x \<in> tree_blocks p d n (d b ! i). d' x = d x) \<and> tree_blocks p d n (d b ! i) \<inter> tree_blocks p d' n c = {}"
  shows "tree_ok p d' (Suc n) b"
    and "tree_blocks p d' (Suc n) b \<subseteq> tree_blocks p d (Suc n) b \<union> tree_blocks p d' n c"
    and "j < p ^ Suc n \<Longrightarrow> tree_get p d' (Suc n) b j = (if j div p ^ n = k then tree_get p d' n c (j mod p ^ n) else tree_get p d (Suc n) b j)"
proof -
  note other = others [rule_format]
  have len: "length (d b) = p" using ok by simp
  have c0: "c \<noteq> 0" using c(1) by (cases n) auto
  have at: "d' b ! i = (if i = k then c else d b ! i)" if "i < p" for i using that b len by (simp add: nth_list_update)
  have fr: "tree_blocks p d' n (d b ! i) = tree_blocks p d n (d b ! i)" "tree_ok p d' n (d b ! i)"
    "b \<notin> tree_blocks p d n (d b ! i)" "tree_blocks p d n (d b ! i) \<inter> tree_blocks p d' n c = {}"
    if "i < p" "i \<noteq> k" "d b ! i \<noteq> 0" for i
    using other [OF that] ok that tree_frame [of p d n "d b ! i" d'] by auto
  have dis: "tree_blocks p d n (d b ! i) \<inter> tree_blocks p d n (d b ! i') = {}"
    if "i < p" "i' < p" "i \<noteq> i'" "d b ! i \<noteq> 0" "d b ! i' \<noteq> 0" for i i' using ok that by simp
  have "tree_blocks p d' n (d' b ! i) \<inter> tree_blocks p d' n (d' b ! i') = {}"
    if "i < p" "i' < p" "i \<noteq> i'" "d' b ! i \<noteq> 0" "d' b ! i' \<noteq> 0" for i i'
    using that fr(1,4) [of i] fr(1,4) [of i'] dis [of i i'] by (cases "i = k"; cases "i' = k") (auto simp: at)
  moreover have "tree_ok p d' n (d' b ! i) \<and> b \<notin> tree_blocks p d' n (d' b ! i)" if "i < p" "d' b ! i \<noteq> 0" for i
    using that fr [of i] c by (cases "i = k") (auto simp: at)
  ultimately show "tree_ok p d' (Suc n) b" using ok b by simp
  have "tree_blocks p d' n (d' b ! i) \<subseteq> tree_blocks p d (Suc n) b \<union> tree_blocks p d' n c" if "i < p" "d' b ! i \<noteq> 0" for i
    using that fr(1) [of i] by (cases "i = k") (auto simp: at)
  then show "tree_blocks p d' (Suc n) b \<subseteq> tree_blocks p d (Suc n) b \<union> tree_blocks p d' n c" by auto
  show "tree_get p d' (Suc n) b j = (if j div p ^ n = k then tree_get p d' n c (j mod p ^ n) else tree_get p d (Suc n) b j)"
    if "j < p ^ Suc n"
  proof -
    let ?i = "j div p ^ n"
    have i: "?i < p" "j mod p ^ n < p ^ n" using pos_div_less [OF that] by auto
    have "tree_get p d' n (d b ! ?i) (j mod p ^ n) = tree_get p d n (d b ! ?i) (j mod p ^ n)" if "?i \<noteq> k" "d b ! ?i \<noteq> 0"
      using other [OF i(1) that] tree_get_frame [OF _ i(2)] by blast
    then show ?thesis using at [OF i(1)] c0 by (simp add: Let_def)
  qed
qed

lemmas tree_unfold = tree_blocks.simps(2) tree_ok.simps(2) tree_get.simps(2)

declare tree_unfold [simp del]

section \<open>One tree\<close>

definition used :: "ext2_st \<Rightarrow> nat \<Rightarrow> bool" where
  "used st = block_used (fs_sb (fst st))"

definition st_ok :: "ext2_st \<Rightarrow> bool" where
  "st_ok st \<longleftrightarrow> sb_ok (fs_sb (fst st)) \<and> 4 \<le> block_size (fs_sb (fst st))"

abbreviation ptrs :: "ext2_st \<Rightarrow> nat" where
  "ptrs st \<equiv> ptrs_per_blk (fst st)"

abbreviation dsk :: "ext2_st \<Rightarrow> nat \<Rightarrow> nat list" where
  "dsk st \<equiv> disk (fst st)"

text \<open>What no operation of the map changes, apart from the pointers of the inode.\<close>

definition keeps :: "ext2_st \<Rightarrow> ext2_st \<Rightarrow> bool" where
  "keeps st st' \<longleftrightarrow> st_ok st' \<and> block_size (fs_sb (fst st')) = block_size (fs_sb (fst st)) \<and> i_size (snd st') = i_size (snd st) \<and>
     blk_ptrs (snd st') = blk_ptrs (snd st) \<and> (\<forall>c. used st c \<longrightarrow> used st' c)"

lemma keeps_trans: "keeps st st1 \<Longrightarrow> keeps st1 st2 \<Longrightarrow> keeps st st2"
  by (simp add: keeps_def)

lemma keeps_refl: "st_ok st \<Longrightarrow> keeps st st"
  by (simp add: keeps_def)

lemma keeps_ptrs: "keeps st st' \<Longrightarrow> ptrs st' = ptrs st"
  by (simp add: keeps_def ptrs_per_blk_def)

lemma keeps_write: "st_ok st \<Longrightarrow> keeps st (blk_write b k v st) \<and> used (blk_write b k v st) = used st \<and> dsk (blk_write b k v st) = (dsk st)(b := (dsk st b)[k := v])"
  by (cases st) (simp add: keeps_def blk_write_def st_ok_def used_def)

definition alloced :: "ext2_st \<Rightarrow> ext2_st \<Rightarrow> nat option \<Rightarrow> bool" where
  "alloced st st' r \<longleftrightarrow> keeps st st' \<and>
    (case r of
       None \<Rightarrow> dsk st' = dsk st \<and> used st' = used st
     | Some b \<Rightarrow> b \<noteq> 0 \<and> \<not> used st b \<and> (\<forall>c. used st' c \<longleftrightarrow> used st c \<or> c = b) \<and> dsk st' = (dsk st)(b := replicate (ptrs st) 0))"

lemma alloc_zero_ok:
  assumes "st_ok st"
  shows "\<exists>st' r. ext2_alloc_block_zero st = Some (st', r) \<and> alloced st st' r"
proof -
  obtain fs inode where st: "st = (fs, inode)" by (cases st)
  have sb: "sb_ok (fs_sb fs)" "4 \<le> block_size (fs_sb fs)" using assms by (simp_all add: st st_ok_def)
  obtain sb' r where a: "ext2_block_alloc (fs_sb fs) = Some (sb', r)" "alloc_ok (fs_sb fs) sb' r"
    using ext2_block_alloc_ok [OF sb(1)] by blast
  have "0 < sb_block_number (fs_sb fs)" using sb by (simp add: sb_ok_def)
  then show ?thesis using a sb
    by (cases r) (auto simp: ext2_alloc_block_zero_def st alloced_def keeps_def st_ok_def used_def alloc_ok_def)
qed

text \<open>
  The tree at \<open>b\<close> is changed: with \<open>u = None\<close> it maps the same blocks as before, with \<open>u = Some (j, v)\<close> it maps \<open>v\<close> at \<open>j\<close>. It
  grows by blocks that were free before, and no other block in use changes.
\<close>

definition updated :: "(nat \<times> nat) option \<Rightarrow> (nat \<Rightarrow> nat) \<Rightarrow> nat \<Rightarrow> nat" where
  "updated u f = (case u of None \<Rightarrow> f | Some (j, v) \<Rightarrow> f(j := v))"

definition tree_step :: "nat \<Rightarrow> nat \<Rightarrow> (nat \<times> nat) option \<Rightarrow> ext2_st \<Rightarrow> ext2_st \<Rightarrow> bool" where
  "tree_step n b u st st' \<longleftrightarrow> keeps st st' \<and> tree_ok (ptrs st) (dsk st') n b \<and>
     tree_blocks (ptrs st) (dsk st') n b \<subseteq> tree_blocks (ptrs st) (dsk st) n b \<union> {c. \<not> used st c \<and> used st' c} \<union> snd ` set_option u \<and>
     (\<forall>i < ptrs st ^ n. tree_get (ptrs st) (dsk st') n b i = updated u (tree_get (ptrs st) (dsk st) n b) i) \<and>
     (\<forall>c. used st c \<longrightarrow> c \<notin> tree_blocks (ptrs st) (dsk st) n b \<longrightarrow> dsk st' c = dsk st c)"

text \<open>A tree that is in use.\<close>

definition tree_at :: "nat \<Rightarrow> nat \<Rightarrow> ext2_st \<Rightarrow> bool" where
  "tree_at n b st \<longleftrightarrow> st_ok st \<and> tree_ok (ptrs st) (dsk st) n b \<and> (\<forall>c \<in> tree_blocks (ptrs st) (dsk st) n b. used st c)"

lemma tree_step_at:
  "tree_at n b st \<Longrightarrow> tree_step n b u st st' \<Longrightarrow> (\<forall>v \<in> snd ` set_option u. used st v) \<Longrightarrow> tree_at n b st'"
  by (auto simp: tree_at_def tree_step_def keeps_ptrs keeps_def)

lemma tree_step_refl: "tree_at n b st \<Longrightarrow> keeps st st' \<Longrightarrow> dsk st' = dsk st \<Longrightarrow> tree_step n b None st st'"
  by (auto simp: tree_step_def tree_at_def updated_def)

lemma tree_step_trans:
  assumes "tree_at n b st" and "tree_step n b None st st1" and "tree_step n b u st1 st2"
  shows "tree_step n b u st st2"
proof -
  have p: "ptrs st1 = ptrs st" using assms(2) keeps_ptrs by (auto simp: tree_step_def)
  have k: "keeps st st2" using assms(2,3) keeps_trans [of st st1 st2] by (simp add: tree_step_def)
  have mono: "used st c \<Longrightarrow> used st1 c" "used st1 c \<Longrightarrow> used st2 c" for c using assms(2,3) by (auto simp: tree_step_def keeps_def)
  have b1: "tree_blocks (ptrs st) (dsk st1) n b \<subseteq> tree_blocks (ptrs st) (dsk st) n b \<union> {c. \<not> used st c \<and> used st1 c}"
    using assms(2) by (simp add: tree_step_def)
  have b2: "tree_blocks (ptrs st) (dsk st2) n b \<subseteq> tree_blocks (ptrs st) (dsk st1) n b \<union> {c. \<not> used st1 c \<and> used st2 c} \<union> snd ` set_option u"
    using assms(3) by (simp add: tree_step_def p)
  have "tree_blocks (ptrs st) (dsk st2) n b \<subseteq> tree_blocks (ptrs st) (dsk st) n b \<union> {c. \<not> used st c \<and> used st2 c} \<union> snd ` set_option u"
    using b1 b2 mono by blast
  moreover have "dsk st2 c = dsk st c" if "used st c" "c \<notin> tree_blocks (ptrs st) (dsk st) n b" for c
  proof -
    have "c \<notin> tree_blocks (ptrs st) (dsk st1) n b" using b1 that by blast
    then show ?thesis using assms(2,3) that mono p by (simp add: tree_step_def)
  qed
  moreover have "tree_get (ptrs st) (dsk st2) n b i = updated u (tree_get (ptrs st) (dsk st) n b) i" if "i < ptrs st ^ n" for i
    using assms(2,3) that p by (auto simp: tree_step_def updated_def split: option.splits)
  ultimately show ?thesis using k assms(3) p by (simp add: tree_step_def)
qed

lemma blocks_of_child: "i < p \<Longrightarrow> d b ! i \<noteq> 0 \<Longrightarrow> tree_blocks p d n (d b ! i) \<subseteq> tree_blocks p d (Suc n) b"
  by (auto simp: tree_unfold)

lemma tree_at_child: "tree_at (Suc n) b st \<Longrightarrow> k < ptrs st \<Longrightarrow> dsk st b ! k \<noteq> 0 \<Longrightarrow> tree_at n (dsk st b ! k) st"
  by (auto simp: tree_at_def tree_unfold)

text \<open>A child is replaced by the tree \<open>c\<close>, or changed, in a step that changes nothing else of the tree.\<close>

lemma tree_step_replace:
  assumes at: "tree_at (Suc n) b st" and k: "k < ptrs st" and kp: "keeps st st'" and b: "dsk st' b = (dsk st b)[k := c]"
    and c: "tree_ok (ptrs st) (dsk st') n c"
      "tree_blocks (ptrs st) (dsk st') n c \<subseteq> (if dsk st b ! k = 0 then {} else tree_blocks (ptrs st) (dsk st) n (dsk st b ! k)) \<union> {c. \<not> used st c \<and> used st' c} \<union> V"
    and V: "V \<inter> tree_blocks (ptrs st) (dsk st) (Suc n) b = {}" "V \<subseteq> snd ` set_option u"
    and fr: "\<And>x. used st x \<Longrightarrow> x \<noteq> b \<Longrightarrow> (dsk st b ! k = 0 \<or> x \<notin> tree_blocks (ptrs st) (dsk st) n (dsk st b ! k)) \<Longrightarrow> dsk st' x = dsk st x"
    and get: "\<And>i. i < ptrs st ^ Suc n \<Longrightarrow> i div ptrs st ^ n = k \<Longrightarrow>
      tree_get (ptrs st) (dsk st') n c (i mod ptrs st ^ n) = updated u (tree_get (ptrs st) (dsk st) (Suc n) b) i"
    and get': "\<And>i f. i div ptrs st ^ n \<noteq> k \<Longrightarrow> updated u f i = f i"
  shows "tree_step (Suc n) b u st st'"
proof -
  let ?p = "ptrs st" and ?d = "dsk st" and ?d' = "dsk st'"
  have ok: "tree_ok ?p ?d (Suc n) b" and us: "\<And>x. x \<in> tree_blocks ?p ?d (Suc n) b \<Longrightarrow> used st x" using at by (auto simp: tree_at_def)
  have bc: "b \<notin> tree_blocks ?p ?d' n c"
    using c(2) ok k V(1) us [of b] by (auto simp: tree_unfold split: if_splits)
  have other: "(\<forall>x \<in> tree_blocks ?p ?d n (?d b ! i). ?d' x = ?d x) \<and> tree_blocks ?p ?d n (?d b ! i) \<inter> tree_blocks ?p ?d' n c = {}"
    if i: "i < ?p" "i \<noteq> k" "?d b ! i \<noteq> 0" for i
  proof -
    have sub: "tree_blocks ?p ?d n (?d b ! i) \<subseteq> tree_blocks ?p ?d (Suc n) b" using i by (auto simp: tree_unfold)
    have nb: "b \<notin> tree_blocks ?p ?d n (?d b ! i)" using ok i by (simp add: tree_unfold)
    have dj: "?d b ! k = 0 \<or> tree_blocks ?p ?d n (?d b ! i) \<inter> tree_blocks ?p ?d n (?d b ! k) = {}" using ok i k by (auto simp: tree_unfold)
    have "?d' x = ?d x" if "x \<in> tree_blocks ?p ?d n (?d b ! i)" for x
      using that fr [of x] us sub nb dj by blast
    moreover have "x \<notin> tree_blocks ?p ?d' n c" if "x \<in> tree_blocks ?p ?d n (?d b ! i)" for x
    proof -
      have "used st x" "x \<notin> V" "?d b ! k = 0 \<or> x \<notin> tree_blocks ?p ?d n (?d b ! k)" using that sub us V(1) dj by blast+
      then show ?thesis using c(2) by (auto split: if_splits)
    qed
    ultimately show ?thesis by blast
  qed
  then have "\<forall>i < ?p. i \<noteq> k \<longrightarrow> ?d b ! i \<noteq> 0 \<longrightarrow>
    (\<forall>x \<in> tree_blocks ?p ?d n (?d b ! i). ?d' x = ?d x) \<and> tree_blocks ?p ?d n (?d b ! i) \<inter> tree_blocks ?p ?d' n c = {}" by blast
  note rep = tree_replace [OF ok k b c(1) bc this]
  have "tree_blocks ?p ?d' (Suc n) b \<subseteq> tree_blocks ?p ?d (Suc n) b \<union> {c. \<not> used st c \<and> used st' c} \<union> snd ` set_option u"
    using rep(2) c(2) V(2) blocks_of_child [OF k, of ?d b n] by (auto split: if_splits)
  moreover have "tree_get ?p ?d' (Suc n) b i = updated u (tree_get ?p ?d (Suc n) b) i" if "i < ?p ^ Suc n" for i
    using rep(3) [OF that] get [OF that] get' by simp
  moreover have "?d' x = ?d x" if "used st x" "x \<notin> tree_blocks ?p ?d (Suc n) b" for x
    using that fr [of x] blocks_of_child [OF k, of ?d b n] root_in_blocks [of b ?p ?d "Suc n"] by blast
  ultimately show ?thesis using kp rep(1) by (simp add: tree_step_def)
qed

text \<open>A pointer is set to a new block of null pointers.\<close>

lemma blk_ptr_alloc_ok:
  assumes at: "tree_at (Suc (Suc n)) b st" and k: "k < ptrs st"
  shows "\<exists>st' r. blk_ptr_alloc b k st = Some (st', r) \<and> tree_step (Suc (Suc n)) b None st st' \<and> (\<forall>c. r = Some c \<longrightarrow> c \<noteq> 0 \<and> dsk st' b ! k = c)"
proof (cases "dsk st b ! k = 0")
  case False
  then show ?thesis using tree_step_refl [OF at] at by (auto simp: blk_ptr_alloc_def ptr_or_alloc_def tree_at_def keeps_refl)
next
  case True
  let ?p = "ptrs st" and ?d = "dsk st"
  have st: "st_ok st" and ok: "tree_ok ?p ?d (Suc (Suc n)) b" and ub: "used st b" and len: "length (?d b) = ?p"
    using at by (auto simp: tree_at_def tree_unfold)
  obtain st1 r where a: "ext2_alloc_block_zero st = Some (st1, r)" "keeps st st1"
    "case r of None \<Rightarrow> dsk st1 = ?d \<and> used st1 = used st
      | Some c \<Rightarrow> c \<noteq> 0 \<and> \<not> used st c \<and> (\<forall>x. used st1 x \<longleftrightarrow> used st x \<or> x = c) \<and> dsk st1 = ?d(c := replicate ?p 0)"
    using alloc_zero_ok [OF st] unfolding alloced_def by blast
  show ?thesis
  proof (cases r)
    case None
    then show ?thesis using a True tree_step_refl [OF at a(2)] by (auto simp: blk_ptr_alloc_def ptr_or_alloc_def)
  next
    case (Some c)
    let ?st = "blk_write b k c st1"
    have c: "c \<noteq> 0" "\<not> used st c" "\<forall>x. used st1 x \<longleftrightarrow> used st x \<or> x = c" "dsk st1 = ?d(c := replicate ?p 0)" using a(3) Some by auto
    have cb: "c \<noteq> b" using ub c(2) by blast
    have w: "keeps st1 ?st" "used ?st = used st1" "dsk ?st = (?d(c := replicate ?p 0))(b := (?d b)[k := c])"
      using keeps_write [of st1 b k c] a(2) c(4) cb by (auto simp: keeps_def)
    have z: "dsk ?st c = replicate ?p 0" using w(3) cb by simp
    note zero = tree_zero [of "dsk ?st" c ?p n, OF z c(1)]
    have "tree_step (Suc (Suc n)) b None st ?st"
    proof (rule tree_step_replace [OF at k keeps_trans [OF a(2) w(1)], where c = c and V = "{}"])
      show "tree_blocks ?p (dsk ?st) (Suc n) c \<subseteq> (if ?d b ! k = 0 then {} else tree_blocks ?p ?d (Suc n) (?d b ! k)) \<union> {c. \<not> used st c \<and> used ?st c} \<union> {}"
        using zero c w(2) by simp
      show "tree_get ?p (dsk ?st) (Suc n) c (i mod ?p ^ Suc n) = updated None (tree_get ?p ?d (Suc (Suc n)) b) i"
        if "i < ?p ^ Suc (Suc n)" "i div ?p ^ Suc n = k" for i
        using tree_zero_get [of "dsk ?st" c ?p "i mod ?p ^ Suc n" n, OF z] pos_div_less [OF that(1)] that(2) True
        by (simp add: updated_def Let_def tree_get.simps(2) [of _ _ "Suc n"] del: power_Suc)
    qed (use zero w(3) cb c(2) in \<open>auto simp: updated_def\<close>)
    moreover have "dsk ?st b ! k = c" using w(3) k len by simp
    ultimately show ?thesis using a(1) Some True c(1) by (simp add: blk_ptr_alloc_def ptr_or_alloc_def)
  qed
qed

text \<open>A step of a child is a step of the tree.\<close>

lemma tree_step_child:
  assumes at: "tree_at (Suc n) b st" and k: "k < ptrs st" "dsk st b ! k \<noteq> 0" and step: "tree_step n (dsk st b ! k) u st st'"
    and u: "\<And>j v. u = Some (j, v) \<Longrightarrow> j < ptrs st ^ n \<and> v \<notin> tree_blocks (ptrs st) (dsk st) (Suc n) b"
  shows "tree_step (Suc n) b (map_option (\<lambda>(j, v). (k * ptrs st ^ n + j, v)) u) st st'"
proof -
  let ?p = "ptrs st" and ?d = "dsk st"
  let ?u = "map_option (\<lambda>(j, v). (k * ?p ^ n + j, v)) u"
  have ok: "tree_ok ?p ?d (Suc n) b" and ub: "used st b" using at by (auto simp: tree_at_def tree_unfold)
  have nb: "b \<notin> tree_blocks ?p ?d n (?d b ! k)" using ok k by (simp add: tree_unfold)
  have eqk: "i = k * ?p ^ n + j \<longleftrightarrow> i div ?p ^ n = k \<and> i mod ?p ^ n = j" if "j < ?p ^ n" for i j
  proof -
    have "(k * ?p ^ n + j) div ?p ^ n = k \<and> (k * ?p ^ n + j) mod ?p ^ n = j" using that by (cases "?p ^ n = 0") simp_all
    then show ?thesis using div_mult_mod_eq [of i "?p ^ n"] by auto
  qed
  show ?thesis
  proof (rule tree_step_replace [OF at k(1), where c = "?d b ! k" and V = "snd ` set_option u"])
    show "keeps st st'" using step by (simp add: tree_step_def)
    show "dsk st' b = (?d b)[k := ?d b ! k]" using step ub nb by (simp add: tree_step_def)
    show "tree_get ?p (dsk st') n (?d b ! k) (i mod ?p ^ n) = updated ?u (tree_get ?p ?d (Suc n) b) i"
      if "i < ?p ^ Suc n" "i div ?p ^ n = k" for i
      using step pos_div_less [OF that(1)] that(2) k(2) u eqk by (cases u) (auto simp: tree_step_def updated_def tree_unfold Let_def)
    show "updated ?u f i = f i" if "i div ?p ^ n \<noteq> k" for i f using that u eqk by (cases u) (auto simp: updated_def)
    show "snd ` set_option u \<inter> tree_blocks ?p ?d (Suc n) b = {}" using u by (cases u) auto
  qed (use step k u in \<open>auto simp: tree_step_def\<close>)
qed

definition step_of :: "nat \<Rightarrow> nat \<Rightarrow> unit kresult \<Rightarrow> (nat \<times> nat) option" where
  "step_of j v e = (case e of Inl _ \<Rightarrow> None | Inr _ \<Rightarrow> Some (j, v))"

lemma tree_write_ok:
  assumes at: "tree_at 1 b st" and j: "j < ptrs st" and v: "v \<noteq> 0" "v \<notin> tree_blocks (ptrs st) (dsk st) 1 b"
  shows "tree_step 1 b (Some (j, v)) st (blk_write b j v st)"
proof -
  let ?st = "blk_write b j v st"
  have w: "keeps st ?st" "dsk ?st = (dsk st)(b := (dsk st b)[j := v])" using keeps_write [of st b j v] at by (auto simp: tree_at_def)
  have "tree_step (Suc 0) b (Some (j, v)) st ?st"
    by (rule tree_step_replace [OF _ j w(1), where c = v and V = "{v}"]) (use at v w(2) in \<open>auto simp: updated_def tree_unfold\<close>)
  then show ?thesis by simp
qed

lemma tree_map_ok:
  assumes "tree_at (Suc n) b st" and "j < ptrs st ^ Suc n" and "v \<noteq> 0" and "used st v" and "v \<notin> tree_blocks (ptrs st) (dsk st) (Suc n) b"
  shows "\<exists>st' e. tree_map (ptrs st) n b j v st = Some (st', e) \<and> tree_step (Suc n) b (step_of j v e) st st'"
  using assms
proof (induction n arbitrary: b j st)
  case 0
  then show ?case using tree_write_ok [of b st j v] by (auto simp: step_of_def)
next
  case (Suc n)
  let ?p = "ptrs st"
  let ?k = "j div ?p ^ Suc n" and ?j = "j mod ?p ^ Suc n"
  have k: "?k < ?p" "?j < ?p ^ Suc n" using pos_div_less [OF Suc.prems(2)] by auto
  obtain st1 r where l: "blk_ptr_alloc b ?k st = Some (st1, r)" "tree_step (Suc (Suc n)) b None st st1"
    "\<forall>c. r = Some c \<longrightarrow> c \<noteq> 0 \<and> dsk st1 b ! ?k = c"
    using blk_ptr_alloc_ok [OF Suc.prems(1) k(1)] by blast
  have at1: "tree_at (Suc (Suc n)) b st1" using tree_step_at [OF Suc.prems(1) l(2)] by simp
  have p1: "ptrs st1 = ?p" and kp: "keeps st st1" using l(2) keeps_ptrs by (auto simp: tree_step_def)
  have nv: "v \<notin> tree_blocks (ptrs st1) (dsk st1) (Suc (Suc n)) b" "used st1 v"
    using l(2) Suc.prems(4,5) p1 kp by (auto simp: tree_step_def keeps_def)
  show ?case
  proof (cases r)
    case None
    then show ?thesis using l by (simp add: step_of_def)
  next
    case (Some c)
    have c: "c \<noteq> 0" "dsk st1 b ! ?k = c" using l(3) Some by auto
    have atc: "tree_at (Suc n) c st1" using tree_at_child [OF at1, of ?k] k(1) c p1 by simp
    have "v \<notin> tree_blocks (ptrs st1) (dsk st1) (Suc n) c"
      using nv(1) blocks_of_child [of ?k "ptrs st1" "dsk st1" b "Suc n"] k(1) p1 c by auto
    then obtain st2 e where m: "tree_map ?p n c ?j v st1 = Some (st2, e)" "tree_step (Suc n) c (step_of ?j v e) st1 st2"
      using Suc.IH [OF atc _ Suc.prems(3) nv(2), of ?j] k(2) p1 by auto
    have "tree_step (Suc (Suc n)) b (map_option (\<lambda>(i, v). (?k * ptrs st1 ^ Suc n + i, v)) (step_of ?j v e)) st1 st2"
      using tree_step_child [OF at1, of ?k "step_of ?j v e" st2] k p1 c m(2) nv(1) by (auto simp: step_of_def split: sum.splits)
    moreover have "map_option (\<lambda>(i, v). (?k * ptrs st1 ^ Suc n + i, v)) (step_of ?j v e) = step_of j v e"
      by (simp add: step_of_def p1 div_mult_mod_eq del: power_Suc split: sum.splits)
    ultimately show ?thesis using tree_step_trans [OF Suc.prems(1) l(2)] l(1) Some m(1) by simp
  qed
qed

section \<open>The trees of an inode\<close>

text \<open>Pointer \<open>i\<close> of the inode is the root of a tree of depth \<open>i - 11\<close>, which is 0 for a direct pointer.\<close>

definition inode_get :: "ext2_st \<Rightarrow> nat \<Rightarrow> nat \<Rightarrow> nat" where
  "inode_get st i j = (let b = blk_ptrs (snd st) ! i in if b = 0 then 0 else tree_get (ptrs st) (dsk st) (i - 11) b j)"

definition root_blocks :: "ext2_st \<Rightarrow> nat \<Rightarrow> nat set" where
  "root_blocks st i = (let b = blk_ptrs (snd st) ! i in if b = 0 then {} else tree_blocks (ptrs st) (dsk st) (i - 11) b)"

definition ino_ok :: "ext2_st \<Rightarrow> bool" where
  "ino_ok st \<longleftrightarrow> st_ok st \<and> length (blk_ptrs (snd st)) = 15 \<and>
     (\<forall>i < 15. (blk_ptrs (snd st) ! i \<noteq> 0 \<longrightarrow> tree_ok (ptrs st) (dsk st) (i - 11) (blk_ptrs (snd st) ! i)) \<and> (\<forall>c \<in> root_blocks st i. used st c)) \<and>
     (\<forall>i < 15. \<forall>k < 15. i \<noteq> k \<longrightarrow> root_blocks st i \<inter> root_blocks st k = {})"

lemma ino_ok_used: "ino_ok st \<Longrightarrow> k < 15 \<Longrightarrow> c \<in> root_blocks st k \<Longrightarrow> used st c"
  by (simp add: ino_ok_def)

lemma ino_ok_tree: "ino_ok st \<Longrightarrow> k < 15 \<Longrightarrow> blk_ptrs (snd st) ! k \<noteq> 0 \<Longrightarrow> tree_ok (ptrs st) (dsk st) (k - 11) (blk_ptrs (snd st) ! k)"
  by (simp add: ino_ok_def)

text \<open>The pointer \<open>k\<close> is replaced by the tree \<open>c\<close>, or its tree is changed.\<close>

lemma ino_replace:
  assumes ok: "ino_ok st" and k: "k < 15" and st': "st_ok st'" "ptrs st' = ptrs st" "\<forall>c. used st c \<longrightarrow> used st' c"
    and b: "blk_ptrs (snd st') = (blk_ptrs (snd st))[k := c]"
    and c: "tree_ok (ptrs st) (dsk st') (k - 11) c" "\<forall>x \<in> tree_blocks (ptrs st) (dsk st') (k - 11) c. used st' x \<and> (used st x \<longrightarrow> x \<in> root_blocks st k \<or> x \<in> V)"
    and V: "\<forall>i < 15. V \<inter> root_blocks st i = {}"
    and fr: "\<forall>x. used st x \<longrightarrow> x \<notin> root_blocks st k \<longrightarrow> dsk st' x = dsk st x"
  shows "ino_ok st'" and "i < 15 \<Longrightarrow> i \<noteq> k \<Longrightarrow> j < ptrs st ^ (i - 11) \<Longrightarrow> inode_get st' i j = inode_get st i j"
    and "inode_get st' k j = tree_get (ptrs st) (dsk st') (k - 11) c j"
    and "i < 15 \<Longrightarrow> root_blocks st' i = (if i = k then tree_blocks (ptrs st) (dsk st') (k - 11) c else root_blocks st i)"
proof -
  let ?p = "ptrs st"
  have len: "length (blk_ptrs (snd st)) = 15" using ok by (simp add: ino_ok_def)
  have c0: "c \<noteq> 0" using c(1) by (cases "k - 11") (auto simp: tree_unfold)
  have at: "blk_ptrs (snd st') ! i = (if i = k then c else blk_ptrs (snd st) ! i)" if "i < 15" for i using b len that by (simp add: nth_list_update)
  have rk: "root_blocks st' k = tree_blocks ?p (dsk st') (k - 11) c" using at [OF k] c0 st'(2) by (simp add: root_blocks_def)
  have same: "\<forall>x \<in> root_blocks st i. dsk st' x = dsk st x" if "i < 15" "i \<noteq> k" for i
  proof
    fix x assume x: "x \<in> root_blocks st i"
    have "used st x" "x \<notin> root_blocks st k" using ok that k x unfolding ino_ok_def by blast+
    then show "dsk st' x = dsk st x" using fr by blast
  qed
  have ri: "root_blocks st' i = root_blocks st i \<and> (blk_ptrs (snd st) ! i \<noteq> 0 \<longrightarrow> tree_ok ?p (dsk st') (i - 11) (blk_ptrs (snd st) ! i))" if "i < 15" "i \<noteq> k" for i
    using same [OF that] ok that at [OF that(1)] st'(2) tree_frame [of ?p "dsk st" "i - 11" "blk_ptrs (snd st) ! i" "dsk st'"]
    by (auto simp: root_blocks_def ino_ok_def Let_def)
  have dk: "root_blocks st i \<inter> root_blocks st' k = {}" if "i < 15" "i \<noteq> k" for i
  proof -
    have "x \<notin> root_blocks st i" if "x \<in> root_blocks st' k" for x
      using ok c(2) V that \<open>i < 15\<close> \<open>i \<noteq> k\<close> k unfolding rk ino_ok_def by blast
    then show ?thesis by blast
  qed
  have "root_blocks st' i \<inter> root_blocks st' i' = {}" if "i < 15" "i' < 15" "i \<noteq> i'" for i i'
    using that ri [of i] ri [of i'] dk [of i] dk [of i'] ok by (cases "i = k"; cases "i' = k") (auto simp: ino_ok_def)
  moreover have "(blk_ptrs (snd st') ! i \<noteq> 0 \<longrightarrow> tree_ok ?p (dsk st') (i - 11) (blk_ptrs (snd st') ! i)) \<and> (\<forall>c \<in> root_blocks st' i. used st' c)" if "i < 15" for i
    using that ri [of i] at [OF that] c rk ok st'(3) by (cases "i = k") (auto simp: ino_ok_def)
  ultimately show "ino_ok st'" using st' b len by (simp add: ino_ok_def)
  show "inode_get st' i j = inode_get st i j" if "i < 15" "i \<noteq> k" "j < ?p ^ (i - 11)"
    using same [OF that(1,2)] at [OF that(1)] that st'(2) tree_get_frame [of ?p "dsk st" "i - 11" "blk_ptrs (snd st) ! i" "dsk st'" j]
    by (auto simp: inode_get_def root_blocks_def Let_def)
  show "inode_get st' k j = tree_get ?p (dsk st') (k - 11) c j" using at [OF k] c0 st'(2) by (simp add: inode_get_def)
  show "root_blocks st' i = (if i = k then tree_blocks ?p (dsk st') (k - 11) c else root_blocks st i)" if "i < 15"
    using ri [OF that] rk by simp
qed

text \<open>Position \<open>j\<close> of pointer \<open>i\<close> is changed to \<open>v\<close>, or nothing is, as the result says; new blocks are taken from the free ones.\<close>

definition ino_step :: "nat \<Rightarrow> nat \<Rightarrow> nat \<Rightarrow> ext2_st \<Rightarrow> ext2_st \<Rightarrow> unit kresult \<Rightarrow> bool" where
  "ino_step i j v st st' e \<longleftrightarrow> ino_ok st' \<and> block_size (fs_sb (fst st')) = block_size (fs_sb (fst st)) \<and> i_size (snd st') = i_size (snd st) \<and>
     (\<forall>c. used st c \<longrightarrow> used st' c) \<and>
     (\<forall>k < 15. \<forall>l < ptrs st ^ (k - 11). inode_get st' k l = (if e = Ok () \<and> k = i \<and> l = j then v else inode_get st k l)) \<and>
     (e \<noteq> Ok () \<longrightarrow> (\<forall>k < 15. v \<notin> root_blocks st' k))"

lemma ino_step_trans: "ino_step i j v st st1 (Err e1) \<Longrightarrow> ino_step i j v st1 st2 e \<Longrightarrow> ino_step i j v st st2 e"
  by (simp add: ino_step_def ptrs_per_blk_def)

lemma ino_frame:
  assumes ok: "ino_ok st" and kp: "keeps st st'" and fr: "\<And>x. used st x \<Longrightarrow> dsk st' x = dsk st x"
  shows "ino_ok st'" and "k < 15 \<Longrightarrow> root_blocks st' k = root_blocks st k" and "k < 15 \<Longrightarrow> l < ptrs st ^ (k - 11) \<Longrightarrow> inode_get st' k l = inode_get st k l"
proof -
  have p: "ptrs st' = ptrs st" and b: "blk_ptrs (snd st') = blk_ptrs (snd st)" using kp keeps_ptrs by (auto simp: keeps_def)
  have same: "\<forall>x \<in> root_blocks st k. dsk st' x = dsk st x" if "k < 15" for k using ok fr that by (simp add: ino_ok_def)
  have r: "root_blocks st' k = root_blocks st k \<and> (blk_ptrs (snd st) ! k \<noteq> 0 \<longrightarrow> tree_ok (ptrs st) (dsk st') (k - 11) (blk_ptrs (snd st) ! k))" if "k < 15" for k
    using same [OF that] ok that p b tree_frame [of "ptrs st" "dsk st" "k - 11" "blk_ptrs (snd st) ! k" "dsk st'"]
    by (auto simp: root_blocks_def ino_ok_def Let_def)
  show "ino_ok st'" using ok kp r p b by (auto simp: ino_ok_def keeps_def)
  show "root_blocks st' k = root_blocks st k" if "k < 15" using r [OF that] by simp
  show "inode_get st' k l = inode_get st k l" if "k < 15" "l < ptrs st ^ (k - 11)"
    using same [OF that(1)] that p b tree_get_frame [of "ptrs st" "dsk st" "k - 11" "blk_ptrs (snd st) ! k" "dsk st'" l]
    by (auto simp: inode_get_def root_blocks_def Let_def)
qed

lemma ino_step_keeps:
  assumes "ino_ok st" and "keeps st st'" and "\<And>x. used st x \<Longrightarrow> dsk st' x = dsk st x" and "\<And>k. k < 15 \<Longrightarrow> v \<notin> root_blocks st k"
  shows "ino_step i j v st st' (Err e)"
  using ino_frame [OF assms(1-3)] assms(2,4) by (simp add: ino_step_def keeps_def)

lemma inode_ptr_alloc_ok:
  assumes ok: "ino_ok st" and i: "i < 3" and v: "used st v" "\<And>k. k < 15 \<Longrightarrow> v \<notin> root_blocks st k"
  shows "\<exists>st' r. inode_ptr_alloc (12 + i) st = Some (st', r) \<and> ino_step (12 + i) j v st st' (Err ENOSPC) \<and>
    (\<forall>b. r = Some b \<longrightarrow> b \<noteq> 0 \<and> blk_ptrs (snd st') ! (12 + i) = b)"
proof (cases "blk_ptrs (snd st) ! (12 + i) = 0")
  case False
  have "ino_step (12 + i) j v st st (Err ENOSPC)"
    using ok v(2) by (intro ino_step_keeps keeps_refl) (auto simp: ino_ok_def)
  moreover have "inode_ptr_alloc (12 + i) st = Some (st, Some (blk_ptrs (snd st) ! (12 + i)))"
    using False by (cases st) (simp add: inode_ptr_alloc_def ptr_or_alloc_def)
  ultimately show ?thesis using False by simp
next
  case True
  let ?p = "ptrs st"
  have st: "st_ok st" and len: "length (blk_ptrs (snd st)) = 15" using ok by (auto simp: ino_ok_def)
  obtain st1 r where a1: "ext2_alloc_block_zero st = Some (st1, r)" "alloced st st1 r" using alloc_zero_ok [OF st] by blast
  obtain fs inode where st1: "st1 = (fs, inode)" by (cases st1)
  note a = a1(1) [unfolded st1] a1(2) [unfolded st1 alloced_def, THEN conjunct1] a1(2) [unfolded st1 alloced_def, THEN conjunct2]
  show ?thesis
  proof (cases r)
    case None
    have "ino_step (12 + i) j v st (fs, inode) (Err ENOSPC)" by (rule ino_step_keeps [OF ok a(2) _ v(2)]) (use a(3) None in simp)
    then show ?thesis using a(1) None True by (simp add: inode_ptr_alloc_def ptr_or_alloc_def)
  next
    case (Some c)
    let ?st = "(fs, inode\<lparr>blk_ptrs := (blk_ptrs inode)[12 + i := c]\<rparr>)"
    have c: "c \<noteq> 0" "\<not> used st c" "\<And>x. used ?st x \<longleftrightarrow> used st x \<or> x = c" "dsk ?st = (dsk st)(c := replicate ?p 0)"
      using a(3) Some by (auto simp: used_def)
    have kp: "st_ok ?st" "ptrs ?st = ?p" "blk_ptrs (snd ?st) = (blk_ptrs (snd st))[12 + i := c]" "block_size (fs_sb fs) = block_size (fs_sb (fst st))"
      "i_size inode = i_size (snd st)" using a(2) keeps_ptrs [OF a(2)] by (auto simp: keeps_def st_ok_def)
    have z: "dsk ?st c = replicate ?p 0" using c(4) by simp
    note zero = tree_zero [of "dsk ?st" c ?p i, OF z c(1)] and get0 = tree_zero_get [of "dsk ?st" c ?p _ i, OF z]
    have e: "12 + i - 11 = Suc i" "12 + i < 15" using i by auto
    have r0: "root_blocks st (12 + i) = {}" "inode_get st (12 + i) l = 0" for l using True by (auto simp: root_blocks_def inode_get_def)
    have rep: "tree_ok ?p (dsk ?st) (12 + i - 11) c"
      "\<forall>x \<in> tree_blocks ?p (dsk ?st) (12 + i - 11) c. used ?st x \<and> (used st x \<longrightarrow> x \<in> root_blocks st (12 + i) \<or> x \<in> {})"
      "\<forall>k < 15. {} \<inter> root_blocks st k = {}" "\<forall>x. used st x \<longrightarrow> x \<notin> root_blocks st (12 + i) \<longrightarrow> dsk ?st x = dsk st x"
      using zero c unfolding e(1) by auto
    have mono: "\<forall>x. used st x \<longrightarrow> used ?st x" using c(3) by simp
    note rep = ino_replace [OF ok e(2) kp(1,2) mono kp(3) rep]
    have gk: "inode_get ?st k l = inode_get st k l" if "k < 15" "l < ?p ^ (k - 11)" for k l
      using rep(2) [OF that(1) _ that(2)] rep(3) [of l] get0 [of l] that(2) r0(2) [of l] e(1) by (cases "k = 12 + i") simp_all
    have nv: "v \<notin> root_blocks ?st k" if "k < 15" for k
      using rep(4) [OF that] v(2) [OF that] zero v(1) c(2) by (auto simp: e(1))
    show ?thesis using a(1) Some True c(1) kp len e(2) rep(1) gk nv c(3)
      by (simp add: inode_ptr_alloc_def ptr_or_alloc_def ino_step_def)
  qed
qed

lemma ino_tree_step:
  assumes ok: "ino_ok st" and i: "i < 3" and v: "used st v" "\<And>k. k < 15 \<Longrightarrow> v \<notin> root_blocks st k"
    and b: "b \<noteq> 0" "blk_ptrs (snd st) ! (12 + i) = b" and step: "tree_step (Suc i) b (step_of j v e) st st'"
  shows "ino_step (12 + i) j v st st' e"
proof -
  let ?p = "ptrs st" and ?V = "snd ` set_option (step_of j v e)"
  have e: "12 + i - 11 = Suc i" "12 + i < 15" using i by auto
  have V: "?V \<subseteq> {v}" "e \<noteq> Ok () \<Longrightarrow> ?V = {}" by (auto simp: step_of_def split: sum.splits)
  have rb: "root_blocks st (12 + i) = tree_blocks ?p (dsk st) (Suc i) b" using b by (simp add: root_blocks_def)
  have kp: "keeps st st'" and p: "ptrs st' = ?p" using step keeps_ptrs by (auto simp: tree_step_def)
  have k: "st_ok st'" "\<forall>c. used st c \<longrightarrow> used st' c" "blk_ptrs (snd st') = (blk_ptrs (snd st))[12 + i := b]"
    using kp b(2) by (auto simp: keeps_def)
  have sub: "tree_blocks ?p (dsk st') (Suc i) b \<subseteq> root_blocks st (12 + i) \<union> {c. \<not> used st c \<and> used st' c} \<union> ?V"
    using step by (simp add: tree_step_def rb)
  have "\<forall>c \<in> root_blocks st (12 + i). used st c" using ino_ok_used [OF ok e(2)] by blast
  then have rep: "tree_ok ?p (dsk st') (12 + i - 11) b"
    "\<forall>x \<in> tree_blocks ?p (dsk st') (12 + i - 11) b. used st' x \<and> (used st x \<longrightarrow> x \<in> root_blocks st (12 + i) \<or> x \<in> ?V)"
    "\<forall>k < 15. ?V \<inter> root_blocks st k = {}" "\<forall>x. used st x \<longrightarrow> x \<notin> root_blocks st (12 + i) \<longrightarrow> dsk st' x = dsk st x"
    using step k(2) v V(1) sub unfolding e(1) by (auto simp: tree_step_def rb)
  note rep = ino_replace [OF ok e(2) k(1) p k(2,3) rep]
  have old: "inode_get st (12 + i) l = tree_get ?p (dsk st) (Suc i) b l" for l using b by (simp add: inode_get_def)
  have "inode_get st' k l = (if e = Ok () \<and> k = 12 + i \<and> l = j then v else inode_get st k l)" if "k < 15" "l < ?p ^ (k - 11)" for k l
  proof (cases "k = 12 + i")
    case True
    then have "inode_get st' k l = updated (step_of j v e) (tree_get ?p (dsk st) (Suc i) b) l"
      using rep(3) [of l] step that(2) by (simp add: e(1) tree_step_def)
    then show ?thesis using True old by (auto simp: updated_def step_of_def split: sum.splits)
  next
    case False
    then show ?thesis using rep(2) [OF that(1) _ that(2)] by simp
  qed
  moreover have "v \<notin> root_blocks st' k" if "e \<noteq> Ok ()" "k < 15" for k
    using rep(4) [OF that(2)] v(2) [OF that(2)] v(1) sub V(2) [OF that(1)] by (auto simp: e(1))
  ultimately show ?thesis using rep(1) kp by (simp add: ino_step_def keeps_def)
qed

lemma root_map_ok:
  assumes ok: "ino_ok st" and i: "i < 3" and j: "j < ptrs st ^ Suc i" and v: "v \<noteq> 0" "used st v" "\<And>k. k < 15 \<Longrightarrow> v \<notin> root_blocks st k"
  shows "\<exists>st' e. root_map (ptrs st) i j v st = Some (st', e) \<and> ino_step (12 + i) j v st st' e"
proof -
  obtain st1 r where a: "inode_ptr_alloc (12 + i) st = Some (st1, r)" "ino_step (12 + i) j v st st1 (Err ENOSPC)"
    "\<forall>b. r = Some b \<longrightarrow> b \<noteq> 0 \<and> blk_ptrs (snd st1) ! (12 + i) = b"
    using inode_ptr_alloc_ok [OF ok i v(2,3)] by blast
  show ?thesis
  proof (cases r)
    case None
    then show ?thesis using a by (simp add: root_map_def)
  next
    case (Some b)
    have b: "b \<noteq> 0" "blk_ptrs (snd st1) ! (12 + i) = b" using a(3) Some by auto
    have s1: "ino_ok st1" "used st1 v" "\<And>k. k < 15 \<Longrightarrow> v \<notin> root_blocks st1 k" and p: "ptrs st1 = ptrs st"
      using a(2) v(2) by (auto simp: ino_step_def ptrs_per_blk_def)
    have e: "12 + i - 11 = Suc i" "12 + i < 15" using i by auto
    have rb: "root_blocks st1 (12 + i) = tree_blocks (ptrs st1) (dsk st1) (Suc i) b" using b by (simp add: root_blocks_def)
    have at: "tree_at (Suc i) b st1" using s1(1) ino_ok_used [OF s1(1) e(2)] ino_ok_tree [OF s1(1) e(2)] b rb
      by (simp add: tree_at_def ino_ok_def)
    obtain st2 e' where m: "tree_map (ptrs st) i b j v st1 = Some (st2, e')" "tree_step (Suc i) b (step_of j v e') st1 st2"
      using tree_map_ok [OF at _ v(1) s1(2), of j] j s1(3) [OF e(2)] rb p by auto
    have "ino_step (12 + i) j v st st2 e'" by (rule ino_step_trans [OF a(2) ino_tree_step [OF s1(1) i s1(2,3) b m(2)]])
    then show ?thesis using a(1) Some m(1) by (simp add: root_map_def)
  qed
qed

end
