(* ===== verification/Ext2Bmap.thy ===== *)
theory Ext2Bmap
  imports Ext2MapCorrect
begin

text \<open>
  The sectors of a file: \<^verbatim>\<open>ext2_bmap\<close> looks the sector up in one of the trees of the inode, and after \<^verbatim>\<open>ext2_bmap_alloc\<close> it finds
  the new block there and every other sector where it was.
\<close>

section \<open>The position of a sector\<close>

definition locate :: "nat \<Rightarrow> nat \<Rightarrow> (nat \<times> nat) option" where
  "locate p s =
     (if s < 12 then Some (s, 0)
      else if s - 12 < p then Some (12, s - 12)
      else if s - 12 - p < p * p then Some (13, s - 12 - p)
      else if s - 12 - p - p * p < p * p * p then Some (14, s - 12 - p - p * p)
      else None)"

lemma locate_bounds: "locate p s = Some (i, j) \<Longrightarrow> i < 15 \<and> j < p ^ (i - 11)"
  by (auto simp: locate_def numeral_2_eq_2 numeral_3_eq_3 split: if_splits)

lemma locate_inj: "locate p s = Some ij \<Longrightarrow> locate p s' = Some ij \<Longrightarrow> s = s'"
  by (auto simp: locate_def split: if_splits)

lemma ext2_bmap_locate:
  assumes "length (blk_ptrs (snd st)) = 15"
  shows "ext2_bmap s st =
    (if 12 \<le> s \<and> i_size (snd st) div block_size (fs_sb (fst st)) < s then None
     else case locate (ptrs st) s of None \<Rightarrow> None | Some (i, j) \<Rightarrow> return_sector (inode_get st i j))"
proof -
  obtain fs inode where st: "st = (fs, inode)" by (cases st)
  let ?p = "ptrs_per_blk fs"
  have m: "(j div ?p) mod ?p = j mod (?p * ?p) div ?p" "j mod (?p * ?p) mod ?p = j mod ?p" if "j < ?p * ?p * ?p" for j
    using that by (cases "?p = 0"; simp add: mod_mult2_eq)+
  have t: "tree_get ?p (disk fs) 1 b j = disk fs b ! j"
    "tree_get ?p (disk fs) 2 b j = (let r = disk fs b ! (j div ?p) in if r = 0 then 0 else disk fs r ! (j mod ?p))"
    "j < ?p * ?p * ?p \<Longrightarrow> tree_get ?p (disk fs) 3 b j = (let r = disk fs b ! (j div (?p * ?p)) in if r = 0 then 0
       else let r = disk fs r ! ((j div ?p) mod ?p) in if r = 0 then 0 else disk fs r ! (j mod ?p))" for b j
    using m [of j] by (simp_all add: numeral_2_eq_2 numeral_3_eq_3 tree_unfold Let_def)
  consider "s < 12" | "12 \<le> s" "s - 12 < ?p" | "12 \<le> s" "\<not> s - 12 < ?p" "s - 12 - ?p < ?p * ?p"
    | "12 \<le> s" "\<not> s - 12 < ?p" "\<not> s - 12 - ?p < ?p * ?p" "s - 12 - ?p - ?p * ?p < ?p * ?p * ?p"
    | "12 \<le> s" "\<not> s - 12 < ?p" "\<not> s - 12 - ?p < ?p * ?p" "\<not> s - 12 - ?p - ?p * ?p < ?p * ?p * ?p" using not_less [of s 12] by blast
  then show ?thesis
  proof cases
    case 1
    then show ?thesis by (simp add: st ext2_bmap_def locate_def inode_get_def return_sector_def Let_def)
  next
    case 2
    then show ?thesis using t(1) by (simp add: st ext2_bmap_def locate_def inode_get_def return_sector_def Let_def)
  next
    case 3
    then show ?thesis using t(2) div_mod_pow(1,2) [of "s - 12 - ?p" ?p]
      by (simp add: st ext2_bmap_def locate_def inode_get_def return_sector_def Let_def)
  next
    case 4
    then show ?thesis using t(3) [of "s - 12 - ?p - ?p * ?p"] div_mod_pow(3,4) [of "s - 12 - ?p - ?p * ?p" ?p]
      by (simp add: st ext2_bmap_def locate_def inode_get_def return_sector_def Let_def)
  next
    case 5
    then show ?thesis by (simp add: st ext2_bmap_def locate_def Let_def)
  qed
qed

lemma ext2_map_sector_locate:
  "ext2_map_sector s v st =
    (case locate (ptrs st) s of
       None \<Rightarrow> Some (st, Err E2BIG)
     | Some (i, j) \<Rightarrow> if i < 12 then Some ((fst st, (snd st)\<lparr>blk_ptrs := (blk_ptrs (snd st))[i := v]\<rparr>), Ok ()) else root_map (ptrs st) (i - 12) j v st)"
  by (auto simp: ext2_map_sector_def locate_def Let_def ext2_map_indirect_root ext2_map_dindirect_root ext2_map_tindirect_root)

section \<open>Allocating a sector\<close>

lemma direct_ok:
  assumes ok: "ino_ok st" and i: "i < 12" and v: "v \<noteq> 0" "used st v" "\<And>k. k < 15 \<Longrightarrow> v \<notin> root_blocks st k"
  shows "ino_step i 0 v st (fst st, (snd st)\<lparr>blk_ptrs := (blk_ptrs (snd st))[i := v]\<rparr>) (Ok ())"
proof -
  let ?st = "(fst st, (snd st)\<lparr>blk_ptrs := (blk_ptrs (snd st))[i := v]\<rparr>)"
  have u: "used ?st = used st" "st_ok ?st" "ptrs ?st = ptrs st" "blk_ptrs (snd ?st) = (blk_ptrs (snd st))[i := v]"
    using ok by (simp_all add: used_def st_ok_def ino_ok_def)
  have i': "i < 15" "i - 11 = 0" using i by auto
  have rep: "tree_ok (ptrs st) (dsk ?st) (i - 11) v"
    "\<forall>x \<in> tree_blocks (ptrs st) (dsk ?st) (i - 11) v. used ?st x \<and> (used st x \<longrightarrow> x \<in> root_blocks st i \<or> x \<in> {v})"
    "\<forall>k < 15. {v} \<inter> root_blocks st k = {}" "\<forall>x. used st x \<longrightarrow> x \<notin> root_blocks st i \<longrightarrow> dsk ?st x = dsk st x"
    using v u(1) unfolding i'(2) by auto
  have mono: "\<forall>c. used st c \<longrightarrow> used ?st c" using u(1) by simp
  note rep = ino_replace [OF ok i'(1) u(2,3) mono u(4) rep]
  have "inode_get ?st k l = (if k = i \<and> l = 0 then v else inode_get st k l)" if "k < 15" "l < ptrs st ^ (k - 11)" for k l
    using rep(2) [OF that(1) _ that(2)] rep(3) [of l] that(2) i' by (cases "k = i") auto
  then show ?thesis using rep(1) u by (simp add: ino_step_def)
qed

lemma ext2_map_sector_ok:
  assumes ok: "ino_ok st" and v: "v \<noteq> 0" "used st v" "\<And>k. k < 15 \<Longrightarrow> v \<notin> root_blocks st k" and l: "locate (ptrs st) s = Some (i, j)"
  shows "\<exists>st' e. ext2_map_sector s v st = Some (st', e) \<and> ino_step i j v st st' e"
proof (cases "i < 12")
  case True
  then have "j = 0" using l by (auto simp: locate_def split: if_splits)
  then show ?thesis using direct_ok [OF ok True v] l True by (simp add: ext2_map_sector_locate)
next
  case False
  have b: "i < 15" "j < ptrs st ^ (i - 11)" using locate_bounds [OF l] by auto
  then have i: "i - 12 < 3" "i - 11 = Suc (i - 12)" "12 + (i - 12) = i" using False by auto
  have "j < ptrs st ^ Suc (i - 12)" using b(2) unfolding i(2) .
  from root_map_ok [OF ok i(1) this v] show ?thesis using l False unfolding i(3) by (simp add: ext2_map_sector_locate)
qed

text \<open>Giving back a block that no tree of the inode has.\<close>

lemma ext2_block_release_ok:
  assumes ok: "ino_ok st" and v: "used st v" "\<And>k. k < 15 \<Longrightarrow> v \<notin> root_blocks st k"
  shows "\<exists>st'. ext2_block_release v st = Some st' \<and> ino_ok st' \<and> (\<forall>k l. inode_get st' k l = inode_get st k l) \<and>
    block_size (fs_sb (fst st')) = block_size (fs_sb (fst st)) \<and> i_size (snd st') = i_size (snd st)"
proof -
  obtain fs inode where st: "st = (fs, inode)" by (cases st)
  have sb: "sb_ok (fs_sb fs)" "block_in_range (fs_sb fs) v" using ok v(1) by (simp_all add: st ino_ok_def st_ok_def used_def used_in_range)
  obtain sb' where f: "ext2_block_free v (fs_sb fs) = Some sb'" "sb_ok sb'" "block_size sb' = block_size (fs_sb fs)"
    "\<forall>c. block_used sb' c \<longleftrightarrow> block_used (fs_sb fs) c \<and> c \<noteq> v" using ext2_block_free_ok [OF sb] by (auto simp: same_geometry_def)
  let ?st = "(fs\<lparr>fs_sb := sb'\<rparr>, inode\<lparr>i_blocks := i_blocks inode - of_nat (block_size sb' div EXT2_BLOCKS_SECTOR_SIZE)\<rparr>)"
  have p: "ptrs ?st = ptrs st" using f(3) by (simp add: st ptrs_per_blk_def)
  have r: "root_blocks ?st k = root_blocks st k" "inode_get ?st k l = inode_get st k l" for k l
    using p by (simp_all add: root_blocks_def inode_get_def st Let_def)
  have u: "used ?st c \<longleftrightarrow> used st c \<and> c \<noteq> v" for c using f(4) by (simp add: used_def st)
  have "st_ok ?st" using ok f by (simp add: ino_ok_def st_ok_def st)
  then have "ino_ok ?st" using ok p v(2) u by (auto simp: ino_ok_def r) (simp_all add: st)
  then show ?thesis using f(1,3) r by (simp add: ext2_block_release_def st)
qed

text \<open>Inodes with the same trees and sizes have the same map.\<close>

lemma ext2_bmap_same:
  assumes "length (blk_ptrs (snd st)) = 15" and "length (blk_ptrs (snd st')) = 15" and "block_size (fs_sb (fst st')) = block_size (fs_sb (fst st))"
    and "i_size (snd st') = i_size (snd st)" and "\<And>i j. locate (ptrs st) s = Some (i, j) \<Longrightarrow> inode_get st' i j = inode_get st i j"
  shows "ext2_bmap s st' = ext2_bmap s st"
  using assms by (auto simp: ext2_bmap_locate ptrs_per_blk_def split: option.splits)

lemma ino_ok_length: "ino_ok st \<Longrightarrow> length (blk_ptrs (snd st)) = 15"
  by (simp add: ino_ok_def)

lemma bmap_step_failed:
  assumes "ino_ok st" and "ino_step i j v st st' (Err e)"
  shows "ext2_bmap s st' = ext2_bmap s st"
  using assms locate_bounds [of "ptrs st" s] by (intro ext2_bmap_same ino_ok_length) (auto simp: ino_step_def)

lemma bmap_step_done:
  assumes "ino_ok st" and "ino_step i j v st st' (Ok ())" and l: "locate (ptrs st) s = Some (i, j)" and "v \<noteq> 0"
    and "s < 12 \<or> s \<le> i_size (snd st) div block_size (fs_sb (fst st))"
  shows "ext2_bmap s' st' = (if s' = s then Some v else ext2_bmap s' st)"
proof (cases "s' = s")
  case True
  have "length (blk_ptrs (snd st')) = 15" "inode_get st' i j = v" "ptrs st' = ptrs st"
    "i_size (snd st') = i_size (snd st)" "block_size (fs_sb (fst st')) = block_size (fs_sb (fst st))"
    using assms(2) locate_bounds [OF l] by (auto simp: ino_step_def ino_ok_def ptrs_per_blk_def)
  then show ?thesis using True assms(4,5) l by (auto simp: ext2_bmap_locate return_sector_def)
next
  case False
  have "ext2_bmap s' st' = ext2_bmap s' st"
    using assms(1,2) locate_bounds [of "ptrs st" s'] locate_inj [OF l] False
    by (intro ext2_bmap_same ino_ok_length) (auto simp: ino_step_def)
  then show ?thesis using False by simp
qed

lemma dirty_irrelevant: "ino_ok (fs, inode\<lparr>i_dirty := d\<rparr>) = ino_ok (fs, inode)" "ext2_bmap s (fs, inode\<lparr>i_dirty := d\<rparr>) = ext2_bmap s (fs, inode)"
proof -
  have "root_blocks (fs, inode\<lparr>i_dirty := d\<rparr>) = root_blocks (fs, inode)" "used (fs, inode\<lparr>i_dirty := d\<rparr>) = used (fs, inode)"
    by (simp_all add: fun_eq_iff root_blocks_def used_def Let_def)
  then show "ino_ok (fs, inode\<lparr>i_dirty := d\<rparr>) = ino_ok (fs, inode)" by (simp add: ino_ok_def st_ok_def)
  show "ext2_bmap s (fs, inode\<lparr>i_dirty := d\<rparr>) = ext2_bmap s (fs, inode)" by (simp add: ext2_bmap_def Let_def)
qed

definition maps_sector :: "nat \<Rightarrow> ext2_st \<Rightarrow> ext2_st \<Rightarrow> nat option \<Rightarrow> bool" where
  "maps_sector s st st' r \<longleftrightarrow> ino_ok st' \<and> (\<forall>s'. ext2_bmap s' st' = (if s' = s then r else ext2_bmap s' st))"

lemma map_new_block:
  assumes ok: "ino_ok st" and v: "v \<noteq> 0" "used st v" "\<And>k. k < 15 \<Longrightarrow> v \<notin> root_blocks st k" and s: "ext2_bmap s st = None"
    and size: "s < 12 \<or> s \<le> i_size (snd st) div block_size (fs_sb (fst st))"
  shows "\<exists>st1 e. ext2_map_sector s v st = Some (st1, e) \<and>
    (case e of
       Inl _ \<Rightarrow> \<exists>st2. ext2_block_release v st1 = Some st2 \<and> maps_sector s st st2 None
     | Inr _ \<Rightarrow> maps_sector s st st1 (Some v))"
proof (cases "locate (ptrs st) s")
  case None
  obtain st2 where r: "ext2_block_release v st = Some st2" "ino_ok st2" "\<forall>k l. inode_get st2 k l = inode_get st k l"
    "block_size (fs_sb (fst st2)) = block_size (fs_sb (fst st))" "i_size (snd st2) = i_size (snd st)"
    using ext2_block_release_ok [OF ok v(2,3)] by blast
  have "ext2_bmap s' st2 = ext2_bmap s' st" for s' by (rule ext2_bmap_same) (use ok r in \<open>auto simp: ino_ok_length\<close>)
  then have "maps_sector s st st2 None" using r(2) s by (simp add: maps_sector_def)
  then show ?thesis using None r(1) by (cases st2) (simp add: ext2_map_sector_locate)
next
  case (Some ij)
  obtain i j where l: "locate (ptrs st) s = Some (i, j)" using Some by (cases ij) auto
  obtain st1 e where m: "ext2_map_sector s v st = Some (st1, e)" "ino_step i j v st st1 e"
    using ext2_map_sector_ok [OF ok v l] by blast
  show ?thesis
  proof (cases e)
    case (Inr x)
    then show ?thesis using m bmap_step_done [OF ok _ l v(1) size, of st1] by (auto simp: maps_sector_def ino_step_def)
  next
    case (Inl x)
    have i1: "ino_ok st1" "used st1 v" "\<And>k. k < 15 \<Longrightarrow> v \<notin> root_blocks st1 k" using m(2) Inl v(2) by (auto simp: ino_step_def)
    obtain st2 where r: "ext2_block_release v st1 = Some st2" "ino_ok st2" "\<forall>k l. inode_get st2 k l = inode_get st1 k l"
      "block_size (fs_sb (fst st2)) = block_size (fs_sb (fst st1))" "i_size (snd st2) = i_size (snd st1)"
      using ext2_block_release_ok [OF i1] by blast
    have "ext2_bmap s' st2 = ext2_bmap s' st1" for s' by (rule ext2_bmap_same) (use i1 r in \<open>auto simp: ino_ok_length\<close>)
    then have "maps_sector s st st2 None" using r(2) s bmap_step_failed [OF ok m(2) [unfolded Inl]] by (simp add: maps_sector_def)
    then show ?thesis using m(1) r(1) Inl by (cases st2) simp
  qed
qed

text \<open>
  C10. \<^verbatim>\<open>ext2_bmap_alloc\<close> for a sector of the file returns its block, or a new one that \<^verbatim>\<open>ext2_bmap\<close> then finds for this sector; no
  other sector of the file changes its block, also when the disk becomes full half way, and the trees of pointer blocks stay disjoint.
\<close>

theorem ext2_bmap_alloc_maps:
  assumes "ino_ok st" and "s < 12 \<or> s \<le> i_size (snd st) div block_size (fs_sb (fst st))"
  shows "\<exists>st' r. ext2_bmap_alloc s st = Some (st', r) \<and> ino_ok st' \<and> (\<forall>s'. ext2_bmap s' st' = (if s' = s then r else ext2_bmap s' st))"
proof (cases "ext2_bmap s st")
  case (Some b)
  then show ?thesis using assms(1) by (simp add: ext2_bmap_alloc_def)
next
  case None
  obtain st1 r where a: "ext2_alloc_block_zero st = Some (st1, r)" "alloced st st1 r"
    using alloc_zero_ok [of st] assms(1) by (auto simp: ino_ok_def)
  have kp: "keeps st st1" and fr: "used st x \<Longrightarrow> dsk st1 x = dsk st x" for x using a(2) by (auto simp: alloced_def split: option.splits)
  note f = ino_frame [OF assms(1) kp fr]
  have same: "ext2_bmap s' st1 = ext2_bmap s' st" for s'
    using f assms(1) kp locate_bounds [of "ptrs st" s'] by (intro ext2_bmap_same ino_ok_length) (auto simp: keeps_def)
  show ?thesis
  proof (cases r)
    case None': None
    then show ?thesis using a(1) None same f(1) by (simp add: ext2_bmap_alloc_def)
  next
    case (Some v)
    have v: "v \<noteq> 0" "used st1 v" "v \<notin> root_blocks st1 k" if "k < 15" for k
      using a(2) Some f(2) [OF _ that] ino_ok_used [OF assms(1) that] that by (auto simp: alloced_def)
    have "s < 12 \<or> s \<le> i_size (snd st1) div block_size (fs_sb (fst st1))" using assms(2) kp by (simp add: keeps_def)
    from map_new_block [OF f(1) v(1) [of 0] v(2) [of 0] v(3) _ this] obtain fs inode e where m: "ext2_map_sector s v st1 = Some ((fs, inode), e)"
      "case e of Inl _ \<Rightarrow> \<exists>st2. ext2_block_release v (fs, inode) = Some st2 \<and> maps_sector s st1 st2 None | Inr _ \<Rightarrow> maps_sector s st1 (fs, inode) (Some v)"
      using None same by auto
    show ?thesis
    proof (cases e)
      case (Inl x)
      then obtain st2 where "ext2_block_release v (fs, inode) = Some st2" "maps_sector s st1 st2 None" using m(2) by auto
      then show ?thesis using a(1) None Some same m(1) Inl by (simp add: ext2_bmap_alloc_def maps_sector_def)
    next
      case (Inr x)
      then show ?thesis using a(1) None Some same m by (simp add: ext2_bmap_alloc_def maps_sector_def dirty_irrelevant)
    qed
  qed
qed

definition example_st :: ext2_st where
  "example_st = (\<lparr>fs_sb = example_sb, disk = (\<lambda>b. [0, 0])\<rparr>, \<lparr>blk_ptrs = replicate 15 0, i_size = 200, i_blocks = 0, i_dirty = False\<rparr>)"

lemma example_st_ok: "ino_ok example_st"
  using example_sb_ok by (auto simp: ino_ok_def root_blocks_def example_st_def st_ok_def) (simp add: example_sb_def)

theorem ext2_bmap_alloc_maps_witness:
  "\<exists>st' r. ext2_bmap_alloc 15 example_st = Some (st', r) \<and> r = Some 19 \<and> ext2_bmap 15 st' = Some 19 \<and> ino_ok st'"
proof -
  obtain st' r where a: "ext2_bmap_alloc 15 example_st = Some (st', r)" "ino_ok st'" "\<forall>s'. ext2_bmap s' st' = (if s' = 15 then r else ext2_bmap s' example_st)"
    using ext2_bmap_alloc_maps [OF example_st_ok, of 15] by (auto simp: example_st_def example_sb_def)
  have "map_option snd (ext2_bmap_alloc 15 example_st) = Some (Some 19)" by code_simp
  then have "r = Some 19" using a(1) by simp
  then show ?thesis using a by auto
qed

end
