(* ===== verification/Ext2Truncate.thy ===== *)
theory Ext2Truncate
  imports Ext2Bmap
begin

text \<open>
  Truncation of a file in ext2, \<^verbatim>\<open>src/fs/ext2/truncate.c\<close>. A list of pointers that were taken out of a pointer block is the
  \<^verbatim>\<open>struct tmp_blocks\<close> of the code; the pages that hold these lists and the time stamps of the inode are not modelled.
\<close>

section \<open>Model\<close>

fun tmp_blocks_release_blocks :: "nat list \<Rightarrow> ext2_st \<Rightarrow> ext2_st option" where
  "tmp_blocks_release_blocks [] st = Some st"
| "tmp_blocks_release_blocks (b # bs) st = do { st \<leftarrow> ext2_block_release b st; tmp_blocks_release_blocks bs st }"

text \<open>The loop that moves the pointers of the block \<open>addr\<close> from \<open>starting_block\<close> on to a list.\<close>

definition take_ptrs :: "nat \<Rightarrow> nat \<Rightarrow> ext2_st \<Rightarrow> ext2_st \<times> nat list" where
  "take_ptrs addr starting_block = (\<lambda>(fs, inode).
     let ptrs = disk fs addr
     in ((fs\<lparr>disk := (disk fs)(addr := take starting_block ptrs @ replicate (length ptrs - starting_block) 0)\<rparr>, inode),
         filter (\<lambda>p. p \<noteq> 0) (drop starting_block ptrs)))"

definition truncate_indirect_page :: "nat \<Rightarrow> nat \<Rightarrow> ext2_st \<Rightarrow> ext2_st option" where
  "truncate_indirect_page addr starting_block st =
     (let (st, tmp_indirect) = take_ptrs addr starting_block st in tmp_blocks_release_blocks tmp_indirect st)"

fun truncate_indirect_pages :: "nat list \<Rightarrow> nat \<Rightarrow> ext2_st \<Rightarrow> ext2_st option" where
  "truncate_indirect_pages [] starting_direct_block st = Some st"
| "truncate_indirect_pages (b # bs) starting_direct_block st = do {
     st \<leftarrow> truncate_indirect_page b starting_direct_block st;
     truncate_indirect_pages bs 0 st
   }"

definition truncate_dindirect_page :: "nat \<Rightarrow> nat \<Rightarrow> nat \<Rightarrow> ext2_st \<Rightarrow> ext2_st option" where
  "truncate_dindirect_page addr starting_block starting_direct_block st =
     (let (st, tmp_dindirect) = take_ptrs addr starting_block st
      in do {
        st \<leftarrow> truncate_indirect_pages tmp_dindirect starting_direct_block st;
        tmp_blocks_release_blocks tmp_dindirect st
      })"

fun truncate_dindirect_pages :: "nat list \<Rightarrow> nat \<Rightarrow> nat \<Rightarrow> ext2_st \<Rightarrow> ext2_st option" where
  "truncate_dindirect_pages [] starting_indirect_block starting_direct_block st = Some st"
| "truncate_dindirect_pages (b # bs) starting_indirect_block starting_direct_block st = do {
     st \<leftarrow> truncate_dindirect_page b starting_indirect_block starting_direct_block st;
     truncate_dindirect_pages bs 0 0 st
   }"

definition truncate_tindirect_page :: "nat \<Rightarrow> nat \<Rightarrow> nat \<Rightarrow> nat \<Rightarrow> ext2_st \<Rightarrow> ext2_st option" where
  "truncate_tindirect_page addr starting_block starting_indirect_block starting_direct_block st =
     (let (st, tmp_tindirect) = take_ptrs addr starting_block st
      in do {
        st \<leftarrow> truncate_dindirect_pages tmp_tindirect starting_indirect_block starting_direct_block st;
        tmp_blocks_release_blocks tmp_tindirect st
      })"

text \<open>Pointer \<open>i\<close> of the inode, unless it is null, is released and set to null.\<close>

definition release_ptr :: "nat \<Rightarrow> ext2_st \<Rightarrow> ext2_st option" where
  "release_ptr i st =
     (if blk_ptrs (snd st) ! i = 0 then Some st
      else do {
        (fs, inode) \<leftarrow> ext2_block_release (blk_ptrs (snd st) ! i) st;
        Some (fs, inode\<lparr>blk_ptrs := (blk_ptrs inode)[i := 0]\<rparr>)
      })"

fun release_ptrs :: "nat list \<Rightarrow> ext2_st \<Rightarrow> ext2_st option" where
  "release_ptrs [] st = Some st"
| "release_ptrs (i # is) st = do { st \<leftarrow> release_ptr i st; release_ptrs is st }"

text \<open>One of the trees: \<open>page\<close> truncates its pointer blocks, and the root is released if nothing is kept.\<close>

definition truncate_tree :: "(nat \<Rightarrow> ext2_st \<Rightarrow> ext2_st option) \<Rightarrow> nat \<Rightarrow> nat \<Rightarrow> ext2_st \<Rightarrow> ext2_st option" where
  "truncate_tree page i starting_block st =
     (if blk_ptrs (snd st) ! i = 0 then Some st
      else do {
        st \<leftarrow> page (blk_ptrs (snd st) ! i) st;
        if starting_block = 0 then release_ptr i st else Some st
      })"

definition ext2_inode_truncate_remove :: "nat \<Rightarrow> ext2_st \<Rightarrow> ext2_st option" where
  "ext2_inode_truncate_remove starting_block st = do {
     let p = ptrs_per_blk (fst st);
     st \<leftarrow> (if starting_block < 12 then release_ptrs [starting_block..<12] st else Some st);
     let starting_block = (if starting_block < 12 then 0 else starting_block - 12);
     st \<leftarrow> (if starting_block < p
            then truncate_tree (\<lambda>b. truncate_indirect_page b starting_block) 12 starting_block st else Some st);
     let starting_block = (if starting_block < p then 0 else starting_block - p);
     st \<leftarrow> (if starting_block < p * p
            then let idblock = starting_block div p; dblock = starting_block mod p
                 in truncate_tree (\<lambda>b. truncate_dindirect_page b idblock dblock) 13 starting_block st else Some st);
     let starting_block = (if starting_block < p * p then 0 else starting_block - p * p);
     if starting_block < p * (p * p)
     then let didblock = starting_block div p div p; idblock = (starting_block div p) mod p;
              dblock = starting_block div p div p div p
          in truncate_tree (\<lambda>b. truncate_tindirect_page b didblock idblock dblock) 14 starting_block st
     else Some st
   }"

text \<open>\<^verbatim>\<open>memset\<close> of the bytes of a block from \<open>off\<close> on, on its little-endian words.\<close>

definition clear_tail :: "nat \<Rightarrow> nat list \<Rightarrow> nat list" where
  "clear_tail off ws = take (off div 4) ws @
     (case drop (off div 4) ws of [] \<Rightarrow> [] | w # rest \<Rightarrow> (w mod 256 ^ (off mod 4)) # replicate (length rest) 0)"

definition ext2_inode_truncate :: "nat \<Rightarrow> ext2_st \<Rightarrow> ext2_st option" where
  "ext2_inode_truncate new_size st = do {
     let bs = block_size (fs_sb (fst st));
     let old = i_size (snd st);
     let starting_block = (new_size + (bs - 1)) div bs;
     let ending_block = old div bs;
     (fs, inode) \<leftarrow> (if starting_block \<le> ending_block then ext2_inode_truncate_remove starting_block st else Some st);
     let fs = (if old < new_size
               then case ext2_bmap old (fs, inode) of
                      None \<Rightarrow> fs
                    | Some b \<Rightarrow> fs\<lparr>disk := (disk fs)(b := clear_tail (old mod bs) (disk fs b))\<rparr>
               else fs);
     Some (fs, inode\<lparr>i_size := new_size, i_dirty := True\<rparr>)
   }"

section \<open>Truncation only removes pointers\<close>

definition pointwise_less :: "nat list \<Rightarrow> nat list \<Rightarrow> bool" where
  "pointwise_less xs ys \<longleftrightarrow> length ys = length xs \<and> (\<forall>i < length xs. ys ! i = xs ! i \<or> ys ! i = 0)"

lemma pointwise_less_refl [simp]: "pointwise_less xs xs"
  by (simp add: pointwise_less_def)

lemma pointwise_less_trans: "pointwise_less xs ys \<Longrightarrow> pointwise_less ys zs \<Longrightarrow> pointwise_less xs zs"
  unfolding pointwise_less_def by metis

lemma pointwise_less_set: "pointwise_less xs ys \<Longrightarrow> x \<in> set ys \<Longrightarrow> x \<noteq> 0 \<Longrightarrow> x \<in> set xs"
  unfolding pointwise_less_def by (metis in_set_conv_nth)

lemma pointwise_less_zero: "pointwise_less xs ys \<Longrightarrow> xs ! i = 0 \<Longrightarrow> i < length xs \<Longrightarrow> ys ! i = 0"
  by (auto simp: pointwise_less_def)

definition shrinks :: "ext2_st \<Rightarrow> ext2_st \<Rightarrow> bool" where
  "shrinks st st' \<longleftrightarrow> same_geometry (fs_sb (fst st)) (fs_sb (fst st')) \<and> i_size (snd st') = i_size (snd st) \<and>
     pointwise_less (blk_ptrs (snd st)) (blk_ptrs (snd st')) \<and> (\<forall>b. pointwise_less (dsk st b) (dsk st' b)) \<and> (\<forall>c. used st' c \<longrightarrow> used st c)"

text \<open>
  The set \<open>R n\<close> holds the roots of trees of depth \<open>n\<close>: the pointers of the inode and of pointer blocks are null or roots of trees of the
  right depth, and roots are blocks of the file system.
\<close>

definition ranged :: "(nat \<Rightarrow> nat set) \<Rightarrow> ext2_st \<Rightarrow> bool" where
  "ranged R st \<longleftrightarrow> st_ok st \<and> length (blk_ptrs (snd st)) = 15 \<and>
     (\<forall>i < 15. blk_ptrs (snd st) ! i \<noteq> 0 \<longrightarrow> blk_ptrs (snd st) ! i \<in> R (i - 11)) \<and>
     (\<forall>n. \<forall>b \<in> R (Suc n). \<forall>x \<in> set (dsk st b). x \<noteq> 0 \<longrightarrow> x \<in> R n) \<and>
     (\<forall>n. \<forall>b \<in> R n. block_in_range (fs_sb (fst st)) b)"

lemma shrinks_refl: "ranged R st \<Longrightarrow> shrinks st st"
  by (simp add: shrinks_def same_geometry_def ranged_def st_ok_def)

lemma shrinks_trans: "shrinks st st1 \<Longrightarrow> shrinks st1 st2 \<Longrightarrow> shrinks st st2"
  by (auto simp: shrinks_def same_geometry_def intro: pointwise_less_trans)

lemma shrinks_range: "shrinks st st' \<Longrightarrow> block_in_range (fs_sb (fst st')) x = block_in_range (fs_sb (fst st)) x"
  by (simp add: shrinks_def same_geometry_def block_in_range_def)

lemma shrinks_ranged:
  assumes "ranged R st" and "shrinks st st'"
  shows "ranged R st'"
proof -
  have "x \<in> set (dsk st' b) \<Longrightarrow> x \<noteq> 0 \<Longrightarrow> x \<in> set (dsk st b)" for x b
    using assms(2) pointwise_less_set unfolding shrinks_def by blast
  moreover have "blk_ptrs (snd st') ! i = 0 \<or> blk_ptrs (snd st') ! i = blk_ptrs (snd st) ! i" if "i < 15" for i
    using assms that by (auto simp: ranged_def shrinks_def pointwise_less_def)
  moreover have "st_ok st'" "length (blk_ptrs (snd st')) = 15"
    using assms by (auto simp: ranged_def shrinks_def same_geometry_def st_ok_def pointwise_less_def)
  ultimately show ?thesis using assms(1) shrinks_range [OF assms(2)] unfolding ranged_def by metis
qed

text \<open>A computation that returns and only removes pointers and blocks.\<close>

definition removes :: "(nat \<Rightarrow> nat set) \<Rightarrow> (ext2_st \<Rightarrow> ext2_st option) \<Rightarrow> bool" where
  "removes R f \<longleftrightarrow> (\<forall>st. ranged R st \<longrightarrow> (\<exists>st'. f st = Some st' \<and> shrinks st st'))"

lemma removesD: "removes R f \<Longrightarrow> ranged R st \<Longrightarrow> \<exists>st'. f st = Some st' \<and> shrinks st st' \<and> ranged R st'"
  unfolding removes_def using shrinks_ranged by blast

lemma removes_Some [intro]: "removes R Some"
  by (simp add: removes_def shrinks_refl)

lemma removes_bind [intro]:
  assumes "removes R f" and "removes R g"
  shows "removes R (\<lambda>st. f st \<bind> g)"
  unfolding removes_def
proof (intro allI impI)
  fix st assume "ranged R st"
  then obtain st1 where 1: "f st = Some st1" "shrinks st st1" "ranged R st1" using removesD [OF assms(1)] by blast
  then obtain st2 where 2: "g st1 = Some st2" "shrinks st1 st2" using removesD [OF assms(2)] by blast
  then show "\<exists>st'. f st \<bind> g = Some st' \<and> shrinks st st'" using 1 shrinks_trans by auto
qed

lemma release_ok:
  assumes "st_ok st" and "block_in_range (fs_sb (fst st)) b"
  shows "\<exists>st'. ext2_block_release b st = Some st' \<and> shrinks st st' \<and> dsk st' = dsk st \<and> blk_ptrs (snd st') = blk_ptrs (snd st) \<and>
    (\<forall>c. used st' c \<longleftrightarrow> used st c \<and> c \<noteq> b)"
proof -
  obtain fs inode where st: "st = (fs, inode)" by (cases st)
  have "sb_ok (fs_sb fs)" "block_in_range (fs_sb fs) b" using assms by (simp_all add: st st_ok_def)
  from ext2_block_free_ok [OF this] show ?thesis
    by (auto simp: st ext2_block_release_def shrinks_def used_def)
qed

lemma release_blocks_ok:
  assumes "ranged R st" and "\<forall>b \<in> set bs. block_in_range (fs_sb (fst st)) b"
  shows "\<exists>st'. tmp_blocks_release_blocks bs st = Some st' \<and> shrinks st st' \<and> dsk st' = dsk st \<and> blk_ptrs (snd st') = blk_ptrs (snd st) \<and>
    (\<forall>c. used st' c \<longleftrightarrow> used st c \<and> c \<notin> set bs)"
  using assms
proof (induction bs arbitrary: st)
  case Nil
  then show ?case by (simp add: shrinks_refl)
next
  case (Cons b bs)
  obtain st1 where r: "ext2_block_release b st = Some st1" "shrinks st st1" "dsk st1 = dsk st" "blk_ptrs (snd st1) = blk_ptrs (snd st)"
    "\<forall>c. used st1 c \<longleftrightarrow> used st c \<and> c \<noteq> b" using release_ok [of st b] Cons.prems by (auto simp: ranged_def)
  have "\<forall>b \<in> set bs. block_in_range (fs_sb (fst st1)) b"
    using Cons.prems(2) r(2) by (simp add: shrinks_def same_geometry_def block_in_range_def)
  from Cons.IH [OF shrinks_ranged [OF Cons.prems(1) r(2)] this] obtain st2 where "tmp_blocks_release_blocks bs st1 = Some st2" "shrinks st1 st2"
    "dsk st2 = dsk st1" "blk_ptrs (snd st2) = blk_ptrs (snd st1)" "\<forall>c. used st2 c \<longleftrightarrow> used st1 c \<and> c \<notin> set bs" by blast
  then show ?case using r shrinks_trans [OF r(2)] by auto
qed

lemma take_ptrs_ok:
  assumes "ranged R st" and "take_ptrs b k st = (st', bs)"
  shows "shrinks st st'" and "dsk st' = (dsk st)(b := take k (dsk st b) @ replicate (length (dsk st b) - k) 0)"
    and "bs = filter (\<lambda>p. p \<noteq> 0) (drop k (dsk st b))" and "b \<in> R (Suc n) \<Longrightarrow> set bs \<subseteq> R n" and "used st' = used st"
    and "blk_ptrs (snd st') = blk_ptrs (snd st)" and "ranged R st'"
proof -
  obtain fs inode where st: "st = (fs, inode)" by (cases st)
  show d: "dsk st' = (dsk st)(b := take k (dsk st b) @ replicate (length (dsk st b) - k) 0)" and bs: "bs = filter (\<lambda>p. p \<noteq> 0) (drop k (dsk st b))"
    and u: "used st' = used st" and ptrs: "blk_ptrs (snd st') = blk_ptrs (snd st)" using assms(2) by (auto simp: st take_ptrs_def used_def Let_def)
  have sb: "fs_sb (fst st') = fs_sb (fst st)" "i_size (snd st') = i_size (snd st)" using assms(2) by (auto simp: st take_ptrs_def Let_def)
  have "pointwise_less (dsk st c) (dsk st' c)" for c by (auto simp: d pointwise_less_def nth_append min_def)
  then show sh: "shrinks st st'" using shrinks_refl [OF assms(1)] sb u ptrs by (simp add: shrinks_def)
  show "set bs \<subseteq> R n" if "b \<in> R (Suc n)" using assms(1) that by (auto simp: bs ranged_def dest!: in_set_dropD)
  show "ranged R st'" by (rule shrinks_ranged [OF assms(1) sh])
qed

text \<open>A page whose pointers are taken, worked on, and released.\<close>

lemma removes_page:
  assumes "\<And>bs. set bs \<subseteq> R n \<Longrightarrow> removes R (f bs)" and "ranged R st" and "take_ptrs b k st = (st1, bs)" and "b \<in> R (Suc n)"
  shows "\<exists>st'. (f bs st1 \<bind> tmp_blocks_release_blocks bs) = Some st' \<and> shrinks st st' \<and> shrinks st1 st'"
proof -
  note t = take_ptrs_ok [OF assms(2,3)]
  obtain st2 where s2: "f bs st1 = Some st2" "shrinks st1 st2" "ranged R st2" using removesD [OF assms(1) t(7)] t(4) [OF assms(4)] by blast
  have "\<forall>x \<in> set bs. block_in_range (fs_sb (fst st2)) x" using t(4) [OF assms(4)] s2(3) by (auto simp: ranged_def)
  from release_blocks_ok [OF s2(3) this] obtain st3 where s3: "tmp_blocks_release_blocks bs st2 = Some st3" "shrinks st2 st3" by blast
  have "shrinks st1 st3" by (rule shrinks_trans [OF s2(2) s3(2)])
  then show ?thesis using s2(1) s3(1) shrinks_trans [OF t(1)] by simp
qed

lemma removes_indirect: "b \<in> R (Suc 0) \<Longrightarrow> removes R (truncate_indirect_page b k)"
  unfolding removes_def
proof (intro allI impI)
  fix st assume b: "b \<in> R (Suc 0)" and st: "ranged R st"
  obtain st1 bs where t: "take_ptrs b k st = (st1, bs)" by (cases "take_ptrs b k st")
  show "\<exists>st'. truncate_indirect_page b k st = Some st' \<and> shrinks st st'"
    using removes_page [of R 0 "\<lambda>bs. Some", OF removes_Some st t b] t by (auto simp: truncate_indirect_page_def)
qed

lemma removes_indirect_pages: "set bs \<subseteq> R (Suc 0) \<Longrightarrow> removes R (truncate_indirect_pages bs k)"
proof (induction bs arbitrary: k)
  case (Cons b bs)
  have "removes R (\<lambda>st. truncate_indirect_page b k st \<bind> truncate_indirect_pages bs 0)" using Cons by (auto intro: removes_indirect)
  then show ?case by (simp add: removes_def)
qed (simp add: removes_def shrinks_refl)

lemma removes_dindirect: "b \<in> R (Suc (Suc 0)) \<Longrightarrow> removes R (truncate_dindirect_page b k l)"
  unfolding removes_def
proof (intro allI impI)
  fix st assume b: "b \<in> R (Suc (Suc 0))" and st: "ranged R st"
  obtain st1 bs where t: "take_ptrs b k st = (st1, bs)" by (cases "take_ptrs b k st")
  show "\<exists>st'. truncate_dindirect_page b k l st = Some st' \<and> shrinks st st'"
    using removes_page [of R "Suc 0" "\<lambda>bs. truncate_indirect_pages bs l", OF removes_indirect_pages st t b] t by (auto simp: truncate_dindirect_page_def)
qed

lemma removes_dindirect_pages: "set bs \<subseteq> R (Suc (Suc 0)) \<Longrightarrow> removes R (truncate_dindirect_pages bs k l)"
proof (induction bs arbitrary: k l)
  case (Cons b bs)
  have "removes R (\<lambda>st. truncate_dindirect_page b k l st \<bind> truncate_dindirect_pages bs 0 0)" using Cons by (auto intro: removes_dindirect)
  then show ?case by (simp add: removes_def)
qed (simp add: removes_def shrinks_refl)

lemma removes_tindirect: "b \<in> R (Suc (Suc (Suc 0))) \<Longrightarrow> removes R (truncate_tindirect_page b k l m)"
  unfolding removes_def
proof (intro allI impI)
  fix st assume b: "b \<in> R (Suc (Suc (Suc 0)))" and st: "ranged R st"
  obtain st1 bs where t: "take_ptrs b k st = (st1, bs)" by (cases "take_ptrs b k st")
  show "\<exists>st'. truncate_tindirect_page b k l m st = Some st' \<and> shrinks st st'"
    using removes_page [of R "Suc (Suc 0)" "\<lambda>bs. truncate_dindirect_pages bs l m", OF removes_dindirect_pages st t b] t
    by (auto simp: truncate_tindirect_page_def)
qed

lemma release_ptr_ok:
  assumes "ranged R st" and "i < 15"
  shows "\<exists>st'. release_ptr i st = Some st' \<and> shrinks st st' \<and> dsk st' = dsk st \<and> blk_ptrs (snd st') = (blk_ptrs (snd st))[i := 0] \<and>
    (\<forall>c. used st' c \<longleftrightarrow> used st c \<and> (blk_ptrs (snd st) ! i = 0 \<or> c \<noteq> blk_ptrs (snd st) ! i))"
proof (cases "blk_ptrs (snd st) ! i = 0")
  case True
  then have "(blk_ptrs (snd st))[i := 0] = blk_ptrs (snd st)" by (metis list_update_id)
  then show ?thesis using True assms(1) by (simp add: release_ptr_def shrinks_refl)
next
  case False
  have "block_in_range (fs_sb (fst st)) (blk_ptrs (snd st) ! i)" "st_ok st" using assms False unfolding ranged_def by blast+
  from release_ok [OF this(2,1)] obtain fs inode where r: "ext2_block_release (blk_ptrs (snd st) ! i) st = Some (fs, inode)" "shrinks st (fs, inode)"
    "dsk (fs, inode) = dsk st" "blk_ptrs (snd (fs, inode)) = blk_ptrs (snd st)" "\<forall>c. used (fs, inode) c \<longleftrightarrow> used st c \<and> c \<noteq> blk_ptrs (snd st) ! i"
    by auto
  have "pointwise_less (blk_ptrs (snd st)) ((blk_ptrs (snd st))[i := 0])" using assms by (simp add: pointwise_less_def nth_list_update ranged_def)
  then have "shrinks st (fs, inode\<lparr>blk_ptrs := (blk_ptrs (snd st))[i := 0]\<rparr>)" using r(2) by (simp add: shrinks_def used_def)
  then show ?thesis using r False by (simp add: release_ptr_def used_def)
qed

lemma removes_release_ptr: "i < 15 \<Longrightarrow> removes R (release_ptr i)"
  unfolding removes_def using release_ptr_ok by blast

lemma removes_release_ptrs: "\<forall>i \<in> set is. i < 15 \<Longrightarrow> removes R (release_ptrs is)"
proof (induction "is")
  case (Cons i "is")
  then have "removes R (\<lambda>st. release_ptr i st \<bind> release_ptrs is)" using removes_release_ptr by (intro removes_bind) auto
  then show ?case by (simp add: removes_def)
qed (simp add: removes_def shrinks_refl)

lemma removes_tree:
  assumes "\<And>b. b \<in> R (i - 11) \<Longrightarrow> removes R (page b)" and "i < 15"
  shows "removes R (truncate_tree page i k)"
  unfolding removes_def
proof (intro allI impI)
  fix st assume st: "ranged R st"
  let ?b = "blk_ptrs (snd st) ! i"
  show "\<exists>st'. truncate_tree page i k st = Some st' \<and> shrinks st st'"
  proof (cases "?b = 0")
    case True
    then show ?thesis using shrinks_refl [OF st] unfolding truncate_tree_def by (intro exI [of _ st]) simp
  next
    case False
    then have "removes R (\<lambda>st. page ?b st \<bind> (\<lambda>st. if k = 0 then release_ptr i st else Some st))"
      using assms st removes_release_ptr by (cases "k = 0") (auto simp: ranged_def)
    from removesD [OF this st] show ?thesis using False unfolding truncate_tree_def by auto
  qed
qed

lemma removes_if: "(P \<Longrightarrow> removes R f) \<Longrightarrow> removes R (\<lambda>st. if P then f st else Some st)"
  by (cases P) auto

text \<open>The sizes of the trees do not change: the parts of \<^verbatim>\<open>__ext2_inode_truncate_remove\<close> one after the other.\<close>

lemma removes_remove: "removes R (ext2_inode_truncate_remove start)"
  unfolding removes_def
proof (intro allI impI)
  fix st assume st: "ranged R st"
  let ?p = "ptrs st"
  let ?s1 = "if start < 12 then 0 else start - 12"
  let ?s2 = "if ?s1 < ?p then 0 else ?s1 - ?p"
  let ?s3 = "if ?s2 < ?p * ?p then 0 else ?s2 - ?p * ?p"
  have "removes R (\<lambda>st. (if start < 12 then release_ptrs [start..<12] st else Some st) \<bind>
    (\<lambda>st. (if ?s1 < ?p then truncate_tree (\<lambda>b. truncate_indirect_page b ?s1) 12 ?s1 st else Some st) \<bind>
    (\<lambda>st. (if ?s2 < ?p * ?p then truncate_tree (\<lambda>b. truncate_dindirect_page b (?s2 div ?p) (?s2 mod ?p)) 13 ?s2 st else Some st) \<bind>
    (\<lambda>st. if ?s3 < ?p * (?p * ?p)
          then truncate_tree (\<lambda>b. truncate_tindirect_page b (?s3 div ?p div ?p) (?s3 div ?p mod ?p) (?s3 div ?p div ?p div ?p)) 14 ?s3 st else Some st))))"
    by (intro removes_bind removes_if removes_tree removes_release_ptrs removes_indirect removes_dindirect removes_tindirect) (auto simp: numeral_2_eq_2 numeral_3_eq_3)
  then show "\<exists>st'. ext2_inode_truncate_remove start st = Some st' \<and> shrinks st st'"
    using st unfolding removes_def ext2_inode_truncate_remove_def Let_def by blast
qed

section \<open>A cut inside of the doubly indirect blocks\<close>

lemma dindirect_clears:
  assumes st: "ranged R st" and k: "k < length (dsk st b)" and b: "b \<in> R (Suc (Suc 0))"
  shows "\<exists>st'. truncate_dindirect_page b k l st = Some st' \<and> shrinks st st' \<and> dsk st' b ! k = 0"
proof -
  obtain st1 bs where t: "take_ptrs b k st = (st1, bs)" by (cases "take_ptrs b k st")
  obtain st' where s: "truncate_indirect_pages bs l st1 \<bind> tmp_blocks_release_blocks bs = Some st'" "shrinks st st'" "shrinks st1 st'"
    using removes_page [of R "Suc 0" "\<lambda>bs. truncate_indirect_pages bs l", OF removes_indirect_pages st t b] by blast
  have "dsk st1 b ! k = 0" "k < length (dsk st1 b)" using take_ptrs_ok(2) [OF st t] k by (auto simp: nth_append)
  then have "dsk st' b ! k = 0" using s(3) pointwise_less_zero unfolding shrinks_def by blast
  then show ?thesis using s t by (simp add: truncate_dindirect_page_def)
qed

lemma remove_in_dindirect:
  assumes st: "ranged R st" and p: "i < ptrs st" "0 < k" "k < ptrs st" and r: "blk_ptrs (snd st) ! 13 \<noteq> 0" "length (dsk st (blk_ptrs (snd st) ! 13)) = ptrs st"
  shows "\<exists>st'. ext2_inode_truncate_remove (12 + ptrs st + (i * ptrs st + k)) st = Some st' \<and> shrinks st st' \<and> dsk st' (blk_ptrs (snd st) ! 13) ! i = 0"
proof -
  let ?p = "ptrs st" and ?b = "blk_ptrs (snd st) ! 13"
  let ?q = "i * ?p + k"
  have q: "?q div ?p = i" "?q mod ?p = k" using p by auto
  have "i * ?p + ?p \<le> ?p * ?p" using p(1) by (metis Suc_leI add.commute mult_Suc mult_le_mono1)
  then have "?q < ?p * ?p" using p(3) by linarith
  have b: "?b \<in> R (Suc (Suc 0))" using st r(1) by (auto simp: ranged_def numeral_2_eq_2 dest!: spec [of _ "13 :: nat"])
  obtain st1 where s1: "truncate_dindirect_page ?b i k st = Some st1" "shrinks st st1" "dsk st1 ?b ! i = 0"
    using dindirect_clears [OF st _ b, of i k] p(1) r(2) by auto
  have "removes R (truncate_tree (\<lambda>b. truncate_tindirect_page b 0 0 0) 14 0)" by (intro removes_tree removes_tindirect) (simp_all add: numeral_3_eq_3)
  then obtain st2 where s2: "truncate_tree (\<lambda>b. truncate_tindirect_page b 0 0 0) 14 0 st1 = Some st2" "shrinks st1 st2"
    using removesD shrinks_ranged [OF st s1(2)] by blast
  have "length (dsk st1 ?b) = ?p" using s1(2) r(2) by (simp add: shrinks_def pointwise_less_def)
  then have "dsk st2 ?b ! i = 0" using s1(3) s2(2) p(1) pointwise_less_zero unfolding shrinks_def by metis
  moreover have "ext2_inode_truncate_remove (12 + ?p + ?q) st = Some st2"
    using \<open>?q < ?p * ?p\<close> q p s1(1) s2(1) r(1) by (simp add: ext2_inode_truncate_remove_def Let_def truncate_tree_def)
  ultimately show ?thesis using shrinks_trans [OF s1(2) s2(2)] by blast
qed

lemma ino_ok_ranged: "ino_ok st \<Longrightarrow> ranged (\<lambda>n. {b. tree_at n b st}) st"
proof -
  assume ok: "ino_ok st"
  have "tree_at (i - 11) (blk_ptrs (snd st) ! i) st" if "i < 15" "blk_ptrs (snd st) ! i \<noteq> 0" for i
    using ok ino_ok_tree [OF ok that] ino_ok_used [OF ok that(1)] that(2) by (auto simp: tree_at_def ino_ok_def root_blocks_def Let_def)
  moreover have "tree_at n x st" if x: "tree_at (Suc n) b st" "x \<in> set (dsk st b)" "x \<noteq> 0" for n b x
  proof -
    have "length (dsk st b) = ptrs st" using x(1) by (simp add: tree_at_def tree_unfold)
    then obtain k where "k < ptrs st" "x = dsk st b ! k" using x(2) by (auto simp: in_set_conv_nth)
    then show ?thesis using tree_at_child [OF x(1)] x(3) by simp
  qed
  moreover have "block_in_range (fs_sb (fst st)) b" if "tree_at n b st" for n b
    using that root_in_blocks used_in_range by (auto simp: tree_at_def used_def)
  ultimately show ?thesis using ok by (auto simp: ranged_def ino_ok_def)
qed

text \<open>
  C36. Truncating a file to a size that ends inside of a block of the doubly indirect area, but not at its first sector, loses data
  that should be kept: the sectors of this indirect block before the cut lose their blocks.
\<close>

theorem ext2_truncate_loses_kept_blocks:
  assumes "ino_ok st" and "blk_ptrs (snd st) ! 13 \<noteq> 0" and "i < ptrs st" and "0 < k" and "k < ptrs st"
    and "start = 12 + ptrs st + (i * ptrs st + k)" and "start \<le> i_size (snd st) div block_size (fs_sb (fst st))"
    and "12 + ptrs st + i * ptrs st \<le> s" and "s < start"
  shows "\<exists>st'. ext2_inode_truncate (start * block_size (fs_sb (fst st))) st = Some st' \<and>
    s * block_size (fs_sb (fst st)) < i_size (snd st') \<and> ext2_bmap s st' = None"
proof -
  let ?bs = "block_size (fs_sb (fst st))" and ?p = "ptrs st" and ?b = "blk_ptrs (snd st) ! 13"
  note R = ino_ok_ranged [OF assms(1)]
  have bs: "0 < ?bs" using assms(1) by (auto simp: ino_ok_def st_ok_def)
  have len: "length (dsk st ?b) = ?p" using ino_ok_tree [OF assms(1), of 13] assms(2) by (simp add: numeral_2_eq_2 tree_unfold)
  obtain fs inode where r: "ext2_inode_truncate_remove start st = Some (fs, inode)" "shrinks st (fs, inode)" "disk fs ?b ! i = 0"
    using remove_in_dindirect [OF R assms(3-5,2) len] assms(6) by auto
  have sz: "\<not> i_size (snd st) < start * ?bs" using assms(7) bs by (simp add: less_eq_div_iff_mult_less_eq not_less)
  let ?st = "(fs, inode\<lparr>i_size := start * ?bs, i_dirty := True\<rparr>)"
  have up: "(start * ?bs + (?bs - Suc 0)) div ?bs = start" by (subst div_mult_self3) (use bs in auto)
  have t: "ext2_inode_truncate (start * ?bs) st = Some ?st"
    using r(1) sz assms(7) up by (simp add: ext2_inode_truncate_def Let_def)
  have g: "block_size (fs_sb fs) = ?bs" "ptrs ?st = ?p" "length (blk_ptrs inode) = 15" "blk_ptrs inode ! 13 = ?b \<or> blk_ptrs inode ! 13 = 0"
    using r(2) ino_ok_length [OF assms(1)] by (auto simp: shrinks_def same_geometry_def pointwise_less_def ptrs_per_blk_def)
  let ?j = "s - 12 - ?p"
  have j: "?j = i * ?p + (?j - i * ?p)" "?j - i * ?p < ?p" using assms(5,6,8,9) by linarith+
  then have i: "?j div ?p = i" by (metis div_mult_self3 div_less add.right_neutral assms(5) less_nat_zero_code)
  then have "?j < ?p * ?p" using assms(3) by (metis less_mult_imp_div_less div_less_iff_less_mult gr_zeroI less_nat_zero_code)
  then have "locate ?p s = Some (13, ?j)" using assms(8) by (auto simp: locate_def)
  moreover have "inode_get ?st 13 ?j = 0"
    using g(2,4) r(3) i by (auto simp: inode_get_def tree_unfold numeral_2_eq_2 Let_def)
  ultimately have "ext2_bmap s ?st = None" using g by (subst ext2_bmap_locate) (auto simp: return_sector_def)
  then show ?thesis using t assms(9) bs by simp
qed

definition example_file :: ext2_st where
  "example_file = (\<lparr>fs_sb = example_sb, disk = (\<lambda>b. if b = 17 then [18, 0] else if b = 18 then [3, 4] else [0, 0])\<rparr>,
     \<lparr>blk_ptrs = [0, 0, 0, 0, 0, 0, 0, 0, 0, 0, 0, 0, 0, 17, 0], i_size = 200, i_blocks = 0, i_dirty = False\<rparr>)"

lemma example_file_tree:
  shows "i < 15 \<Longrightarrow> blk_ptrs (snd example_file) ! i = (if i = 13 then 17 else 0)" and "i < 15 \<Longrightarrow> root_blocks example_file i = (if i = 13 then {17, 18, 3, 4} else {})"
    and "tree_ok (ptrs example_file) (dsk example_file) 2 17"
proof -
  let ?d = "dsk example_file"
  have p: "ptrs example_file = 2" by (simp add: example_file_def ptrs_per_blk_def example_sb_def)
  have two: "{i. i < (2 :: nat) \<and> P i} = (if P 0 then {0} else {}) \<union> (if P 1 then {1} else {})" for P
    by (cases "P 0"; cases "P 1") (auto simp: less_2_cases_iff intro: gr0I)
  have ptr: "blk_ptrs (snd example_file) ! i = (if i = 13 then 17 else 0)" if "i < 15" for i using that by (simp add: example_file_def nth_Cons')
  have d: "?d 17 = [18, 0]" "?d 18 = [3, 4]" by (simp_all add: example_file_def)
  have t1: "tree_blocks 2 ?d (Suc 0) 18 = {18, 3, 4}" "tree_ok 2 ?d (Suc 0) 18" by (auto simp: tree_unfold d two less_2_cases_iff)
  have b2: "tree_blocks 2 ?d (Suc (Suc 0)) 17 = {17, 18, 3, 4}" by (simp only: tree_blocks.simps(2) [of 2 ?d "Suc 0"] d two) (simp add: t1)
  have k2: "tree_ok 2 ?d (Suc (Suc 0)) 17" unfolding tree_ok.simps(2) [of 2 ?d "Suc 0"] d using t1 by (simp add: less_2_cases_iff all_conj_distrib)
  note t2 = b2 [folded numeral_2_eq_2] k2 [folded numeral_2_eq_2]
  show "blk_ptrs (snd example_file) ! i = (if i = 13 then 17 else 0)" if "i < 15" using ptr that .
  show "tree_ok (ptrs example_file) (dsk example_file) 2 17" using t2(2) p by simp
  show "root_blocks example_file i = (if i = 13 then {17, 18, 3, 4} else {})" if "i < 15"
    using ptr [OF that] t2 p by (simp add: root_blocks_def)
qed

lemma example_file_blocks: "root_blocks example_file 13 = {17, 18, 3, 4}"
  by (simp add: example_file_tree(2))

lemma example_file_ok: "ino_ok example_file"
proof -
  have "used example_file 17" "used example_file 18" "used example_file 3" "used example_file 4"
    by (simp_all add: used_def example_file_def example_sb_def block_used_def bit_at_def)
  then show ?thesis using example_sb_ok example_file_tree
    by (auto simp: ino_ok_def) (simp_all add: st_ok_def example_file_def example_sb_def)
qed

theorem ext2_truncate_loses_kept_blocks_witness:
  "ext2_bmap 14 example_file = Some 3 \<and> (\<exists>st'. ext2_inode_truncate (15 * 8) example_file = Some st' \<and> ext2_bmap 14 st' = None)"
proof
  show "ext2_bmap 14 example_file = Some 3" by code_simp
  show "\<exists>st'. ext2_inode_truncate (15 * 8) example_file = Some st' \<and> ext2_bmap 14 st' = None"
    using ext2_truncate_loses_kept_blocks [OF example_file_ok, of 0 1 15 14] by (auto simp: example_file_def ptrs_per_blk_def example_sb_def)
qed

end
