(* ===== verification/Ext2TruncateCorrect.thy ===== *)
theory Ext2TruncateCorrect
  imports Ext2Truncate
begin

text \<open>
  Truncation to a size within the direct blocks of a file releases exactly the blocks behind the new end, those of all trees of pointer blocks
  included, and keeps the other sectors.
\<close>

section \<open>Clearing a tree\<close>

abbreviation blocks_of :: "ext2_st \<Rightarrow> nat \<Rightarrow> nat \<Rightarrow> nat set" where
  "blocks_of st n b \<equiv> tree_blocks (ptrs st) (dsk st) n b"

text \<open>The blocks \<open>U\<close> are released, and only the contents of blocks in \<open>B\<close> change.\<close>

definition cleared :: "nat set \<Rightarrow> nat set \<Rightarrow> ext2_st \<Rightarrow> ext2_st \<Rightarrow> bool" where
  "cleared B U st st' \<longleftrightarrow> shrinks st st' \<and> blk_ptrs (snd st') = blk_ptrs (snd st) \<and> (\<forall>c. used st' c \<longleftrightarrow> used st c \<and> c \<notin> U) \<and>
     (\<forall>c. c \<notin> B \<longrightarrow> dsk st' c = dsk st c)"

lemma shrinks_ptrs: "shrinks st st' \<Longrightarrow> ptrs st' = ptrs st"
  by (simp add: shrinks_def same_geometry_def ptrs_per_blk_def)

lemma cleared_trans: "cleared B U st st1 \<Longrightarrow> cleared B' U' st1 st2 \<Longrightarrow> cleared (B \<union> B') (U \<union> U') st st2"
  using shrinks_trans [of st st1 st2] by (auto simp: cleared_def)

lemma cleared_tree:
  assumes "tree_at n b st" and "cleared B U st st'" and "blocks_of st n b \<inter> B = {}" and "blocks_of st n b \<inter> U = {}"
  shows "tree_at n b st' \<and> blocks_of st' n b = blocks_of st n b"
proof -
  have p: "ptrs st' = ptrs st" using assms(2) shrinks_ptrs by (simp add: cleared_def)
  have "\<forall>c \<in> blocks_of st n b. dsk st' c = dsk st c" using assms(2,3) by (auto simp: cleared_def)
  from tree_frame [OF this] have f: "blocks_of st' n b = blocks_of st n b" "tree_ok (ptrs st') (dsk st') n b" using assms(1) p by (auto simp: tree_at_def)
  have "st_ok st'" using assms(1,2) by (auto simp: tree_at_def cleared_def shrinks_def same_geometry_def st_ok_def)
  moreover have "used st' c" if "c \<in> blocks_of st n b" for c using assms that by (auto simp: tree_at_def cleared_def)
  ultimately show ?thesis using f by (simp add: tree_at_def)
qed

definition clears :: "(nat \<Rightarrow> nat set) \<Rightarrow> nat \<Rightarrow> (nat \<Rightarrow> ext2_st \<Rightarrow> ext2_st option) \<Rightarrow> bool" where
  "clears R n page \<longleftrightarrow> (\<forall>st b. ranged R st \<longrightarrow> b \<in> R n \<longrightarrow> tree_at n b st \<longrightarrow>
     (\<exists>st'. page b st = Some st' \<and> cleared (blocks_of st n b) (blocks_of st n b - {b}) st st'))"

fun each :: "(nat \<Rightarrow> ext2_st \<Rightarrow> ext2_st option) \<Rightarrow> nat list \<Rightarrow> ext2_st \<Rightarrow> ext2_st option" where
  "each page [] st = Some st"
| "each page (b # bs) st = do { st \<leftarrow> page b st; each page bs st }"

lemma each_clears:
  assumes "clears R n page" and "ranged R st" and "set bs \<subseteq> R n" and "\<forall>b \<in> set bs. tree_at n b st"
    and "sorted_wrt (\<lambda>b c. blocks_of st n b \<inter> blocks_of st n c = {}) bs"
  shows "\<exists>st'. each page bs st = Some st' \<and>
    cleared (\<Union>b \<in> set bs. blocks_of st n b) (\<Union>b \<in> set bs. blocks_of st n b - {b}) st st'"
  using assms(2-5)
proof (induction bs arbitrary: st)
  case Nil
  then show ?case by (simp add: cleared_def shrinks_refl)
next
  case (Cons b bs)
  obtain st1 where s1: "page b st = Some st1" "cleared (blocks_of st n b) (blocks_of st n b - {b}) st st1"
    using assms(1) Cons.prems unfolding clears_def by (metis insert_subset list.set(2) list.set_intros(1))
  have r1: "ranged R st1" using shrinks_ranged [OF Cons.prems(1)] s1(2) by (simp add: cleared_def)
  have d: "blocks_of st n c \<inter> blocks_of st n b = {}" if "c \<in> set bs" for c using Cons.prems(4) that by (auto simp: Int_commute)
  have same: "tree_at n c st1 \<and> blocks_of st1 n c = blocks_of st n c" if "c \<in> set bs" for c
    using cleared_tree [of n c st _ _ st1] Cons.prems(3) s1(2) d [OF that] that by auto
  have "sorted_wrt (\<lambda>b c. blocks_of st1 n b \<inter> blocks_of st1 n c = {}) bs"
    using Cons.prems(4) same by (auto intro: sorted_wrt_mono_rel [rotated])
  with Cons.IH [OF r1] obtain st2 where s2: "each page bs st1 = Some st2"
    "cleared (\<Union>b \<in> set bs. blocks_of st1 n b) (\<Union>b \<in> set bs. blocks_of st1 n b - {b}) st1 st2"
    using Cons.prems(2) same by auto
  have "(\<Union>b \<in> set bs. blocks_of st1 n b) = (\<Union>b \<in> set bs. blocks_of st n b)" "(\<Union>b \<in> set bs. blocks_of st1 n b - {b}) = (\<Union>b \<in> set bs. blocks_of st n b - {b})"
    using same by auto
  then show ?case using s1 s2 cleared_trans [OF s1(2)] by simp
qed

text \<open>The pages of one depth are built from those of the depth below.\<close>

definition clear_page :: "(nat \<Rightarrow> ext2_st \<Rightarrow> ext2_st option) \<Rightarrow> nat \<Rightarrow> ext2_st \<Rightarrow> ext2_st option" where
  "clear_page page b st = (let (st, bs) = take_ptrs b 0 st in do { st \<leftarrow> each page bs st; tmp_blocks_release_blocks bs st })"

lemma each_Some: "each (\<lambda>b. Some) bs st = Some st"
  by (induction bs) auto

lemma indirect_each: "truncate_indirect_pages bs 0 = each (\<lambda>b. truncate_indirect_page b 0) bs"
  by (induction bs) (rule ext, simp, rule ext, simp only: truncate_indirect_pages.simps each.simps truncate_dindirect_pages.simps)

lemma dindirect_each: "truncate_dindirect_pages bs 0 0 = each (\<lambda>b. truncate_dindirect_page b 0 0) bs"
  by (induction bs) (rule ext, simp, rule ext, simp only: truncate_indirect_pages.simps each.simps truncate_dindirect_pages.simps)

lemma pages_clear:
  "truncate_indirect_page b 0 = clear_page (\<lambda>b. Some) b" "truncate_dindirect_page b 0 0 = clear_page (\<lambda>b. truncate_indirect_page b 0) b"
  "truncate_tindirect_page b 0 0 0 = clear_page (\<lambda>b. truncate_dindirect_page b 0 0) b"
  by (auto simp: clear_page_def truncate_indirect_page_def truncate_dindirect_page_def truncate_tindirect_page_def each_Some indirect_each dindirect_each
      fun_eq_iff)

lemma children_disjoint:
  assumes "tree_at (Suc n) b st"
  shows "sorted_wrt (\<lambda>c c'. blocks_of st n c \<inter> blocks_of st n c' = {}) (filter (\<lambda>c. c \<noteq> 0) (dsk st b))"
proof -
  let ?P = "\<lambda>c c'. c \<noteq> 0 \<longrightarrow> c' \<noteq> 0 \<longrightarrow> blocks_of st n c \<inter> blocks_of st n c' = {}"
  have "sorted_wrt ?P (dsk st b)"
    unfolding sorted_wrt_iff_nth_less using assms by (auto simp: tree_at_def tree_unfold)
  then have "sorted_wrt ?P (filter (\<lambda>c. c \<noteq> 0) (dsk st b))" by (rule sorted_wrt_filter)
  then show ?thesis by (rule sorted_wrt_mono_rel [rotated]) auto
qed

lemma blocks_children:
  assumes "tree_at (Suc n) b st"
  shows "blocks_of st (Suc n) b = insert b (\<Union>c \<in> set (filter (\<lambda>c. c \<noteq> 0) (dsk st b)). blocks_of st n c)"
    and "b \<notin> (\<Union>c \<in> set (filter (\<lambda>c. c \<noteq> 0) (dsk st b)). blocks_of st n c)"
    and "\<forall>c \<in> set (filter (\<lambda>c. c \<noteq> 0) (dsk st b)). tree_at n c st"
proof -
  have len: "length (dsk st b) = ptrs st" using assms by (simp add: tree_at_def tree_unfold)
  then have "set (filter (\<lambda>c. c \<noteq> 0) (dsk st b)) = (!) (dsk st b) ` {i. i < ptrs st \<and> dsk st b ! i \<noteq> 0}"
    by (auto simp: in_set_conv_nth)
  then show "blocks_of st (Suc n) b = insert b (\<Union>c \<in> set (filter (\<lambda>c. c \<noteq> 0) (dsk st b)). blocks_of st n c)" by (simp add: tree_unfold)
  show "b \<notin> (\<Union>c \<in> set (filter (\<lambda>c. c \<noteq> 0) (dsk st b)). blocks_of st n c)"
    using assms len by (auto simp: tree_at_def tree_unfold in_set_conv_nth)
  show "\<forall>c \<in> set (filter (\<lambda>c. c \<noteq> 0) (dsk st b)). tree_at n c st"
    using len tree_at_child [OF assms] by (auto simp: in_set_conv_nth)
qed

lemma clears_Suc:
  assumes "clears R n page"
  shows "clears R (Suc n) (clear_page page)"
  unfolding clears_def
proof (intro allI impI)
  fix st b assume st: "ranged R st" "b \<in> R (Suc n)" "tree_at (Suc n) b st"
  let ?bs = "filter (\<lambda>c. c \<noteq> 0) (dsk st b)"
  obtain st1 bs where t: "take_ptrs b 0 st = (st1, bs)" by (cases "take_ptrs b 0 st")
  note t' = take_ptrs_ok [OF st(1) t]
  have bs: "bs = ?bs" using t'(3) by simp
  have c1: "cleared {b} {} st st1" using t'(1,2,5,6) by (simp add: cleared_def)
  note ch = blocks_children [OF st(3)]
  have same: "tree_at n c st1 \<and> blocks_of st1 n c = blocks_of st n c" if "c \<in> set bs" for c
    using cleared_tree [OF _ c1, of n c] ch(2,3) that bs by auto
  have "sorted_wrt (\<lambda>b c. blocks_of st1 n b \<inter> blocks_of st1 n c = {}) bs"
    by (rule sorted_wrt_mono_rel [OF _ children_disjoint [OF st(3), folded bs]]) (use same in auto)
  then obtain st2 where s2: "each page bs st1 = Some st2"
    "cleared (\<Union>b \<in> set bs. blocks_of st1 n b) (\<Union>b \<in> set bs. blocks_of st1 n b - {b}) st1 st2"
    using each_clears [OF assms t'(7) t'(4) [OF st(2)]] same by blast
  have r2: "ranged R st2" using shrinks_ranged [OF t'(7)] s2(2) by (simp add: cleared_def)
  have "\<forall>x \<in> set bs. block_in_range (fs_sb (fst st2)) x" using t'(4) [OF st(2)] r2 by (auto simp: ranged_def)
  from release_blocks_ok [OF r2 this] obtain st3 where s3: "tmp_blocks_release_blocks bs st2 = Some st3" "cleared {} (set bs) st2 st3"
    by (auto simp: cleared_def)
  have "cleared ({b} \<union> (\<Union>b \<in> set bs. blocks_of st1 n b) \<union> {}) ({} \<union> (\<Union>b \<in> set bs. blocks_of st1 n b - {b}) \<union> set bs) st st3"
    by (rule cleared_trans [OF cleared_trans [OF c1 s2(2)] s3(2)])
  moreover have "{b} \<union> (\<Union>b \<in> set bs. blocks_of st1 n b) \<union> {} = blocks_of st (Suc n) b" using ch(1) same unfolding bs by auto
  moreover have "{} \<union> (\<Union>b \<in> set bs. blocks_of st1 n b - {b}) \<union> set bs = blocks_of st (Suc n) b - {b}"
    using ch(1,2) same root_in_blocks unfolding bs by auto
  ultimately show "\<exists>st'. clear_page page b st = Some st' \<and> cleared (blocks_of st (Suc n) b) (blocks_of st (Suc n) b - {b}) st st'"
    using t s2(1) s3(1) by (simp add: clear_page_def)
qed

section \<open>Dropping pointers of the inode\<close>

text \<open>The pointers \<open>S\<close> of the inode are null afterwards, and exactly the blocks of their trees are released.\<close>

definition dropped :: "nat set \<Rightarrow> ext2_st \<Rightarrow> ext2_st \<Rightarrow> bool" where
  "dropped S st st' \<longleftrightarrow> ino_ok st' \<and> shrinks st st' \<and>
     (\<forall>k < 15. root_blocks st' k = (if k \<in> S then {} else root_blocks st k) \<and>
       (\<forall>l < ptrs st ^ (k - 11). inode_get st' k l = (if k \<in> S then 0 else inode_get st k l))) \<and>
     (\<forall>c. used st' c \<longleftrightarrow> used st c \<and> c \<notin> (\<Union>i \<in> S. root_blocks st i))"

lemma dropped_refl: "ino_ok st \<Longrightarrow> dropped {} st st"
  using shrinks_refl [OF ino_ok_ranged] by (simp add: dropped_def)

lemma dropped_insert:
  assumes "dropped S st st1" and "dropped {i} st1 st2" and "i \<notin> S" and "i < 15"
  shows "dropped (insert i S) st st2"
proof -
  have p: "ptrs st1 = ptrs st" using assms(1) shrinks_ptrs by (simp add: dropped_def)
  have "shrinks st st2" using assms shrinks_trans [of st st1 st2] by (simp add: dropped_def)
  moreover have "root_blocks st1 i = root_blocks st i" using assms by (simp add: dropped_def)
  ultimately show ?thesis using assms p by (auto simp: dropped_def)
qed

text \<open>One pointer: its tree is cleared and the root released.\<close>

lemma drop_one:
  assumes ok: "ino_ok st" and i: "i < 15" and sh: "shrinks st st'" and b: "blk_ptrs (snd st') = (blk_ptrs (snd st))[i := 0]"
    and u: "\<forall>c. used st' c \<longleftrightarrow> used st c \<and> c \<notin> root_blocks st i" and d: "\<forall>c. c \<notin> root_blocks st i \<longrightarrow> dsk st' c = dsk st c"
  shows "dropped {i} st st'"
proof -
  have p: "ptrs st' = ptrs st" using sh by (rule shrinks_ptrs)
  have len: "length (blk_ptrs (snd st)) = 15" using ok by (simp add: ino_ok_def)
  have at: "blk_ptrs (snd st') ! k = (if k = i then 0 else blk_ptrs (snd st) ! k)" if "k < 15" for k using b len that by (simp add: nth_list_update)
  have same: "\<forall>x \<in> root_blocks st k. dsk st' x = dsk st x \<and> used st' x" if "k < 15" "k \<noteq> i" for k
  proof
    fix x assume x: "x \<in> root_blocks st k"
    have "x \<notin> root_blocks st i" "used st x" using ok that i x unfolding ino_ok_def by blast+
    then show "dsk st' x = dsk st x \<and> used st' x" using d u by blast
  qed
  have rk: "root_blocks st' k = root_blocks st k \<and> (blk_ptrs (snd st) ! k \<noteq> 0 \<longrightarrow> tree_ok (ptrs st) (dsk st') (k - 11) (blk_ptrs (snd st) ! k))"
    if "k < 15" "k \<noteq> i" for k
    using same [OF that] ino_ok_tree [OF ok that(1)] that at [OF that(1)] p tree_frame [of "ptrs st" "dsk st" "k - 11" "blk_ptrs (snd st) ! k" "dsk st'"]
    by (auto simp: root_blocks_def Let_def)
  have ri: "root_blocks st' i = {}" "inode_get st' i l = 0" for l using at [OF i] by (auto simp: root_blocks_def inode_get_def)
  have g: "inode_get st' k l = inode_get st k l" if "k < 15" "k \<noteq> i" "l < ptrs st ^ (k - 11)" for k l
    using same [OF that(1,2)] at [OF that(1)] that p tree_get_frame [of "ptrs st" "dsk st" "k - 11" "blk_ptrs (snd st) ! k" "dsk st'" l]
    by (auto simp: inode_get_def root_blocks_def Let_def)
  have "(blk_ptrs (snd st') ! k \<noteq> 0 \<longrightarrow> tree_ok (ptrs st) (dsk st') (k - 11) (blk_ptrs (snd st') ! k)) \<and> (\<forall>c \<in> root_blocks st' k. used st' c)" if "k < 15" for k
    using that at [OF that] rk [OF that] ri(1) same [OF that] by (cases "k = i") auto
  moreover have "root_blocks st' k \<inter> root_blocks st' k' = {}" if "k < 15" "k' < 15" "k \<noteq> k'" for k k'
    using that rk [of k] rk [of k'] ri(1) ok by (cases "k = i"; cases "k' = i") (auto simp: ino_ok_def)
  moreover have "st_ok st'" using ok sh by (auto simp: ino_ok_def shrinks_def same_geometry_def st_ok_def)
  ultimately have "ino_ok st'" using p b len by (simp add: ino_ok_def)
  then show ?thesis using sh rk ri g u by (simp add: dropped_def)
qed

lemma release_ptr_drops:
  assumes ok: "ino_ok st" and i: "i < 12"
  shows "\<exists>st'. release_ptr i st = Some st' \<and> dropped {i} st st'"
proof -
  have i': "i < 15" "i - 11 = 0" using i by auto
  have rb: "root_blocks st i = (if blk_ptrs (snd st) ! i = 0 then {} else {blk_ptrs (snd st) ! i})" using i'(2) by (simp add: root_blocks_def)
  from release_ptr_ok [OF ino_ok_ranged [OF ok] i'(1)] obtain st' where r: "release_ptr i st = Some st'" "shrinks st st'" "dsk st' = dsk st"
    "blk_ptrs (snd st') = (blk_ptrs (snd st))[i := 0]" "\<forall>c. used st' c \<longleftrightarrow> used st c \<and> (blk_ptrs (snd st) ! i = 0 \<or> c \<noteq> blk_ptrs (snd st) ! i)" by blast
  have "dropped {i} st st'" by (rule drop_one [OF ok i'(1) r(2,4)]) (use r(3,5) rb in auto)
  then show ?thesis using r(1) by blast
qed

lemma truncate_tree_drops:
  assumes ok: "ino_ok st" and i: "i < 15" and page: "\<And>R. clears R (i - 11) page"
  shows "\<exists>st'. truncate_tree page i 0 st = Some st' \<and> dropped {i} st st'"
proof (cases "blk_ptrs (snd st) ! i = 0")
  case True
  then have "(blk_ptrs (snd st))[i := 0] = blk_ptrs (snd st)" by (metis list_update_id)
  then have "dropped {i} st st" by (intro drop_one [OF ok i shrinks_refl [OF ino_ok_ranged [OF ok]]]) (use True in \<open>auto simp: root_blocks_def\<close>)
  then show ?thesis using True by (auto simp: truncate_tree_def)
next
  case False
  let ?b = "blk_ptrs (snd st) ! i" and ?R = "\<lambda>n. {b. tree_at n b st}"
  have rg: "ranged ?R st" by (rule ino_ok_ranged [OF ok])
  then have at: "tree_at (i - 11) ?b st" using i False by (auto simp: ranged_def)
  then obtain st1 where s1: "page ?b st = Some st1" "cleared (blocks_of st (i - 11) ?b) (blocks_of st (i - 11) ?b - {?b}) st st1"
    using page [of ?R] rg unfolding clears_def by blast
  have r1: "ranged ?R st1" using shrinks_ranged [OF rg] s1(2) by (simp add: cleared_def)
  obtain st2 where s2: "release_ptr i st1 = Some st2" "shrinks st1 st2" "dsk st2 = dsk st1" "blk_ptrs (snd st2) = (blk_ptrs (snd st1))[i := 0]"
    "\<forall>c. used st2 c \<longleftrightarrow> used st1 c \<and> (blk_ptrs (snd st1) ! i = 0 \<or> c \<noteq> blk_ptrs (snd st1) ! i)" using release_ptr_ok [OF r1 i] by blast
  have rb: "root_blocks st i = blocks_of st (i - 11) ?b" using False by (simp add: root_blocks_def)
  have "dropped {i} st st2"
    by (rule drop_one [OF ok i shrinks_trans [OF _ s2(2)]]) (use s1(2) s2(3,4,5) rb False root_in_blocks in \<open>auto simp: cleared_def\<close>)
  then show ?thesis using s1(1) s2(1) False by (simp add: truncate_tree_def)
qed

section \<open>Truncation within the direct blocks\<close>

lemma release_ptrs_drops:
  assumes "ino_ok st" and "distinct is" and "\<forall>i \<in> set is. i < 12"
  shows "\<exists>st'. release_ptrs is st = Some st' \<and> dropped (set is) st st'"
proof -
  have "\<exists>st'. release_ptrs is st1 = Some st' \<and> dropped (S \<union> set is) st st'" if "dropped S st st1" "S \<inter> set is = {}" for S st1
    using assms(2,3) that
  proof (induction "is" arbitrary: S st1)
    case (Cons i "is")
    obtain st2 where s2: "release_ptr i st1 = Some st2" "dropped {i} st1 st2"
      using release_ptr_drops [of st1 i] Cons.prems by (auto simp: dropped_def)
    have "dropped (insert i S) st st2" by (rule dropped_insert [OF Cons.prems(3) s2(2)]) (use Cons.prems in auto)
    from Cons.IH [OF _ _ this] show ?case using Cons.prems s2(1) by auto
  qed simp
  from this [OF dropped_refl [OF assms(1)]] show ?thesis by simp
qed

lemma clears_pages:
  "clears R 1 (\<lambda>b. truncate_indirect_page b 0)" "clears R 2 (\<lambda>b. truncate_dindirect_page b 0 0)" "clears R 3 (\<lambda>b. truncate_tindirect_page b 0 0 0)"
proof -
  have "clears R 0 (\<lambda>b. Some)" by (auto simp: clears_def cleared_def shrinks_refl)
  from clears_Suc [OF this] have 1: "clears R (Suc 0) (\<lambda>b. truncate_indirect_page b 0)" by (simp add: pages_clear(1))
  from clears_Suc [OF this] have 2: "clears R (Suc (Suc 0)) (\<lambda>b. truncate_dindirect_page b 0 0)" by (simp only: pages_clear(2) eta_contract_eq)
  from clears_Suc [OF this] have 3: "clears R (Suc (Suc (Suc 0))) (\<lambda>b. truncate_tindirect_page b 0 0 0)" by (simp only: pages_clear(3) eta_contract_eq)
  show "clears R 1 (\<lambda>b. truncate_indirect_page b 0)" "clears R 2 (\<lambda>b. truncate_dindirect_page b 0 0)" "clears R 3 (\<lambda>b. truncate_tindirect_page b 0 0 0)"
    using 1 2 3 by (simp_all add: numeral_2_eq_2 numeral_3_eq_3)
qed

lemma remove_drops:
  assumes ok: "ino_ok st" and start: "start \<le> 12"
  shows "\<exists>st'. ext2_inode_truncate_remove start st = Some st' \<and> dropped {start..<15} st st'"
proof -
  have p: "0 < ptrs st" using ok by (auto simp: ino_ok_def st_ok_def ptrs_per_blk_def)
  obtain st1 where 1: "(if start < 12 then release_ptrs [start..<12] st else Some st) = Some st1" "dropped {start..<12} st st1"
    using release_ptrs_drops [OF ok, of "[start..<12]"] dropped_refl [OF ok] start by (cases "start < 12") auto
  have "ino_ok st1" using 1(2) by (simp add: dropped_def)
  from truncate_tree_drops [OF this, of 12 "\<lambda>b. truncate_indirect_page b 0"] obtain st2 where 2: "truncate_tree (\<lambda>b. truncate_indirect_page b 0) 12 0 st1 = Some st2" "dropped {12} st1 st2"
    using clears_pages(1) by auto
  have "ino_ok st2" using 2(2) by (simp add: dropped_def)
  from truncate_tree_drops [OF this, of 13 "\<lambda>b. truncate_dindirect_page b 0 0"] obtain st3 where 3: "truncate_tree (\<lambda>b. truncate_dindirect_page b 0 0) 13 0 st2 = Some st3" "dropped {13} st2 st3"
    using clears_pages(2) by auto
  have "ino_ok st3" using 3(2) by (simp add: dropped_def)
  from truncate_tree_drops [OF this, of 14 "\<lambda>b. truncate_tindirect_page b 0 0 0"] obtain st4 where 4: "truncate_tree (\<lambda>b. truncate_tindirect_page b 0 0 0) 14 0 st3 = Some st4" "dropped {14} st3 st4"
    using clears_pages(3) by auto
  have "dropped (insert 14 (insert 13 (insert 12 {start..<12}))) st st4"
    by (rule dropped_insert [OF dropped_insert [OF dropped_insert [OF 1(2) 2(2)] 3(2)] 4(2)]) auto
  moreover have "insert 14 (insert 13 (insert 12 {start..<12})) = {start..<15}" using start by auto
  moreover have "ext2_inode_truncate_remove start st = Some st4"
    using 1(1) 2(1) 3(1) 4(1) p start by (simp add: ext2_inode_truncate_remove_def Let_def)
  ultimately show ?thesis by simp
qed

lemma ceil_le: "0 < b \<Longrightarrow> (n :: nat) \<le> (n + (b - 1)) div b * b"
proof -
  assume b: "0 < b"
  have "n + (b - 1) = (n + (b - 1)) div b * b + (n + (b - 1)) mod b" by simp
  moreover have "(n + (b - 1)) mod b < b" using b by simp
  ultimately show ?thesis using b by linarith
qed

lemma size_irrelevant:
  "ino_ok (fs, inode\<lparr>i_size := n, i_dirty := d\<rparr>) = ino_ok (fs, inode)" "used (fs, inode\<lparr>i_size := n, i_dirty := d\<rparr>) = used (fs, inode)"
  "inode_get (fs, inode\<lparr>i_size := n, i_dirty := d\<rparr>) = inode_get (fs, inode)"
proof -
  have r: "root_blocks (fs, inode\<lparr>i_size := n, i_dirty := d\<rparr>) = root_blocks (fs, inode)"
    by (simp add: fun_eq_iff root_blocks_def Let_def)
  show u: "used (fs, inode\<lparr>i_size := n, i_dirty := d\<rparr>) = used (fs, inode)" by (simp add: used_def)
  show "ino_ok (fs, inode\<lparr>i_size := n, i_dirty := d\<rparr>) = ino_ok (fs, inode)" using r u by (simp add: ino_ok_def st_ok_def)
  show "inode_get (fs, inode\<lparr>i_size := n, i_dirty := d\<rparr>) = inode_get (fs, inode)" by (simp add: fun_eq_iff inode_get_def Let_def)
qed

text \<open>
  C20. Truncating a file to a size within its twelve direct blocks keeps the blocks of the sectors before the new end, leaves no
  other sector mapped, and releases exactly the blocks of the other pointers: the data blocks and all pointer blocks of their trees.
\<close>

theorem ext2_truncate_direct:
  assumes "ino_ok st" and "start = (new_size + (block_size (fs_sb (fst st)) - 1)) div block_size (fs_sb (fst st))"
    and "start \<le> 12" and "start \<le> i_size (snd st) div block_size (fs_sb (fst st))"
  shows "\<exists>st'. ext2_inode_truncate new_size st = Some st' \<and> ino_ok st' \<and> i_size (snd st') = new_size \<and>
    (\<forall>s. ext2_bmap s st' = (if s < start then ext2_bmap s st else None)) \<and>
    (\<forall>c. used st' c \<longleftrightarrow> used st c \<and> c \<notin> (\<Union>i \<in> {start..<15}. root_blocks st i))"
proof -
  let ?bs = "block_size (fs_sb (fst st))"
  have bs: "0 < ?bs" using assms(1) by (auto simp: ino_ok_def st_ok_def)
  have "new_size \<le> start * ?bs" using assms(2) bs by (metis ceil_le)
  moreover have "start * ?bs \<le> i_size (snd st)" using assms(4) bs by (simp add: less_eq_div_iff_mult_less_eq)
  ultimately have sz: "\<not> i_size (snd st) < new_size" by linarith
  obtain fs inode where r: "ext2_inode_truncate_remove start st = Some (fs, inode)" "dropped {start..<15} st (fs, inode)"
    using remove_drops [OF assms(1,3)] by auto
  let ?st = "(fs, inode\<lparr>i_size := new_size, i_dirty := True\<rparr>)"
  have t: "ext2_inode_truncate new_size st = Some ?st" using r(1) sz assms(2,4) by (simp add: ext2_inode_truncate_def Let_def)
  have ok: "ino_ok ?st" using r(2) by (simp add: dropped_def size_irrelevant)
  have len: "length (blk_ptrs (snd st)) = 15" "length (blk_ptrs (snd ?st)) = 15" using assms(1) ok by (auto dest: ino_ok_length)
  have p: "ptrs ?st = ptrs st" using r(2) shrinks_ptrs [of st "(fs, inode)"] by (simp add: dropped_def)
  have "ext2_bmap s ?st = (if s < start then ext2_bmap s st else None)" for s
  proof (cases "locate (ptrs st) s")
    case None
    then show ?thesis using p by (simp add: ext2_bmap_locate [OF len(1)] ext2_bmap_locate [OF len(2)])
  next
    case (Some ij)
    obtain i j where l: "locate (ptrs st) s = Some (i, j)" using Some by (cases ij) auto
    have b: "i < 15" "j < ptrs st ^ (i - 11)" "s < start \<longleftrightarrow> i < start" "s < start \<Longrightarrow> s < 12"
      using locate_bounds [OF l] l assms(3) by (auto simp: locate_def split: if_splits)
    have "inode_get ?st i j = (if i \<in> {start..<15} then 0 else inode_get st i j)"
      using r(2) b unfolding dropped_def size_irrelevant by blast
    then show ?thesis using b l p by (auto simp: ext2_bmap_locate [OF len(1)] ext2_bmap_locate [OF len(2)] return_sector_def)
  qed
  moreover have "used ?st c \<longleftrightarrow> used st c \<and> c \<notin> (\<Union>i \<in> {start..<15}. root_blocks st i)" for c
    using r(2) unfolding dropped_def size_irrelevant by blast
  ultimately show ?thesis using t ok by simp
qed

theorem ext2_truncate_direct_witness:
  "\<exists>st'. ext2_inode_truncate 10 example_file = Some st' \<and> i_size (snd st') = 10 \<and> ext2_bmap 14 st' = None \<and> \<not> used st' 3 \<and> \<not> used st' 17"
proof -
  have "(2 :: nat) = (10 + (block_size (fs_sb (fst example_file)) - 1)) div block_size (fs_sb (fst example_file))"
    "2 \<le> i_size (snd example_file) div block_size (fs_sb (fst example_file))" by (simp_all add: example_file_def example_sb_def)
  from ext2_truncate_direct [OF example_file_ok this(1) _ this(2)] obtain st' where t: "ext2_inode_truncate 10 example_file = Some st'" "i_size (snd st') = 10"
    "\<forall>s. ext2_bmap s st' = (if s < 2 then ext2_bmap s example_file else None)"
    "\<forall>c. used st' c \<longleftrightarrow> used example_file c \<and> c \<notin> (\<Union>i \<in> {2..<15}. root_blocks example_file i)" by auto
  have "13 \<in> {2..<(15 :: nat)}" by simp
  then have "3 \<in> (\<Union>i \<in> {2..<15}. root_blocks example_file i)" "17 \<in> (\<Union>i \<in> {2..<15}. root_blocks example_file i)"
    using example_file_blocks by blast+
  then show ?thesis using t by simp
qed

end
