(* ===== verification/Spec2Isabelle.thy ===== *)
theory Spec2Isabelle
  imports KList Bootmem KmallocCorrect Users CharBuf KBuf VtCorrect Kparam SeqTables SchedFair Semaphore WorkCorrect WaitEvent SignalReturn
    Ktimer TcpCorrect TcpChecksum Ext2TruncateCorrect
begin

text \<open>
  Verification of the Protura kernel, a Unix-like kernel for the x86 written in C. The theories model components of the
  kernel as executable HOL functions, keep the names of the C functions (\<^verbatim>\<open>__foo\<close> is \<open>u_foo\<close>), and prove what the components promise each
  other and what user programs may rely on. All paths below are those of the repository, \<^verbatim>\<open>src/\<close> being its directory with the kernel sources.

  \<^bold>\<open>Conventions.\<close> Machine integers whose wrap-around matters are words; counters and indices that the code keeps in range are
  natural numbers. A function of a kernel state returns the new state. An outer \<^term>\<open>None\<close> stands for what C leaves undefined and for what does not
  return: an access outside of an object, a null pointer, a panic, an endless loop; the theorems that an operation works show that the result is
  \<^term>\<open>Some\<close>. Error numbers are the values of \<open>errno\<close>, and a function that returns one or a result has type \<open>kresult\<close>. User memory is a
  partial map from addresses to bytes, and an unmapped address is a fault. Loops are structural recursion where the C loop runs over data;
  loops that may not end are \<^verbatim>\<open>partial_function\<close>, so that no fuel is needed and termination is proved as the result being \<^term>\<open>Some\<close>. Locks are
  not modelled as such: a function that runs under a lock is one step, and where interleavings matter the steps are those between acquiring and
  releasing the lock, as an inductive relation.

  \<^bold>\<open>Foundations.\<close> \<open>Prelude\<close>: word types, alignment macros and page and address arithmetic (\<^verbatim>\<open>arch/paging.h\<close>, \<^verbatim>\<open>arch/memlayout.h\<close>).
  \<open>Errno\<close>: error numbers. \<open>Bitops\<close>: bitmaps as byte lists (\<^verbatim>\<open>arch/bitops.h\<close>) and the id allocator (\<^verbatim>\<open>kernel/ida.c\<close>), whose ids are unique.
  \<open>KList\<close>: the intrusive doubly linked lists (\<^verbatim>\<open>list.h\<close>) on a heap of pointers, which refine HOL lists; its locale \<open>node_queue\<close> is the contract of a queue of nodes.

  \<^bold>\<open>Memory.\<close> \<open>Palloc\<close> is the buddy allocator (\<^verbatim>\<open>mm/palloc.c\<close>), \<open>BuddySpec\<close> its abstract specification by sets of free blocks, and
  \<open>PallocCorrect\<close> and \<open>PallocRun\<close> prove that all sequences of allocations and frees keep live blocks disjoint and count the free pages. \<open>Bootmem\<close>
  (\<^verbatim>\<open>mm/bootmem.c\<close>) hands over the memory at boot. \<open>PageProvider\<close> states as a locale what the allocators above rely on and interprets it on the
  buddy allocator. \<open>Slab\<close>, \<open>SlabCorrect\<close> (\<^verbatim>\<open>mm/slab.c\<close>), \<open>Kmalloc\<close> and \<open>KmallocCorrect\<close> (\<^verbatim>\<open>mm/kmalloc.c\<close>) show that live objects are disjoint and what
  double frees do. \<open>UserMem\<close> (\<^verbatim>\<open>mm/user_check.c\<close>) shows that the access check is exact and that copies stay in the user half.

  \<^bold>\<open>Tasks.\<close> \<open>Sched\<close>, \<open>SchedFair\<close> (\<^verbatim>\<open>kernel/sched/scheduler.c\<close>): every runnable task is chosen within a bounded number of rounds.
  \<open>Semaphore\<close>: exclusion and no lost wake-up over all interleavings. \<open>Work\<close>, \<open>WorkCorrect\<close>, \<open>WaitEvent\<close>: work queues, wait queues and
  the waiting macro. \<open>Signals\<close>, \<open>SignalsCorrect\<close>, \<open>SignalReturn\<close>: the signal system calls, delivery, and the return from a handler, which restores the
  interrupted task. \<open>Ktimer\<close>: kernel timers and the timer interrupt. \<open>Users\<close>: credentials and the permission check; no sequence of system calls
  gains privileges.

  \<^bold>\<open>Text and buffers.\<close> \<open>Strings\<close>, \<open>Printf\<close> (\<^verbatim>\<open>kernel/str\<close>): number parsing and the format interpreter; its locale \<open>printf_sink\<close> is the
  contract of an output, interpreted on strings and on page buffers (\<open>KBuf\<close>, \<open>KbufPrint\<close>). \<open>CharBuf\<close>: the ring buffer, which refines a bounded queue. \<open>Kparam\<close>: the
  kernel command line. \<open>SeqFile\<close>: generated files over a locale \<open>seq_source\<close>, which \<open>SeqTables\<close> interprets on the file systems, the
  executable formats and the sockets. \<open>VtScroll\<close>, \<open>VtState\<close>, \<open>VtCorrect\<close>: the screen and the escape-sequence parser of the virtual terminal, whose accesses
  stay inside of the screen for all inputs of a stated class.

  \<^bold>\<open>Network.\<close> \<open>Tcp\<close> is the state machine of a connection (\<^verbatim>\<open>net/ipv4/tcp_input.c\<close>, \<^verbatim>\<open>tcp_data.c\<close>, \<^verbatim>\<open>tcp_output.c\<close>); \<open>TcpCorrect\<close> proves its
  window test equal to that of RFC 793, and that the bytes received are always a prefix of the bytes sent. \<open>TcpChecksum\<close> is the checksum.

  \<^bold>\<open>File system.\<close> \<open>Ext2Alloc\<close>: the block bitmaps. \<open>Ext2Map\<close>, \<open>Ext2MapCorrect\<close>, \<open>Ext2Bmap\<close> (\<^verbatim>\<open>fs/ext2/bmap.c\<close>): the trees of pointer blocks of
  an inode; the C functions for each depth equal one recursive function, the trees stay disjoint, and allocating a sector changes no other one.
  \<open>Ext2Truncate\<close>, \<open>Ext2TruncateCorrect\<close> (\<^verbatim>\<open>fs/ext2/truncate.c\<close>): truncation within the direct blocks is exact, and a cut inside of the doubly indirect area loses kept data.

  \<^bold>\<open>Bounds.\<close> The models need no fuel. The TCP receive theorem is for streams shorter than the space of sequence numbers, the checksum one for
  packets below 100000 bytes, which keeps its 32-bit sum from wrapping around. Examples use small file systems and memories; the theorems do not.

  \<^bold>\<open>Properties that show defects.\<close> Some theorems state what the code does where this is not what it means to do: double frees in the slab allocator,
  terminal inputs outside of the safe class, the signal mask after \<^verbatim>\<open>sigsuspend\<close>, the unchecked frame of \<^verbatim>\<open>sigreturn\<close>, timers after the tick counter
  overflows, overlapping TCP segments, and the truncation of doubly indirect blocks.

  \<^bold>\<open>Not modelled.\<close> The virtual file system, directories and inodes of ext2, block cache and partitions: objects with reference counts shared by
  many locks. The rest of the network stack: packet buffers and tables of interfaces and routes. Address spaces, page faults, creation of
  processes and context switches: processor state and assembly. Device drivers and boot code: input and output on ports and memory-mapped
  registers. The line discipline of terminals and pipes. User programs and build scripts, which are not part of the kernel.
\<close>

end
